(* ===== verification/Prelude.thy ===== *)
theory Prelude
  imports Complex_Main "HOL-Library.Word"
begin

section \<open>Prelude: shared vocabulary and automation\<close>

text \<open>
  The vocabulary every component of the development shares:
  \<^item> JavaScript strings are sequences of UTF-16 code units, \<open>jstring\<close>, a list of naturals;
    \<open>J ''abc''\<close> is the literal \<open>abc\<close>. C and C++ strings are \<open>string\<close>;
  \<^item> a computation that may throw is a value of \<open>'e + 'a\<close>, threaded by \<open>bindE\<close>;
  \<^item> the collections \<open>fw_simps\<close> (firewall), \<open>js_simps\<close> (language) and \<open>ng_simps\<close> (framework)
    gather the defining facts the proofs of a component unfold;
  \<^item> \<open>step_invariant\<close> is the contract "every operation keeps this invariant" that the
    stateful components interpret for their own step functions.
\<close>

named_theorems fw_simps "unfolding rules of the packet filter"
named_theorems js_simps "unfolding rules of the JavaScript layer"
named_theorems ng_simps "unfolding rules of the framework layer"

subsection \<open>Strings\<close>

type_synonym jstring = "nat list"

definition J :: "string \<Rightarrow> jstring" where
  "J s = map of_char s"

lemma J_Nil [simp]: "J [] = []"
  by (simp add: J_def)

lemma J_Cons [simp]: "J (c # s) = of_char c # J s"
  by (simp add: J_def)

lemma J_append: "J (s @ t) = J s @ J t"
  by (simp add: J_def)

lemma length_J [simp]: "length (J s) = length s"
  by (simp add: J_def)

lemma J_inject [simp]: "J s = J t \<longleftrightarrow> s = t"
  by (auto simp: J_def inj_map_eq_map inj_def)

subsection \<open>Results that may be errors\<close>

definition bindE :: "'e + 'a \<Rightarrow> ('a \<Rightarrow> 'e + 'b) \<Rightarrow> 'e + 'b" where
  "bindE r f = (case r of Inl e \<Rightarrow> Inl e | Inr a \<Rightarrow> f a)"

lemma bindE_simps [simp]:
  "bindE (Inl e) f = Inl e"
  "bindE (Inr a) f = f a"
  by (simp_all add: bindE_def)

lemma bindE_Inr_iff: "bindE r f = Inr b \<longleftrightarrow> (\<exists>a. r = Inr a \<and> f a = Inr b)"
  by (cases r) auto

fun is_ok :: "'e + 'a \<Rightarrow> bool" where
  "is_ok (Inl e) = False"
| "is_ok (Inr a) = True"

lemma is_ok_iff: "is_ok r \<longleftrightarrow> (\<exists>a. r = Inr a)"
  by (cases r) auto

lemma is_ok_bindE: "is_ok (bindE r f) \<longleftrightarrow> (\<exists>a. r = Inr a \<and> is_ok (f a))"
  by (cases r) auto

lemma bindE_cong [fundef_cong]:
  assumes "r = r'" and "\<And>a. r' = Inr a \<Longrightarrow> f a = f' a"
  shows "bindE r f = bindE r' f'"
  using assms by (cases r') auto

subsection \<open>Lists\<close>

lemma takeWhile_append_stop:
  "\<forall>x \<in> set xs. P x \<Longrightarrow> \<not> P y \<Longrightarrow> takeWhile P (xs @ y # ys) = xs"
  by (simp add: takeWhile_append2)

lemma dropWhile_append_stop:
  "\<forall>x \<in> set xs. P x \<Longrightarrow> \<not> P y \<Longrightarrow> dropWhile P (xs @ y # ys) = y # ys"
  by (simp add: dropWhile_append2)

lemma takeWhile_all: "\<forall>x \<in> set xs. P x \<Longrightarrow> takeWhile P xs = xs"
  by (simp add: takeWhile_eq_all_conv)

lemma dropWhile_all: "\<forall>x \<in> set xs. P x \<Longrightarrow> dropWhile P xs = []"
  by simp

fun split_on :: "'a \<Rightarrow> 'a list \<Rightarrow> 'a list list" where
  "split_on d [] = [[]]"
| "split_on d (x # xs) =
     (if x = d then [] # split_on d xs
      else case split_on d xs of [] \<Rightarrow> [[x]] | p # ps \<Rightarrow> (x # p) # ps)"

fun join_with :: "'a list \<Rightarrow> 'a list list \<Rightarrow> 'a list" where
  "join_with sep [] = []"
| "join_with sep [p] = p"
| "join_with sep (p # q # ps) = p @ sep @ join_with sep (q # ps)"

lemma split_on_not_Nil [simp]: "split_on d xs \<noteq> []"
  by (induction xs) (auto split: list.splits)

lemma split_on_single: "d \<notin> set xs \<Longrightarrow> split_on d xs = [xs]"
  by (induction xs) auto

lemma split_on_append: "d \<notin> set xs \<Longrightarrow> split_on d (xs @ d # ys) = xs # split_on d ys"
  by (induction xs) auto

lemma split_on_join:
  "ps \<noteq> [] \<Longrightarrow> \<forall>p \<in> set ps. d \<notin> set p \<Longrightarrow> split_on d (join_with [d] ps) = ps"
  by (induction "[d]" ps rule: join_with.induct) (auto simp: split_on_single split_on_append)

lemma join_split: "join_with [d] (split_on d xs) = xs"
proof (induction xs)
  case (Cons x xs)
  then show ?case by (cases "split_on d xs") (auto, (cases "tl (split_on d xs)"; auto)+)
qed simp

lemma split_on_pieces: "p \<in> set (split_on d xs) \<Longrightarrow> d \<notin> set p \<and> set p \<subseteq> set xs"
  by (induction xs arbitrary: p) (fastforce split: if_splits list.splits)+

subsection \<open>Invariants of a step function\<close>

text \<open>
  The contract of a stateful component towards its clients: \<open>step\<close> runs one operation and
  \<open>inv\<close> holds between operations. A client may run any sequence of operations.
\<close>

locale step_invariant =
  fixes step :: "'op \<Rightarrow> 's \<Rightarrow> 's"
    and inv :: "'s \<Rightarrow> bool"
  assumes step_inv: "inv s \<Longrightarrow> inv (step op s)"
begin

lemma run_inv: "inv s \<Longrightarrow> inv (fold step ops s)"
  by (induction ops arbitrary: s) (auto intro: step_inv)

lemma run_prefix_inv: "inv s \<Longrightarrow> inv (fold step (take n ops) s)"
  by (rule run_inv)

end

subsection \<open>Simulation of an abstract machine\<close>

text \<open>
  The contract between a component and its abstract specification: started in related states, every
  operation gives the same output and related states again. A client may then replace any run of
  the component by the run of its specification.
\<close>

fun run_ops :: "('op \<Rightarrow> 's \<Rightarrow> 'o \<times> 's) \<Rightarrow> 'op list \<Rightarrow> 's \<Rightarrow> 'o list \<times> 's" where
  "run_ops step [] s = ([], s)"
| "run_ops step (op # ops) s =
     (let (r, s') = step op s; (rs, s'') = run_ops step ops s' in (r # rs, s''))"

locale simulation =
  fixes cstep :: "'op \<Rightarrow> 's \<Rightarrow> 'o \<times> 's"
    and astep :: "'op \<Rightarrow> 'a \<Rightarrow> 'o \<times> 'a"
    and rel :: "'s \<Rightarrow> 'a \<Rightarrow> bool"
  assumes sim: "rel s a \<Longrightarrow>
    fst (cstep op s) = fst (astep op a) \<and> rel (snd (cstep op s)) (snd (astep op a))"
begin

lemma run_sim:
  "rel s a \<Longrightarrow> fst (run_ops cstep ops s) = fst (run_ops astep ops a) \<and>
     rel (snd (run_ops cstep ops s)) (snd (run_ops astep ops a))"
proof (induction ops arbitrary: s a)
  case (Cons op ops)
  then show ?case
    using sim [of s a op] Cons.IH [of "snd (cstep op s)" "snd (astep op a)"]
    by (simp add: case_prod_beta Let_def)
qed simp

end

end
