(* ===== verification/JsNum.thy ===== *)
theory JsNum
  imports Prelude "HOL-Library.Log_Nat"
begin

section \<open>JavaScript numbers: IEEE 754 doubles\<close>

text \<open>
  The Number type of ECMAScript (and \<open>double\<close> in the C++ sources): a finite value is a rational
  that a double represents, results are rounded to nearest, ties to even. \<open>Fin 0\<close> is +0,
  \<open>NZero\<close> is -0, \<open>Inf True\<close> is the negative infinity. The conversions to and from strings are
  those of the language (\<open>Number(s)\<close> and \<open>String(n)\<close>).
\<close>

datatype jnum = NaN | Inf bool | NZero | Fin rat

fun num_val :: "jnum \<Rightarrow> rat" where
  "num_val (Fin r) = r"
| "num_val _ = 0"

fun is_finite :: "jnum \<Rightarrow> bool" where
  "is_finite NaN = False"
| "is_finite (Inf _) = False"
| "is_finite _ = True"

fun is_neg :: "jnum \<Rightarrow> bool" where
  "is_neg NaN = False"
| "is_neg (Inf s) = s"
| "is_neg NZero = True"
| "is_neg (Fin r) = (r < 0)"

subsection \<open>Rounding\<close>

definition pow2 :: "int \<Rightarrow> rat" where
  "pow2 e = (if 0 \<le> e then 2 ^ nat e else 1 / 2 ^ nat (- e))"

definition ilog2 :: "rat \<Rightarrow> int" where
  "ilog2 x = (let (p, q) = quotient_of x; k = bitlen p - bitlen q
     in if x < pow2 k then k - 1 else k)"

definition round_half_even :: "rat \<Rightarrow> int" where
  "round_half_even x = (let f = \<lfloor>x\<rfloor>; d = x - of_int f
     in if d < 1 / 2 then f else if 1 / 2 < d then f + 1 else if even f then f else f + 1)"

definition overflow_bound :: rat where
  "overflow_bound = 2 ^ 1024"

definition double_of_rat :: "bool \<Rightarrow> rat \<Rightarrow> jnum" where
  "double_of_rat neg x =
     (if x = 0 then (if neg then NZero else Fin 0)
      else
        let e = max (ilog2 \<bar>x\<bar> - 52) (- 1074);
            m = round_half_even (x / pow2 e);
            r = of_int m * pow2 e
        in if overflow_bound \<le> \<bar>r\<bar> then Inf (x < 0)
           else if m = 0 then (if x < 0 then NZero else Fin 0)
           else Fin r)"

subsection \<open>Arithmetic\<close>

fun num_neg :: "jnum \<Rightarrow> jnum" where
  "num_neg NaN = NaN"
| "num_neg (Inf s) = Inf (\<not> s)"
| "num_neg NZero = Fin 0"
| "num_neg (Fin r) = (if r = 0 then NZero else Fin (- r))"

definition num_add :: "jnum \<Rightarrow> jnum \<Rightarrow> jnum" where
  "num_add a b =
     (if a = NaN \<or> b = NaN then NaN
      else case (a, b) of
        (Inf s, Inf t) \<Rightarrow> if s = t then Inf s else NaN
      | (Inf s, _) \<Rightarrow> Inf s
      | (_, Inf t) \<Rightarrow> Inf t
      | (NZero, NZero) \<Rightarrow> NZero
      | _ \<Rightarrow> double_of_rat False (num_val a + num_val b))"

definition num_sub :: "jnum \<Rightarrow> jnum \<Rightarrow> jnum" where
  "num_sub a b = num_add a (num_neg b)"

definition num_mul :: "jnum \<Rightarrow> jnum \<Rightarrow> jnum" where
  "num_mul a b =
     (if a = NaN \<or> b = NaN then NaN
      else let neg = (is_neg a \<noteq> is_neg b) in
        if is_finite a \<and> is_finite b then double_of_rat neg (num_val a * num_val b)
        else if is_finite a \<and> num_val a = 0 \<or> is_finite b \<and> num_val b = 0 then NaN
        else Inf neg)"

definition num_div :: "jnum \<Rightarrow> jnum \<Rightarrow> jnum" where
  "num_div a b =
     (if a = NaN \<or> b = NaN then NaN
      else let neg = (is_neg a \<noteq> is_neg b) in
        if \<not> is_finite a then (if is_finite b then Inf neg else NaN)
        else if \<not> is_finite b then double_of_rat neg 0
        else if num_val b = 0 then (if num_val a = 0 then NaN else Inf neg)
        else double_of_rat neg (num_val a / num_val b))"

definition rat_trunc :: "rat \<Rightarrow> int" where
  "rat_trunc x = (if 0 \<le> x then \<lfloor>x\<rfloor> else - \<lfloor>- x\<rfloor>)"

definition num_mod :: "jnum \<Rightarrow> jnum \<Rightarrow> jnum" where
  "num_mod a b =
     (if a = NaN \<or> b = NaN \<or> \<not> is_finite a \<or> is_finite b \<and> num_val b = 0 then NaN
      else if \<not> is_finite b then a
      else if num_val a = 0 then a
      else double_of_rat (is_neg a)
        (num_val a - num_val b * of_int (rat_trunc (num_val a / num_val b))))"

fun num_lt :: "jnum \<Rightarrow> jnum \<Rightarrow> bool" where
  "num_lt NaN b = False"
| "num_lt a NaN = False"
| "num_lt (Inf s) (Inf t) = (s \<and> \<not> t)"
| "num_lt (Inf s) b = s"
| "num_lt a (Inf t) = (\<not> t)"
| "num_lt a b = (num_val a < num_val b)"

text \<open>The \<open>==\<close> and \<open>===\<close> of two numbers: NaN differs from itself, the two zeros are equal.\<close>

fun num_eq :: "jnum \<Rightarrow> jnum \<Rightarrow> bool" where
  "num_eq NaN b = False"
| "num_eq a NaN = False"
| "num_eq (Inf s) (Inf t) = (s = t)"
| "num_eq (Inf s) b = False"
| "num_eq a (Inf t) = False"
| "num_eq a b = (num_val a = num_val b)"

definition num_le :: "jnum \<Rightarrow> jnum \<Rightarrow> bool" where
  "num_le a b \<longleftrightarrow> num_lt a b \<or> num_eq a b"

definition num_of_int :: "int \<Rightarrow> jnum" where
  "num_of_int i = double_of_rat False (of_int i)"

definition num_floor :: "jnum \<Rightarrow> jnum" where
  "num_floor a = (case a of Fin r \<Rightarrow> double_of_rat (r < 0) (of_int \<lfloor>r\<rfloor>) | _ \<Rightarrow> a)"

lemma num_eq_sym: "num_eq a b = num_eq b a"
  by (cases a; cases b) auto

lemma num_eq_trans: "num_eq a b \<Longrightarrow> num_eq b c \<Longrightarrow> num_eq a c"
  by (cases a; cases b; cases c) auto

lemma num_eq_refl [simp]: "num_eq a a \<longleftrightarrow> a \<noteq> NaN"
  by (cases a) auto

lemma num_lt_irrefl [simp]: "\<not> num_lt a a"
  by (cases a) auto

lemma num_lt_trans: "num_lt a b \<Longrightarrow> num_lt b c \<Longrightarrow> num_lt a c"
  by (cases a; cases b; cases c) auto

lemma num_lt_linear: "a \<noteq> NaN \<Longrightarrow> b \<noteq> NaN \<Longrightarrow> num_lt a b \<or> num_eq a b \<or> num_lt b a"
  by (cases a; cases b) auto

subsection \<open>Strings to numbers\<close>

definition is_digit :: "nat \<Rightarrow> bool" where
  "is_digit c \<longleftrightarrow> 48 \<le> c \<and> c \<le> 57"

definition is_ws :: "nat \<Rightarrow> bool" where
  "is_ws c \<longleftrightarrow> c \<in> {9, 10, 11, 12, 13, 32, 160, 0x1680, 0x2028, 0x2029, 0x202F, 0x205F, 0x3000, 0xFEFF}
     \<or> 0x2000 \<le> c \<and> c \<le> 0x200A"

definition trim :: "jstring \<Rightarrow> jstring" where
  "trim s = rev (dropWhile is_ws (rev (dropWhile is_ws s)))"

definition digits_val :: "jstring \<Rightarrow> int" where
  "digits_val s = foldl (\<lambda>n c. 10 * n + int (c - 48)) 0 s"

definition hex_val :: "nat \<Rightarrow> nat option" where
  "hex_val c =
     (if 48 \<le> c \<and> c \<le> 57 then Some (c - 48)
      else if 97 \<le> c \<and> c \<le> 102 then Some (c - 87)
      else if 65 \<le> c \<and> c \<le> 70 then Some (c - 55)
      else None)"

fun radix_val :: "nat \<Rightarrow> jstring \<Rightarrow> int \<Rightarrow> int option" where
  "radix_val b [] n = Some n"
| "radix_val b (c # s) n =
     (case hex_val c of
        Some d \<Rightarrow> if d < b then radix_val b s (int b * n + int d) else None
      | None \<Rightarrow> None)"

definition pow10 :: "int \<Rightarrow> rat" where
  "pow10 e = (if 0 \<le> e then 10 ^ nat e else 1 / 10 ^ nat (- e))"

text \<open>\<open>exponent_part\<close> reads what follows the significant digits: nothing, or \<open>e[+-]digits\<close>.\<close>

definition exponent_part :: "jstring \<Rightarrow> int option" where
  "exponent_part s =
     (case s of
        [] \<Rightarrow> Some 0
      | c # t \<Rightarrow>
          if c = 101 \<or> c = 69 then
            (let (sgn, ds) = (case t of
                  [] \<Rightarrow> (1, [])
                | d # u \<Rightarrow> if d = 45 then (- 1, u) else if d = 43 then (1, u) else (1, t))
             in if ds \<noteq> [] \<and> list_all is_digit ds then Some (sgn * digits_val ds) else None)
          else None)"

text \<open>An unsigned decimal literal as an exact rational.\<close>

definition decimal_val :: "jstring \<Rightarrow> rat option" where
  "decimal_val s =
     (let ip = takeWhile is_digit s; r1 = dropWhile is_digit s;
          (fp, r2, dot) = (case r1 of
              [] \<Rightarrow> ([], [], False)
            | c # t \<Rightarrow> if c = 46 then (takeWhile is_digit t, dropWhile is_digit t, True)
                      else ([], r1, False))
      in if ip = [] \<and> fp = [] then None
         else case exponent_part r2 of
             None \<Rightarrow> None
           | Some e \<Rightarrow> Some (of_int (digits_val (ip @ fp)) * pow10 (e - int (length fp))))"

definition signed_decimal :: "jstring \<Rightarrow> jnum" where
  "signed_decimal s =
     (let (neg, t) = (case s of
            [] \<Rightarrow> (False, [])
          | c # u \<Rightarrow> if c = 45 then (True, u) else if c = 43 then (False, u) else (False, s))
      in if t = J ''Infinity'' then Inf neg
         else case decimal_val t of
             None \<Rightarrow> NaN
           | Some r \<Rightarrow> double_of_rat neg (if neg then - r else r))"

definition num_of_string :: "jstring \<Rightarrow> jnum" where
  "num_of_string s =
     (let t = trim s in
      if t = [] then Fin 0
      else if 2 < length t \<and> hd t = 48 \<and> t ! 1 \<in> {120, 88, 111, 79, 98, 66} then
        (let b = (if t ! 1 \<in> {120, 88} then 16 else if t ! 1 \<in> {111, 79} then 8 else 2)
         in case radix_val b (drop 2 t) 0 of
             None \<Rightarrow> NaN
           | Some n \<Rightarrow> double_of_rat False (of_int n))
      else signed_decimal t)"

subsection \<open>Numbers to strings\<close>

text \<open>The decimal digits of a natural number, given as an \<open>int\<close>.\<close>

function int_digits :: "int \<Rightarrow> jstring" where
  "int_digits n = (if n < 10 then [48 + nat n] else int_digits (n div 10) @ [48 + nat (n mod 10)])"
  by pat_completeness auto
termination
  by (relation "measure nat") auto

declare int_digits.simps [simp del]

definition ilog10 :: "rat \<Rightarrow> int" where
  "ilog10 x =
     (if 1 \<le> x then int (length (int_digits \<lfloor>x\<rfloor>)) - 1
      else case find (\<lambda>j. 1 \<le> x * 10 ^ j) [1..<400] of Some j \<Rightarrow> - int j | None \<Rightarrow> - 400)"

text \<open>
  The shortest decimal that reads back as \<open>x\<close>: \<open>k\<close> digits \<open>s\<close> with \<open>x\<close> the double nearest
  to \<open>s * 10^(n-k)\<close>, \<open>k\<close> as small as possible.
\<close>

definition shortest_digits :: "rat \<Rightarrow> jstring \<times> int" where
  "shortest_digits x =
     (let n = ilog10 x + 1;
          cand = (\<lambda>k. round_half_even (x * pow10 (int k - n)));
          ok = (\<lambda>k. double_of_rat False (of_int (cand k) * pow10 (n - int k)) = Fin x);
          k = (case find ok [1..<18] of Some k \<Rightarrow> k | None \<Rightarrow> 17);
          s = cand k
      in if 10 ^ k \<le> s then (int_digits (s div 10), n + 1) else (int_digits s, n))"

definition pos_to_string :: "rat \<Rightarrow> jstring" where
  "pos_to_string x =
     (let (ds, n) = shortest_digits x; k = int (length ds) in
      if k \<le> n \<and> n \<le> 21 then ds @ replicate (nat (n - k)) 48
      else if 0 < n \<and> n \<le> 21 then take (nat n) ds @ [46] @ drop (nat n) ds
      else if - 6 < n \<and> n \<le> 0 then [48, 46] @ replicate (nat (- n)) 48 @ ds
      else
        let e = n - 1;
            es = [101, if e < 0 then 45 else 43] @ int_digits \<bar>e\<bar>
        in if k = 1 then ds @ es else take 1 ds @ [46] @ drop 1 ds @ es)"

fun num_to_string :: "jnum \<Rightarrow> jstring" where
  "num_to_string NaN = J ''NaN''"
| "num_to_string (Inf s) = (if s then J ''-Infinity'' else J ''Infinity'')"
| "num_to_string NZero = J ''0''"
| "num_to_string (Fin r) =
     (if r = 0 then J ''0'' else if r < 0 then 45 # pos_to_string (- r) else pos_to_string r)"

subsection \<open>Decimal digits\<close>

lemma int_digits_not_Nil [simp]: "int_digits n \<noteq> []"
  by (subst int_digits.simps) simp

lemma int_digits_are_digits: "0 \<le> n \<Longrightarrow> list_all is_digit (int_digits n)"
proof (induction n rule: int_digits.induct)
  case (1 n)
  then show ?case
    by (subst int_digits.simps) (auto simp: list_all_iff is_digit_def nat_less_iff)
qed

lemma digits_val_append: "digits_val (s @ [c]) = 10 * digits_val s + int (c - 48)"
  by (simp add: digits_val_def)

lemma digits_val_int_digits [simp]: "0 \<le> n \<Longrightarrow> digits_val (int_digits n) = n"
proof (induction n rule: int_digits.induct)
  case (1 n)
  show ?case
  proof (cases "n < 10")
    case True
    with 1 show ?thesis by (subst int_digits.simps) (simp add: digits_val_def)
  next
    case False
    with 1 show ?thesis by (subst int_digits.simps) (simp add: digits_val_append)
  qed
qed

subsection \<open>Integers in the exact range\<close>

text \<open>Integers below \<open>2^53\<close> in absolute value are doubles, so rounding leaves them alone.\<close>

lemma pow2_nonpos: "e \<le> 0 \<Longrightarrow> pow2 e = 1 / 2 ^ nat (- e)"
  by (cases "e = 0") (simp_all add: pow2_def)

lemma round_half_even_of_int [simp]: "round_half_even (of_int m) = m"
  by (simp add: round_half_even_def)

lemma ilog2_of_int: "0 < n \<Longrightarrow> n < 2 ^ 53 \<Longrightarrow> ilog2 (of_int n) \<le> 52"
proof -
  assume n: "0 < n" "n < 2 ^ 53"
  have "bitlen n \<le> 53"
    using n bitlen_le_iff_power [of n 53] by simp
  moreover have "bitlen (1 :: int) = 1"
    using compute_bitlen [of 1] by simp
  ultimately show ?thesis
    by (simp add: ilog2_def Let_def quotient_of_int)
qed

lemma double_of_rat_of_int:
  assumes "n \<noteq> 0" and "\<bar>n\<bar> < 2 ^ 53"
  shows "double_of_rat neg (of_int n) = Fin (of_int n)"
proof -
  define e where "e = max (ilog2 \<bar>of_int n\<bar> - 52) (- 1074)"
  have "ilog2 (of_int \<bar>n\<bar>) \<le> 52"
    using assms by (intro ilog2_of_int) auto
  then have "e \<le> 0"
    by (simp add: e_def)
  then have p: "of_int n / pow2 e = of_int (n * 2 ^ nat (- e))"
    by (simp add: pow2_nonpos)
  have "(of_int \<bar>n\<bar> :: rat) < of_int (2 ^ 53)"
    using assms(2) by (simp only: of_int_less_iff)
  also have "(of_int (2 ^ 53) :: rat) \<le> overflow_bound"
    by (simp add: overflow_bound_def)
  finally have "\<not> overflow_bound \<le> \<bar>of_int n :: rat\<bar>"
    by simp
  moreover have "of_int (n * 2 ^ nat (- e)) * pow2 e = of_int n"
    using \<open>e \<le> 0\<close> by (simp add: pow2_nonpos)
  ultimately show ?thesis
    using assms(1) unfolding double_of_rat_def Let_def e_def [symmetric] p round_half_even_of_int
    by (simp del: of_int_mult)
qed

lemma num_of_int_small: "\<bar>n\<bar> < 2 ^ 53 \<Longrightarrow> num_of_int n = Fin (of_int n)"
  by (cases "n = 0") (simp_all add: num_of_int_def double_of_rat_of_int, simp add: double_of_rat_def)

lemma double_of_rat_numeral [simp]:
  "(numeral k :: int) < 2 ^ 53 \<Longrightarrow> double_of_rat neg (numeral k) = Fin (numeral k)"
  "(numeral k :: int) < 2 ^ 53 \<Longrightarrow> double_of_rat neg (- numeral k) = Fin (- numeral k)"
  "double_of_rat neg 1 = Fin 1"
  using double_of_rat_of_int [of "numeral k" neg] double_of_rat_of_int [of "- numeral k" neg]
    double_of_rat_of_int [of 1 neg] by simp_all

lemma double_of_rat_0 [simp]: "double_of_rat neg 0 = (if neg then NZero else Fin 0)"
  by (simp add: double_of_rat_def)

end
