(* ===== verification/FwJson.thy ===== *)
theory FwJson
  imports JsNum "HOL-Library.List_Lexorder" "HOL-Library.Char_ord"
begin

section \<open>Firewall: JSON values and the C library calls the rules use\<close>

unbundle bit_operations_syntax

text \<open>
  The data the rule component exchanges: \<open>picojson::value\<close> as the datatype \<open>json\<close>, the typed
  getters of \<open>common/type_def.h\<close>, and the libc address functions the rules call (glibc's
  \<open>inet_addr\<close>, \<open>inet_ntoa\<close>, \<open>ntohs\<close> on a little-endian machine). A C++ exception or a crash
  is a value of \<open>cxx_error\<close>. Converting a double that is out of the range of the target
  integer type is undefined in C++: the parameter \<open>ub\<close> stands for what the machine returns.
\<close>

type_synonym u8 = "8 word"
type_synonym u16 = "16 word"
type_synonym u32 = "32 word"
type_synonym u64 = "64 word"

datatype cxx_error = RuntimeError | NullDereference | OutOfBounds

datatype json =
  JNull
| JBool bool
| JNumber jnum
| JString string
| JArray "json list"
| JObject "(string \<times> json) list"

subsection \<open>picojson accessors\<close>

text \<open>\<open>contains\<close> and \<open>get\<close> assert the type: a mismatch throws \<open>std::runtime_error\<close>.\<close>

fun json_lookup :: "string \<Rightarrow> json \<Rightarrow> cxx_error + json option" where
  "json_lookup k (JObject kvs) = Inr (map_of kvs k)"
| "json_lookup k _ = Inl RuntimeError"

fun get_array :: "json \<Rightarrow> cxx_error + json list" where
  "get_array (JArray xs) = Inr xs"
| "get_array _ = Inl RuntimeError"

text \<open>\<open>obj[k] = v\<close> on a \<open>std::map\<close>: keys stay sorted and distinct.\<close>

fun obj_put :: "string \<Rightarrow> json \<Rightarrow> (string \<times> json) list \<Rightarrow> (string \<times> json) list" where
  "obj_put k v [] = [(k, v)]"
| "obj_put k v ((k', v') # kvs) =
     (if k = k' then (k, v) # kvs
      else if k < k' then (k, v) # (k', v') # kvs
      else (k', v') # obj_put k v kvs)"

lemma map_of_obj_put: "sorted (map fst kvs) \<Longrightarrow> map_of (obj_put k v kvs) = (map_of kvs)(k \<mapsto> v)"
  by (induction kvs) (auto simp: fun_eq_iff)

definition cast_u64 :: "(jnum \<Rightarrow> u64) \<Rightarrow> jnum \<Rightarrow> u64" where
  "cast_u64 ub x =
     (if is_finite x \<and> - 1 < num_val x \<and> num_val x < 2 ^ 64
      then word_of_int (rat_trunc (num_val x)) else ub x)"

definition cast_i32 :: "(jnum \<Rightarrow> int) \<Rightarrow> jnum \<Rightarrow> int" where
  "cast_i32 ub x =
     (if is_finite x \<and> - (2 ^ 31) - 1 < num_val x \<and> num_val x < 2 ^ 31
      then rat_trunc (num_val x) else ub x)"

definition getInteger :: "(jnum \<Rightarrow> u64) \<Rightarrow> json \<Rightarrow> string \<Rightarrow> u64 \<Rightarrow> cxx_error + u64" where
  "getInteger ub v key dflt =
     bindE (json_lookup key v) (\<lambda>r. case r of
         Some (JNumber x) \<Rightarrow> Inr (cast_u64 ub x)
       | _ \<Rightarrow> Inr dflt)"

definition getInteger32 :: "(jnum \<Rightarrow> int) \<Rightarrow> json \<Rightarrow> string \<Rightarrow> int \<Rightarrow> cxx_error + int" where
  "getInteger32 ub v key dflt =
     bindE (json_lookup key v) (\<lambda>r. case r of
         Some (JNumber x) \<Rightarrow> Inr (cast_i32 ub x)
       | _ \<Rightarrow> Inr dflt)"

definition getString :: "json \<Rightarrow> string \<Rightarrow> string \<Rightarrow> cxx_error + string" where
  "getString v key dflt =
     bindE (json_lookup key v) (\<lambda>r. case r of
         Some (JString s) \<Rightarrow> Inr s
       | _ \<Rightarrow> Inr dflt)"

lemma cast_u64_of_int:
  "0 \<le> n \<Longrightarrow> n < 2 ^ 53 \<Longrightarrow> cast_u64 ub (num_of_int n) = word_of_int n"
proof -
  assume n: "0 \<le> n" "n < 2 ^ 53"
  have "(of_int n :: rat) < of_int (2 ^ 53)"
    using n by (simp only: of_int_less_iff)
  then show ?thesis
    using n by (simp add: cast_u64_def num_of_int_small rat_trunc_def)
qed

subsection \<open>Byte order\<close>

definition ntohs :: "u16 \<Rightarrow> u16" where
  "ntohs x = push_bit 8 x OR drop_bit 8 x"

lemma ntohs_bit: "n < 16 \<Longrightarrow> bit (ntohs x) n \<longleftrightarrow> bit x (if n < 8 then n + 8 else n - 8)"
  by (auto simp: ntohs_def bit_or_iff bit_push_bit_iff bit_drop_bit_eq add.commute dest: bit_imp_le_length)

lemma ntohs_ntohs [simp]: "ntohs (ntohs x) = x"
  by (rule bit_word_eqI) (auto simp: ntohs_bit)

definition u32_of_bytes :: "nat list \<Rightarrow> u32" where
  "u32_of_bytes bs = of_nat (foldr (\<lambda>b n. b + 256 * n) bs 0)"

definition addr_bytes :: "u32 \<Rightarrow> nat list" where
  "addr_bytes w = map (\<lambda>i. unat w div 256 ^ i mod 256) [0, 1, 2, 3]"

lemma bytes_sum_aux:
  "r0 + 256 * m = n \<Longrightarrow> r1 + 256 * k = m \<Longrightarrow> r2 + 256 * q = k \<Longrightarrow>
    r0 + (256 * r1 + (65536 * r2 + 16777216 * q)) = (n :: nat)"
  by simp

lemma bytes_sum:
  "n mod 256 + (256 * (n div 256 mod 256) + (65536 * (n div 65536 mod 256) + 16777216 * (n div 16777216)))
    = (n :: nat)"
proof -
  have "n div 65536 = n div 256 div 256" "n div 16777216 = n div 256 div 256 div 256"
    by (simp_all flip: div_mult2_eq)
  then show ?thesis
    by (simp only: bytes_sum_aux [OF mod_mult_div_eq mod_mult_div_eq mod_mult_div_eq])
qed

lemma u32_of_addr_bytes [simp]: "u32_of_bytes (addr_bytes w) = w"
proof -
  have "unat w < 2 ^ LENGTH(32)"
    by (rule unsigned_less)
  then have "foldr (\<lambda>b n. b + 256 * n) (addr_bytes w) 0 = unat w"
    by (simp add: addr_bytes_def bytes_sum)
  then show ?thesis
    by (simp add: u32_of_bytes_def)
qed

subsection \<open>inet_ntoa and inet_addr\<close>

definition char_val :: "char \<Rightarrow> nat" where
  "char_val c = of_char c"

definition isdigit :: "char \<Rightarrow> bool" where
  "isdigit c \<longleftrightarrow> 48 \<le> char_val c \<and> char_val c \<le> 57"

definition isspace :: "char \<Rightarrow> bool" where
  "isspace c \<longleftrightarrow> char_val c = 32 \<or> 9 \<le> char_val c \<and> char_val c \<le> 13"

fun dec :: "nat \<Rightarrow> string" where
  "dec n = (if n < 10 then [char_of (48 + n)] else dec (n div 10) @ [char_of (48 + n mod 10)])"

declare dec.simps [simp del]

definition inet_ntoa :: "u32 \<Rightarrow> string" where
  "inet_ntoa w = join_with ''.'' (map dec (addr_bytes w))"

definition digit_in :: "nat \<Rightarrow> char \<Rightarrow> bool" where
  "digit_in b c \<longleftrightarrow> (case hex_val (char_val c) of Some d \<Rightarrow> d < b | None \<Rightarrow> False)"

definition base_val :: "nat \<Rightarrow> string \<Rightarrow> nat" where
  "base_val b s = foldl (\<lambda>n c. b * n + the (hex_val (char_val c))) 0 s"

text \<open>\<open>strtoul(cp, &endp, 0)\<close>: the value of the longest prefix and the rest.\<close>

definition strtoul0 :: "string \<Rightarrow> nat \<times> string" where
  "strtoul0 s =
     (let take_base = (\<lambda>b t. (base_val b (takeWhile (digit_in b) t), dropWhile (digit_in b) t))
      in case s of
          c # x # d # t \<Rightarrow>
            if c = CHR ''0'' \<and> (x = CHR ''x'' \<or> x = CHR ''X'') \<and> digit_in 16 d
            then take_base 16 (d # t)
            else if c = CHR ''0'' then take_base 8 s else take_base 10 s
        | c # t \<Rightarrow> if c = CHR ''0'' then take_base 8 s else take_base 10 s
        | [] \<Rightarrow> (0, []))"

definition last_part_bytes :: "nat \<Rightarrow> nat \<Rightarrow> nat list" where
  "last_part_bytes k val = map (\<lambda>i. val div 256 ^ i mod 256) (rev [0..<k])"

text \<open>
  \<open>inet_aton_loop n parts cp\<close>: \<open>n\<close> more dots are allowed, \<open>parts\<close> are the bytes stored so far.
  Up to four parts, the last one filling all the remaining bytes; trailing white space is
  accepted, as glibc does.
\<close>

primrec inet_aton_loop :: "nat \<Rightarrow> nat list \<Rightarrow> string \<Rightarrow> u32 option" where
  "inet_aton_loop 0 parts cp =
     (if cp = [] \<or> \<not> isdigit (hd cp) then None
      else let (val, rest) = strtoul0 cp in
        if rest \<noteq> [] \<and> \<not> isspace (hd rest) then None
        else if 256 ^ (4 - length parts) \<le> val then None
        else Some (u32_of_bytes (parts @ last_part_bytes (4 - length parts) val)))"
| "inet_aton_loop (Suc n) parts cp =
     (if cp = [] \<or> \<not> isdigit (hd cp) then None
      else let (val, rest) = strtoul0 cp in
        if rest \<noteq> [] \<and> hd rest = CHR ''.'' then
          (if 256 \<le> val then None else inet_aton_loop n (parts @ [val]) (tl rest))
        else if rest \<noteq> [] \<and> \<not> isspace (hd rest) then None
        else if 256 ^ (4 - length parts) \<le> val then None
        else Some (u32_of_bytes (parts @ last_part_bytes (4 - length parts) val)))"

definition INADDR_NONE :: u32 where
  "INADDR_NONE = 0xFFFFFFFF"

definition c_str :: "string \<Rightarrow> string" where
  "c_str s = takeWhile (\<lambda>c. char_val c \<noteq> 0) s"

definition inet_addr :: "string \<Rightarrow> u32" where
  "inet_addr s = (case inet_aton_loop 3 [] (c_str s) of Some w \<Rightarrow> w | None \<Rightarrow> INADDR_NONE)"

subsection \<open>A printed address reads back\<close>

lemma char_val_digit [simp]: "d < 10 \<Longrightarrow> char_val (char_of (48 + d)) = 48 + d"
  by (simp add: char_val_def)

lemma isdigit_iff: "isdigit c \<longleftrightarrow> (\<exists>d < 10. char_val c = 48 + d)"
  unfolding isdigit_def by (auto intro: exI [of _ "char_val c - 48"])

lemma digit_in_10: "digit_in 10 c \<longleftrightarrow> isdigit c"
  by (auto simp: digit_in_def isdigit_def hex_val_def)

lemma dec_not_Nil [simp]: "dec n \<noteq> []"
  by (subst dec.simps) simp

lemma dec_digits: "c \<in> set (dec n) \<Longrightarrow> isdigit c"
proof (induction n rule: dec.induct)
  case (1 n)
  then show ?case
    by (subst (asm) dec.simps) (auto simp: isdigit_iff split: if_splits)
qed

lemma base_val_append: "base_val b (s @ [c]) = b * base_val b s + the (hex_val (char_val c))"
  by (simp add: base_val_def)

lemma base_val_dec: "base_val 10 (dec n) = n"
proof (induction n rule: dec.induct)
  case (1 n)
  show ?case
  proof (cases "n < 10")
    case True
    then show ?thesis by (subst dec.simps) (simp add: base_val_def hex_val_def)
  next
    case False
    have "n mod 10 \<le> 9"
      by presburger
    with False 1 show ?thesis
      by (subst dec.simps) (simp add: base_val_append hex_val_def)
  qed
qed

lemma hd_dec: "0 < n \<Longrightarrow> hd (dec n) \<noteq> CHR ''0''"
proof (induction n rule: dec.induct)
  case (1 n)
  show ?case
  proof (cases "n < 10")
    case True
    with 1 have "char_val (hd (dec n)) \<noteq> char_val (CHR ''0'')"
      by (subst dec.simps) (simp add: char_val_def)
    then show ?thesis by auto
  next
    case False
    with 1 show ?thesis
      by (subst dec.simps) simp
  qed
qed

lemma strtoul0_dec:
  assumes "rest = [] \<or> hd rest = CHR ''.''"
  shows "strtoul0 (dec n @ rest) = (n, rest)"
proof (cases "n = 0")
  case True
  have "\<not> digit_in 8 (CHR ''.'')" "digit_in 8 (CHR ''0'')"
    by (simp_all add: digit_in_def hex_val_def char_val_def)
  moreover have "dec 0 = ''0''"
    by code_simp
  ultimately show ?thesis
    using True assms by (cases rest; cases "tl rest") (auto simp: strtoul0_def base_val_def hex_val_def char_val_def)
next
  case False
  have all: "\<forall>c \<in> set (dec n). digit_in 10 c"
    by (auto simp: digit_in_10 dec_digits)
  have stop: "\<not> digit_in 10 (CHR ''.'')"
    by (simp add: digit_in_def hex_val_def char_val_def)
  have "takeWhile (digit_in 10) (dec n @ rest) = dec n" "dropWhile (digit_in 10) (dec n @ rest) = rest"
    using all stop assms by (cases rest; simp add: takeWhile_append_stop dropWhile_append_stop takeWhile_all)+
  moreover have "hd (dec n @ rest) \<noteq> CHR ''0''"
    using False hd_dec [of n] by simp
  ultimately show ?thesis
    by (cases "dec n @ rest"; cases "tl (dec n @ rest)"; cases "tl (tl (dec n @ rest))")
      (auto simp: strtoul0_def base_val_dec dec_not_Nil [symmetric] simp del: dec_not_Nil)
qed

lemma c_str_inet_ntoa: "c_str (inet_ntoa w) = inet_ntoa w"
proof -
  have "char_val c \<noteq> 0" if "c \<in> set (dec n)" for c n
    using dec_digits [OF that] by (simp add: isdigit_def)
  moreover have "char_val (CHR ''.'') \<noteq> 0"
    by (simp add: char_val_def)
  ultimately show ?thesis
    unfolding c_str_def inet_ntoa_def addr_bytes_def
    by (intro takeWhile_all) auto
qed

lemma isdigit_hd_dec [simp]: "isdigit (hd (dec n @ rest))"
  using dec_digits [of "hd (dec n)" n] by simp

theorem inet_addr_inet_ntoa [simp]: "inet_addr (inet_ntoa w) = w"
proof -
  define b where "b i = unat w div 256 ^ i mod 256" for i :: nat
  have bytes: "addr_bytes w = [b 0, b 1, b 2, b 3]"
    by (simp add: addr_bytes_def b_def)
  have lt: "b i < 256" for i
    by (simp add: b_def)
  have "inet_aton_loop 3 [] (inet_ntoa w) = Some (u32_of_bytes [b 0, b 1, b 2, b 3])"
    using lt by (simp add: inet_ntoa_def bytes numeral_3_eq_3 strtoul0_dec last_part_bytes_def
        strtoul0_dec [of "[]", simplified] not_le isdigit_hd_dec [of _ "[]", simplified])
  then show ?thesis
    using u32_of_addr_bytes [of w] unfolding bytes
    by (simp add: inet_addr_def c_str_inet_ntoa)
qed

end
