(* ===== verification/FwRule.thy ===== *)
theory FwRule
  imports FwJson
begin

section \<open>Firewall: packets and rules\<close>

text \<open>
  \<open>rule/PacketExtractor.{h,cpp}\<close> and \<open>rule/Rule.{h,cpp}\<close>. The extractor reads the IP header
  through a raw pointer and never looks at the length of the packet, so a packet is a memory:
  the bytes found from that pointer on, whatever they belong to. The clock that \<open>getTimePass\<close>
  samples (\<open>localtime\<close>) is an argument.
\<close>

subsection \<open>PacketExtractor\<close>

type_synonym memory = "nat \<Rightarrow> u8"

record clock =
  tm_wday :: nat
  tm_hour :: nat

definition IPPROTO_ICMP :: u8 where "IPPROTO_ICMP = 1"
definition IPPROTO_TCP :: u8 where "IPPROTO_TCP = 6"
definition IPPROTO_UDP :: u8 where "IPPROTO_UDP = 17"

definition load16 :: "memory \<Rightarrow> nat \<Rightarrow> u16" where
  "load16 m i = ucast (m i) OR push_bit 8 (ucast (m (i + 1)))"

definition load32 :: "memory \<Rightarrow> nat \<Rightarrow> u32" where
  "load32 m i = ucast (m i) OR push_bit 8 (ucast (m (i + 1)))
     OR push_bit 16 (ucast (m (i + 2))) OR push_bit 24 (ucast (m (i + 3)))"

text \<open>\<open>getData<T>()\<close>: the transport header, \<open>ihl\<close> words after the start of the IP header.\<close>

definition ihl :: "memory \<Rightarrow> nat" where
  "ihl m = unat (m 0 AND 15)"

definition getData :: "memory \<Rightarrow> nat" where
  "getData m = ihl m * 4"

definition getProtocol :: "memory \<Rightarrow> u8" where
  "getProtocol m = m 9"

definition getSrcIp :: "memory \<Rightarrow> u32" where
  "getSrcIp m = load32 m 12"

definition getDestIp :: "memory \<Rightarrow> u32" where
  "getDestIp m = load32 m 16"

definition getSrcPort :: "memory \<Rightarrow> u16" where
  "getSrcPort m =
     (if getProtocol m = IPPROTO_TCP then load16 m (getData m)
      else if getProtocol m = IPPROTO_UDP then load16 m (getData m)
      else 0)"

definition getDestPort :: "memory \<Rightarrow> u16" where
  "getDestPort m =
     (if getProtocol m = IPPROTO_TCP then load16 m (getData m + 2)
      else if getProtocol m = IPPROTO_UDP then load16 m (getData m + 2)
      else 0)"

definition getICMPType :: "memory \<Rightarrow> u8" where
  "getICMPType m = (if getProtocol m = IPPROTO_ICMP then m (getData m) else 0)"

text \<open>
  \<open>time_pass_type\<close>: three bytes of hour bits and a byte of weekday bits, read as one
  little-endian word. \<open>hours[h / 8] = 1 << (h & 7)\<close>, \<open>wday = 1 << w\<close>.
\<close>

definition time_pass_data :: "u8 \<Rightarrow> u8 \<Rightarrow> u8 \<Rightarrow> u8 \<Rightarrow> u32" where
  "time_pass_data h0 h1 h2 wd =
     ucast h0 OR push_bit 8 (ucast h1) OR push_bit 16 (ucast h2) OR push_bit 24 (ucast wd)"

definition getTimePass :: "clock \<Rightarrow> u32" where
  "getTimePass now =
     (let wd = push_bit (tm_wday now) 1;
          h = (\<lambda>i. if i = tm_hour now div 8 then push_bit (tm_hour now mod 8) 1 else 0)
      in time_pass_data (h 0) (h 1) (h 2) wd)"

subsection \<open>Rule\<close>

record rule =
  dest_port :: u16
  src_port :: u16
  src_ip :: u32
  dest_ip :: u32
  time_pass :: u32
  rtype :: u8
  protocol :: u8
  sub_protocol :: u8

definition TYPE_BLACK_LIST :: u8 where "TYPE_BLACK_LIST = 0"
definition TYPE_WHITE_LIST :: u8 where "TYPE_WHITE_LIST = 1"
definition TYPE_MONITOR_LIST :: u8 where "TYPE_MONITOR_LIST = 2"

text \<open>The macro \<open>valid_and_check_(stand, value)\<close>: a zero field of a rule matches anything.\<close>

definition valid_and_check :: "'a::zero \<Rightarrow> 'a \<Rightarrow> bool" where
  "valid_and_check stand v \<longleftrightarrow> stand = 0 \<or> v = stand"

definition leastCheck :: "clock \<Rightarrow> rule \<Rightarrow> memory \<Rightarrow> bool" where
  "leastCheck now r pe =
     (if \<not> valid_and_check (protocol r) (getProtocol pe) then False
      else if \<not> valid_and_check (src_ip r) (getSrcIp pe) then False
      else if \<not> valid_and_check (dest_ip r) (getDestIp pe) then False
      else if time_pass r AND getTimePass now = 0 then False
      else True)"

definition rule_check :: "clock \<Rightarrow> rule \<Rightarrow> memory \<Rightarrow> bool" where
  "rule_check now r pe =
     (if \<not> leastCheck now r pe then False
      else if getProtocol pe = IPPROTO_TCP \<or> getProtocol pe = IPPROTO_UDP then
        (if \<not> valid_and_check (src_port r) (getSrcPort pe) then False
         else if \<not> valid_and_check (dest_port r) (getDestPort pe) then False
         else True)
      else if getProtocol pe = IPPROTO_ICMP then
        (if \<not> valid_and_check (sub_protocol r) (getICMPType pe) then False else True)
      else True)"

subsection \<open>Names of protocols and of ICMP types\<close>

definition icmp_names :: "(string \<times> u8) list" where
  "icmp_names =
     [(''ICMP_ECHOREPLY'', 0), (''ICMP_DEST_UNREACH'', 3), (''ICMP_SOURCE_QUENCH'', 4),
      (''ICMP_REDIRECT'', 5), (''ICMP_TIME_EXCEEDED'', 11), (''ICMP_PARAMETERPROB'', 12),
      (''ICMP_TIMESTAMP'', 13), (''ICMP_TIMESTAMPREPLY'', 14), (''ICMP_INFO_REQUEST'', 15),
      (''ICMP_INFO_REPLY'', 16), (''ICMP_ADDRESS'', 17), (''ICMP_ADDRESSREPLY'', 18)]"

definition getIcmpString :: "u8 \<Rightarrow> string" where
  "getIcmpString t =
     (case find (\<lambda>(s, c). c = t) icmp_names of Some (s, c) \<Rightarrow> s | None \<Rightarrow> [])"

definition getIcmpSubType :: "string \<Rightarrow> u8" where
  "getIcmpSubType p =
     (case find (\<lambda>(s, c). s = p) icmp_names of Some (s, c) \<Rightarrow> c | None \<Rightarrow> 0)"

definition getProtocolString :: "u8 \<Rightarrow> string" where
  "getProtocolString t =
     (if t = IPPROTO_ICMP then ''icmp''
      else if t = IPPROTO_UDP then ''udp''
      else if t = IPPROTO_TCP then ''tcp''
      else ''unknown'')"

definition getProtocolType :: "string \<Rightarrow> u8" where
  "getProtocolType p =
     (if p = ''tcp'' then IPPROTO_TCP
      else if p = ''udp'' then IPPROTO_UDP
      else if p = ''icmp'' then IPPROTO_ICMP
      else 0)"

subsection \<open>JSON\<close>

definition zero_rule :: rule where
  "zero_rule = \<lparr>dest_port = 0, src_port = 0, src_ip = 0, dest_ip = 0, time_pass = 0,
     rtype = 0, protocol = 0, sub_protocol = 0\<rparr>"

text \<open>
  The protocol field, \<open>proto\<close> or \<open>proto.ICMP_NAME\<close>: the scan starts at the second character
  and stops at a dot or at the terminating zero, which it then overwrites.
\<close>

definition parse_protocol :: "string \<Rightarrow> u8 \<times> u8" where
  "parse_protocol p =
     (if p = [] then (0, 0)
      else
        let i = 1 + length (takeWhile (\<lambda>c. char_val c \<noteq> 0 \<and> c \<noteq> CHR ''.'') (drop 1 p));
            cur = drop i p;
            sub = (if cur \<noteq> [] \<and> hd cur = CHR ''.'' then getIcmpSubType (c_str (tl cur)) else 0)
        in (getProtocolType (c_str (take i p)), sub))"

definition rule_ParseFromJson :: "(jnum \<Rightarrow> u64) \<Rightarrow> json \<Rightarrow> cxx_error + rule" where
  "rule_ParseFromJson ub v =
     bindE (getString v ''src_ip'' ''0.0.0.0'') (\<lambda>sip.
     bindE (getInteger ub v ''src_port'' 0) (\<lambda>sport.
     bindE (getString v ''target_ip'' ''0.0.0.0'') (\<lambda>dip.
     bindE (getInteger ub v ''target_port'' 0) (\<lambda>dport.
     bindE (getInteger ub v ''type'' 0) (\<lambda>ty.
     bindE (getString v ''protocol'' []) (\<lambda>proto.
     bindE (getInteger ub v ''time_pass'' 0xFFFFFFFF) (\<lambda>tp.
       let (pr, sub) = parse_protocol proto in
       Inr (zero_rule\<lparr>src_ip := inet_addr sip, src_port := ntohs (ucast sport),
         dest_ip := inet_addr dip, dest_port := ntohs (ucast dport), rtype := ucast ty,
         protocol := pr, sub_protocol := sub, time_pass := ucast tp\<rparr>))))))))"

text \<open>\<open>protocol_tmp\<close> of \<open>toJson\<close>: the test is on \<open>sub_protocol\<close>, as in the source.\<close>

definition protocol_tmp :: "rule \<Rightarrow> string" where
  "protocol_tmp r = getProtocolString (protocol r)
     @ (if sub_protocol r = IPPROTO_ICMP then ''.'' @ getIcmpString (sub_protocol r) else [])"

definition rule_toJson :: "rule \<Rightarrow> json" where
  "rule_toJson r =
     (JObject
        (obj_put ''protocol'' (JString (protocol_tmp r))
        (obj_put ''timepass'' (JNumber (num_of_int (uint (time_pass r))))
        (obj_put ''type'' (JNumber (num_of_int (uint (rtype r))))
        (obj_put ''target_port'' (JNumber (num_of_int (uint (ntohs (dest_port r)))))
        (obj_put ''src_port'' (JNumber (num_of_int (uint (ntohs (src_port r)))))
        (obj_put ''target_ip'' (JString (inet_ntoa (dest_ip r)))
        (obj_put ''src_ip'' (JString (inet_ntoa (src_ip r))) []))))))))"

subsection \<open>What a rule matches\<close>

lemmas rule_defs = rule_check_def leastCheck_def valid_and_check_def

lemma ipproto_distinct [simp]:
  "IPPROTO_ICMP \<noteq> IPPROTO_TCP" "IPPROTO_TCP \<noteq> IPPROTO_ICMP"
  "IPPROTO_ICMP \<noteq> IPPROTO_UDP" "IPPROTO_UDP \<noteq> IPPROTO_ICMP"
  "IPPROTO_TCP \<noteq> IPPROTO_UDP" "IPPROTO_UDP \<noteq> IPPROTO_TCP"
  by (simp_all add: IPPROTO_ICMP_def IPPROTO_TCP_def IPPROTO_UDP_def)

lemma rule_check_iff:
  "rule_check now r pe \<longleftrightarrow>
     (protocol r = 0 \<or> getProtocol pe = protocol r) \<and>
     (src_ip r = 0 \<or> getSrcIp pe = src_ip r) \<and>
     (dest_ip r = 0 \<or> getDestIp pe = dest_ip r) \<and>
     time_pass r AND getTimePass now \<noteq> 0 \<and>
     (getProtocol pe \<in> {IPPROTO_TCP, IPPROTO_UDP} \<longrightarrow>
        (src_port r = 0 \<or> getSrcPort pe = src_port r) \<and>
        (dest_port r = 0 \<or> getDestPort pe = dest_port r)) \<and>
     (getProtocol pe = IPPROTO_ICMP \<longrightarrow> sub_protocol r = 0 \<or> getICMPType pe = sub_protocol r)"
  unfolding rule_defs
  by (cases "getProtocol pe = IPPROTO_ICMP"; cases "getProtocol pe = IPPROTO_TCP";
      cases "getProtocol pe = IPPROTO_UDP") simp_all

text \<open>The clock word has exactly the bit of the hour and the bit of the weekday.\<close>

lemma ucast_exp: "k < 8 \<Longrightarrow> (ucast (2 ^ k :: u8) :: u32) = 2 ^ k"
  by (rule bit_word_eqI) (auto simp: bit_ucast_iff bit_exp_iff)

lemma push_bit_exp: "push_bit m (2 ^ k :: u32) = 2 ^ (m + k)"
  by (simp add: push_bit_eq_mult power_add mult.commute)

lemma getTimePass_eq:
  assumes "tm_hour now < 24" and "tm_wday now < 7"
  shows "getTimePass now = 2 ^ tm_hour now OR 2 ^ (24 + tm_wday now)"
proof -
  define q r where "q = tm_hour now div 8" and "r = tm_hour now mod 8"
  have h: "tm_hour now = 8 * q + r" and r: "r < 8" and "q < 3"
    using assms(1) by (simp_all add: q_def r_def)
  then consider "q = 0" | "q = 1" | "q = 2"
    by linarith
  then have "time_pass_data (if 0 = q then 2 ^ r else 0) (if 1 = q then 2 ^ r else 0)
      (if 2 = q then 2 ^ r else 0) (2 ^ tm_wday now) = 2 ^ (8 * q + r) OR 2 ^ (24 + tm_wday now)"
    using r assms(2) by cases (simp_all only: time_pass_data_def ucast_exp push_bit_exp if_True if_False
      zero_neq_one one_neq_zero push_bit_of_0 unsigned_0 or.left_neutral or.right_neutral refl, simp_all)
  then show ?thesis
    by (simp only: getTimePass_def Let_def push_bit_of_1 flip: q_def r_def h)
qed

lemma bit_getTimePass:
  assumes "tm_hour now < 24" and "tm_wday now < 7"
  shows "bit (getTimePass now) n \<longleftrightarrow> n = tm_hour now \<or> n = 24 + tm_wday now"
  using assms unfolding getTimePass_eq [OF assms]
  by (auto simp: bit_or_iff bit_exp_iff)

lemma word_nonzero_iff: "x \<noteq> 0 \<longleftrightarrow> (\<exists>n. bit x n)" for x :: "'a::len word"
  using bit_eq_iff [of x 0] bit_imp_le_length [of x] by auto

lemma time_pass_test:
  assumes "tm_hour now < 24" and "tm_wday now < 7"
  shows "w AND getTimePass now \<noteq> 0 \<longleftrightarrow> bit w (tm_hour now) \<or> bit w (24 + tm_wday now)"
proof -
  have "w AND getTimePass now \<noteq> 0 \<longleftrightarrow> (\<exists>n. bit w n \<and> bit (getTimePass now) n)"
    by (simp only: word_nonzero_iff bit_and_iff)
  then show ?thesis
    by (auto simp: bit_getTimePass [OF assms])
qed

subsection \<open>Parsing what was printed\<close>

lemma obj_put_lookups:
  "json_lookup k (rule_toJson r) = Inr (map_of
     [(''protocol'', JString (protocol_tmp r)),
      (''src_ip'', JString (inet_ntoa (src_ip r))),
      (''src_port'', JNumber (num_of_int (uint (ntohs (src_port r))))),
      (''target_ip'', JString (inet_ntoa (dest_ip r))),
      (''target_port'', JNumber (num_of_int (uint (ntohs (dest_port r))))),
      (''timepass'', JNumber (num_of_int (uint (time_pass r)))),
      (''type'', JNumber (num_of_int (uint (rtype r))))] k)"
  by (simp add: rule_toJson_def less_char_def)

lemma cast_u64_uint:
  fixes w :: "'a::len word"
  assumes "LENGTH('a) \<le> 32"
  shows "cast_u64 ub (num_of_int (uint w)) = ucast w"
proof -
  have "uint w < 2 ^ LENGTH('a)"
    by simp
  also have "(2 :: int) ^ LENGTH('a) \<le> 2 ^ 32"
    using assms by (intro power_increasing) auto
  finally show ?thesis
    by (subst cast_u64_of_int) simp_all
qed

lemma parse_protocol_names:
  "list_all (\<lambda>s. list_all (\<lambda>t. parse_protocol (s @ t) = (getProtocolType s, 0)) [[], ''.''])
     [''icmp'', ''udp'', ''tcp'', ''unknown'']"
  by code_simp

lemma getIcmpString_icmp: "getIcmpString IPPROTO_ICMP = []"
  by code_simp

lemma getProtocolString_range: "getProtocolString p \<in> {''icmp'', ''udp'', ''tcp'', ''unknown''}"
  by (simp add: getProtocolString_def)

lemma getProtocolType_string:
  "getProtocolType (getProtocolString p) = (if p \<in> {IPPROTO_ICMP, IPPROTO_UDP, IPPROTO_TCP} then p else 0)"
  by (simp add: getProtocolString_def getProtocolType_def)

lemma parse_protocol_printed:
  "parse_protocol (protocol_tmp r) =
     (if protocol r \<in> {IPPROTO_ICMP, IPPROTO_UDP, IPPROTO_TCP} then protocol r else 0, 0)"
proof -
  define t where "t = (if sub_protocol r = IPPROTO_ICMP then ''.'' @ getIcmpString (sub_protocol r) else [])"
  have "t = [] \<or> t = ''.''"
    by (simp add: t_def getIcmpString_icmp)
  then have "parse_protocol (getProtocolString (protocol r) @ t) = (getProtocolType (getProtocolString (protocol r)), 0)"
    using parse_protocol_names getProtocolString_range [of "protocol r"] by auto
  then show ?thesis
    by (simp only: t_def getProtocolType_string protocol_tmp_def)
qed

definition reloaded :: "rule \<Rightarrow> rule" where
  "reloaded r = r\<lparr>protocol := (if protocol r \<in> {IPPROTO_ICMP, IPPROTO_UDP, IPPROTO_TCP} then protocol r else 0),
     sub_protocol := 0, time_pass := 0xFFFFFFFF\<rparr>"

text \<open>
  Loading a printed rule: addresses, ports and type come back; the ICMP type and the time
  window do not (they are not written, or written under a key the parser does not read).
\<close>

lemma ucast_u64_back:
  "ucast (ucast x :: u64) = (x :: u16)" "ucast (ucast y :: u64) = (y :: u8)"
  by (rule bit_word_eqI, auto simp: bit_ucast_iff dest: bit_imp_le_length)+

lemma parse_toJson: "rule_ParseFromJson ub (rule_toJson r) = Inr (reloaded r)"
  by (cases r) (simp add: rule_ParseFromJson_def getString_def getInteger_def obj_put_lookups cast_u64_uint
      parse_protocol_printed reloaded_def zero_rule_def Let_def ucast_u64_back)

end
