(* ===== verification/FwManager.thy ===== *)
theory FwManager
  imports FwRule
begin

section \<open>Firewall: rule collections and the rule manager\<close>

text \<open>
  \<open>rule/RuleCollection.{h,cpp}\<close> and \<open>rule/RuleManager.{h,cpp}\<close>: the verdict of a list of rules,
  loading it from JSON, and the manager that owns the current list behind the \<open>judge\<close> interface
  the filter service calls. The clock is sampled once per rule: \<open>clk i\<close> is what the check of the
  rule at position \<open>i\<close> reads. Text parsing is \<open>picojson::parse\<close>, the parameter \<open>parse\<close>
  (an error message or a value).
\<close>

subsection \<open>RuleCollection\<close>

fun collection_loop ::
  "(nat \<Rightarrow> clock) \<Rightarrow> memory \<Rightarrow> nat \<Rightarrow> rule list \<Rightarrow> bool \<times> bool \<times> bool \<Rightarrow> bool \<times> bool \<times> bool" where
  "collection_loop clk pe i [] (black, white, monitor) = (black, white, monitor)"
| "collection_loop clk pe i (r # rs) (black, white, monitor) =
     collection_loop clk pe (Suc i) rs
       (if rtype r = TYPE_BLACK_LIST then
          ((if \<not> black then rule_check (clk i) r pe else black), white, monitor)
        else if rtype r = TYPE_WHITE_LIST then
          (black, (if \<not> white then rule_check (clk i) r pe else white), monitor)
        else if rtype r = TYPE_MONITOR_LIST then
          (black, white, (if \<not> monitor then rule_check (clk i) r pe else monitor))
        else (black, white, monitor))"

definition collection_check :: "(nat \<Rightarrow> clock) \<Rightarrow> rule list \<Rightarrow> memory \<Rightarrow> bool" where
  "collection_check clk rs pe =
     (let (black, white, monitor) = collection_loop clk pe 0 rs (False, False, False)
      in white \<or> \<not> black)"

fun push_rules :: "(jnum \<Rightarrow> u64) \<Rightarrow> json list \<Rightarrow> rule list \<Rightarrow> cxx_error + rule list" where
  "push_rules ub [] coll = Inr coll"
| "push_rules ub (v # vs) coll =
     bindE (rule_ParseFromJson ub v) (\<lambda>r. push_rules ub vs (coll @ [r]))"

definition collection_ParseFromJson :: "(jnum \<Rightarrow> u64) \<Rightarrow> rule list \<Rightarrow> json \<Rightarrow> cxx_error + rule list" where
  "collection_ParseFromJson ub coll v = bindE (get_array v) (\<lambda>arr. push_rules ub arr coll)"

text \<open>The variant on text clears the collection first; a parse error is the return value -1.\<close>

definition collection_ParseFromText ::
  "(string \<Rightarrow> string + json) \<Rightarrow> (jnum \<Rightarrow> u64) \<Rightarrow> rule list \<Rightarrow> string \<Rightarrow> cxx_error + (int \<times> rule list)" where
  "collection_ParseFromText parse ub coll s =
     (case parse s of
        Inl err \<Rightarrow> Inr (- 1, [])
      | Inr v \<Rightarrow> bindE (get_array v) (\<lambda>arr. bindE (push_rules ub arr []) (\<lambda>rs. Inr (0, rs))))"

definition collection_toJson :: "rule list \<Rightarrow> json" where
  "collection_toJson rs = JArray (map rule_toJson rs)"

subsection \<open>RuleManager\<close>

record manager =
  m_rules :: "rule list option"
  enabled :: bool

definition RuleManager :: manager where
  "RuleManager = \<lparr>m_rules = None, enabled = False\<rparr>"

definition manager_init :: "manager \<Rightarrow> int \<times> manager" where
  "manager_init m = (0, m\<lparr>m_rules := (case m_rules m of None \<Rightarrow> Some [] | Some rs \<Rightarrow> Some rs),
     enabled := True\<rparr>)"

definition setEnabled :: "bool \<Rightarrow> manager \<Rightarrow> manager" where
  "setEnabled b m = m\<lparr>enabled := b\<rparr>"

definition loadConfigFromJson ::
  "(jnum \<Rightarrow> u64) \<Rightarrow> json \<Rightarrow> manager \<Rightarrow> cxx_error + (int \<times> manager)" where
  "loadConfigFromJson ub v m =
     bindE (collection_ParseFromJson ub [] v) (\<lambda>rs. Inr (0, m\<lparr>m_rules := Some rs\<rparr>))"

definition loadConfigFromBuffer ::
  "(string \<Rightarrow> string + json) \<Rightarrow> (jnum \<Rightarrow> u64) \<Rightarrow> string \<Rightarrow> manager \<Rightarrow> cxx_error + (int \<times> manager)" where
  "loadConfigFromBuffer parse ub s m =
     bindE (collection_ParseFromText parse ub [] s) (\<lambda>(ret, rs).
       if ret < 0 then Inr (- 1, m) else Inr (0, m\<lparr>m_rules := Some rs\<rparr>))"

definition judge :: "(nat \<Rightarrow> clock) \<Rightarrow> manager \<Rightarrow> memory \<Rightarrow> cxx_error + bool" where
  "judge clk m pe =
     (if \<not> enabled m then Inr True
      else case m_rules m of
          None \<Rightarrow> Inl NullDereference
        | Some rs \<Rightarrow> Inr (collection_check clk rs pe))"

subsection \<open>The verdict\<close>

definition some_match :: "u8 \<Rightarrow> (nat \<Rightarrow> clock) \<Rightarrow> rule list \<Rightarrow> memory \<Rightarrow> bool" where
  "some_match t clk rs pe \<longleftrightarrow> (\<exists>i < length rs. rtype (rs ! i) = t \<and> rule_check (clk i) (rs ! i) pe)"

lemma type_distinct [simp]:
  "TYPE_BLACK_LIST \<noteq> TYPE_WHITE_LIST" "TYPE_WHITE_LIST \<noteq> TYPE_BLACK_LIST"
  "TYPE_BLACK_LIST \<noteq> TYPE_MONITOR_LIST" "TYPE_MONITOR_LIST \<noteq> TYPE_BLACK_LIST"
  "TYPE_WHITE_LIST \<noteq> TYPE_MONITOR_LIST" "TYPE_MONITOR_LIST \<noteq> TYPE_WHITE_LIST"
  by (simp_all add: TYPE_BLACK_LIST_def TYPE_WHITE_LIST_def TYPE_MONITOR_LIST_def)

lemma some_match_Nil [simp]: "\<not> some_match t clk [] pe"
  by (simp add: some_match_def)

lemma some_match_Cons:
  "some_match t clk (r # rs) pe \<longleftrightarrow>
     rtype r = t \<and> rule_check (clk 0) r pe \<or> some_match t (clk \<circ> Suc) rs pe"
  by (simp add: some_match_def Ex_less_Suc2)

lemma collection_loop_eq:
  "collection_loop clk pe i rs (b, w, mo) =
     (b \<or> some_match TYPE_BLACK_LIST (\<lambda>j. clk (i + j)) rs pe,
      w \<or> some_match TYPE_WHITE_LIST (\<lambda>j. clk (i + j)) rs pe,
      mo \<or> some_match TYPE_MONITOR_LIST (\<lambda>j. clk (i + j)) rs pe)"
proof (induction rs arbitrary: i b w mo)
  case Nil
  then show ?case by simp
next
  case (Cons r rs)
  have shift: "(\<lambda>j. clk (i + j)) \<circ> Suc = (\<lambda>j. clk (Suc (i + j)))"
    by (simp add: fun_eq_iff)
  show ?case
    by (simp add: Cons.IH some_match_Cons shift)
qed

lemma collection_check_iff:
  "collection_check clk rs pe \<longleftrightarrow>
     some_match TYPE_WHITE_LIST clk rs pe \<or> \<not> some_match TYPE_BLACK_LIST clk rs pe"
  by (simp add: collection_check_def collection_loop_eq)

lemma some_match_const:
  "some_match t (\<lambda>_. now) rs pe \<longleftrightarrow> (\<exists>r \<in> set rs. rtype r = t \<and> rule_check now r pe)"
  by (metis in_set_conv_nth some_match_def)

subsection \<open>The judge interface\<close>

text \<open>
  What the filter service relies on: once the provider is \<open>ready\<close>, \<open>judge\<close> returns a verdict,
  and a provider that is switched off accepts everything.
\<close>

locale judge_service =
  fixes judge_of :: "'m \<Rightarrow> 'p \<Rightarrow> 'e + bool"
    and ready :: "'m \<Rightarrow> bool"
    and switched_on :: "'m \<Rightarrow> bool"
  assumes ready_total: "ready m \<Longrightarrow> \<exists>v. judge_of m p = Inr v"
    and off_accepts: "\<not> switched_on m \<Longrightarrow> judge_of m p = Inr True"
begin

lemma drop_only_when_on: "judge_of m p = Inr False \<Longrightarrow> switched_on m"
  using off_accepts by force

lemma never_fails: "ready m \<Longrightarrow> judge_of m p \<noteq> Inl e"
  using ready_total [of m p] by auto

end

definition manager_ready :: "manager \<Rightarrow> bool" where
  "manager_ready m \<longleftrightarrow> enabled m \<longrightarrow> m_rules m \<noteq> None"

interpretation judge_mgr: judge_service "judge clk" manager_ready enabled
  by unfold_locales (auto simp: judge_def manager_ready_def split: option.splits)

text \<open>Every operation of the server keeps the manager initialised.\<close>

definition initialised :: "manager \<Rightarrow> bool" where
  "initialised m \<longleftrightarrow> m_rules m \<noteq> None"

lemma initialised_ready: "initialised m \<Longrightarrow> manager_ready m"
  by (simp add: initialised_def manager_ready_def)

lemma initialised_init: "initialised (snd (manager_init m))"
  by (auto simp: initialised_def manager_init_def split: option.splits)

datatype manager_op = Load json | LoadText string | Enable bool

fun manager_step ::
  "(string \<Rightarrow> string + json) \<Rightarrow> (jnum \<Rightarrow> u64) \<Rightarrow> manager_op \<Rightarrow> manager \<Rightarrow> manager" where
  "manager_step parse ub (Load v) m =
     (case loadConfigFromJson ub v m of Inl e \<Rightarrow> m | Inr (ret, m') \<Rightarrow> m')"
| "manager_step parse ub (LoadText s) m =
     (case loadConfigFromBuffer parse ub s m of Inl e \<Rightarrow> m | Inr (ret, m') \<Rightarrow> m')"
| "manager_step parse ub (Enable b) m = setEnabled b m"

interpretation mgr_inv: step_invariant "manager_step parse ub" initialised
proof
  fix m op
  assume "initialised m"
  then show "initialised (manager_step parse ub op m)"
    by (cases op) (auto simp: initialised_def loadConfigFromJson_def loadConfigFromBuffer_def
        setEnabled_def bindE_def split: sum.splits)
qed

subsection \<open>Saving and loading a rule set\<close>

lemma push_rules_toJson: "push_rules ub (map rule_toJson rs) coll = Inr (coll @ map reloaded rs)"
  by (induction rs arbitrary: coll) (simp_all add: parse_toJson)

lemma load_saved:
  "loadConfigFromJson ub (collection_toJson rs) m = Inr (0, m\<lparr>m_rules := Some (map reloaded rs)\<rparr>)"
  by (simp add: loadConfigFromJson_def collection_ParseFromJson_def collection_toJson_def
      push_rules_toJson)

lemma reloaded_wider:
  assumes "rule_check now r pe"
  shows "rule_check now (reloaded r) pe"
proof -
  have "(0xFFFFFFFF :: u32) = - 1"
    by simp
  then have "0xFFFFFFFF AND getTimePass now = getTimePass now"
    by (simp only: and.left_neutral)
  moreover have "getTimePass now \<noteq> 0"
    using assms unfolding rule_check_iff by (metis and.right_neutral and_zero_eq bit.conj_zero_right)
  ultimately have "0xFFFFFFFF AND getTimePass now \<noteq> 0"
    by simp
  with assms show ?thesis
    by (auto simp: rule_check_iff reloaded_def)
qed

end
