(* ===== verification/FwRace.thy ===== *)
theory FwRace
  imports FwManager
begin

section \<open>Firewall: the rule pointer under concurrency\<close>

text \<open>
  The filter thread judges packets while every client connection runs in a thread of its own
  (\<open>TcpSocket::startListening\<close>) and may replace or print the rules. One step is one access to
  the shared state, in the order of the source: \<open>judge\<close> locks, reads through \<open>m_rules\<close> and
  unlocks; \<open>loadConfigFromJson\<close> builds the new collection, locks, deletes the old one, stores
  the new pointer and unlocks; the query handler reads the pointer with \<open>getRules()\<close> and later
  prints the collection it points to, without the lock.
\<close>

datatype pc =
  Idle
| JWant memory
| JHold memory
| JDone bool
| UWant nat
| UHold nat
| UDeleted nat
| UAssigned
| QHold "nat option"

record race =
  cells :: "nat \<Rightarrow> rule list option"
  m_ptr :: "nat option"
  fresh :: nat
  owner :: "nat option"
  on :: bool
  pcs :: "nat \<Rightarrow> pc"
  fault :: "nat option"

definition goto :: "nat \<Rightarrow> pc \<Rightarrow> race \<Rightarrow> race" where
  "goto t p s = s\<lparr>pcs := (pcs s)(t := p)\<rparr>"

definition deref :: "race \<Rightarrow> nat option \<Rightarrow> rule list option" where
  "deref s p = (case p of None \<Rightarrow> None | Some a \<Rightarrow> cells s a)"

inductive race_step :: "(nat \<Rightarrow> clock) \<Rightarrow> race \<Rightarrow> race \<Rightarrow> bool" for clk where
  judge_off: "fault s = None \<Longrightarrow> pcs s t = Idle \<Longrightarrow> \<not> on s \<Longrightarrow> race_step clk s s"
| judge_on: "fault s = None \<Longrightarrow> pcs s t = Idle \<Longrightarrow> on s \<Longrightarrow> race_step clk s (goto t (JWant pe) s)"
| judge_lock: "fault s = None \<Longrightarrow> pcs s t = JWant pe \<Longrightarrow> owner s = None \<Longrightarrow>
    race_step clk s (goto t (JHold pe) (s\<lparr>owner := Some t\<rparr>))"
| judge_check: "fault s = None \<Longrightarrow> pcs s t = JHold pe \<Longrightarrow> deref s (m_ptr s) = Some rs \<Longrightarrow>
    race_step clk s (goto t (JDone (collection_check clk rs pe)) s)"
| judge_fault: "fault s = None \<Longrightarrow> pcs s t = JHold pe \<Longrightarrow> deref s (m_ptr s) = None \<Longrightarrow>
    race_step clk s (s\<lparr>fault := Some t\<rparr>)"
| judge_unlock: "fault s = None \<Longrightarrow> pcs s t = JDone v \<Longrightarrow>
    race_step clk s (goto t Idle (s\<lparr>owner := None\<rparr>))"
| update_build: "fault s = None \<Longrightarrow> pcs s t = Idle \<Longrightarrow>
    race_step clk s (goto t (UWant (fresh s))
      (s\<lparr>cells := (cells s)(fresh s \<mapsto> rs), fresh := Suc (fresh s)\<rparr>))"
| update_lock: "fault s = None \<Longrightarrow> pcs s t = UWant a \<Longrightarrow> owner s = None \<Longrightarrow>
    race_step clk s (goto t (UHold a) (s\<lparr>owner := Some t\<rparr>))"
| update_delete: "fault s = None \<Longrightarrow> pcs s t = UHold a \<Longrightarrow> m_ptr s = Some old \<Longrightarrow> cells s old \<noteq> None \<Longrightarrow>
    race_step clk s (goto t (UDeleted a) (s\<lparr>cells := (cells s)(old := None)\<rparr>))"
| update_delete_null: "fault s = None \<Longrightarrow> pcs s t = UHold a \<Longrightarrow> m_ptr s = None \<Longrightarrow>
    race_step clk s (goto t (UDeleted a) s)"
| update_fault: "fault s = None \<Longrightarrow> pcs s t = UHold a \<Longrightarrow> m_ptr s = Some old \<Longrightarrow> cells s old = None \<Longrightarrow>
    race_step clk s (s\<lparr>fault := Some t\<rparr>)"
| update_assign: "fault s = None \<Longrightarrow> pcs s t = UDeleted a \<Longrightarrow>
    race_step clk s (goto t UAssigned (s\<lparr>m_ptr := Some a\<rparr>))"
| update_unlock: "fault s = None \<Longrightarrow> pcs s t = UAssigned \<Longrightarrow>
    race_step clk s (goto t Idle (s\<lparr>owner := None\<rparr>))"
| set_enabled: "fault s = None \<Longrightarrow> pcs s t = Idle \<Longrightarrow> race_step clk s (s\<lparr>on := b\<rparr>)"
| query_get: "fault s = None \<Longrightarrow> pcs s t = Idle \<Longrightarrow> race_step clk s (goto t (QHold (m_ptr s)) s)"
| query_json: "fault s = None \<Longrightarrow> pcs s t = QHold p \<Longrightarrow> deref s p = Some rs \<Longrightarrow>
    race_step clk s (goto t Idle s)"
| query_fault: "fault s = None \<Longrightarrow> pcs s t = QHold p \<Longrightarrow> deref s p = None \<Longrightarrow>
    race_step clk s (s\<lparr>fault := Some t\<rparr>)"

definition race_init :: "rule list \<Rightarrow> race" where
  "race_init rs = \<lparr>cells = [0 \<mapsto> rs], m_ptr = Some 0, fresh = 1, owner = None, on = True,
     pcs = (\<lambda>_. Idle), fault = None\<rparr>"

inductive race_reachable :: "(nat \<Rightarrow> clock) \<Rightarrow> rule list \<Rightarrow> race \<Rightarrow> bool" for clk rs where
  start: "race_reachable clk rs (race_init rs)"
| step: "race_reachable clk rs s \<Longrightarrow> race_step clk s s' \<Longrightarrow> race_reachable clk rs s'"

subsection \<open>The invariant of the lock and the pointer\<close>

fun holding :: "pc \<Rightarrow> bool" where
  "holding (JHold _) = True"
| "holding (JDone _) = True"
| "holding (UHold _) = True"
| "holding (UDeleted _) = True"
| "holding UAssigned = True"
| "holding _ = False"

text \<open>\<open>pending\<close>: the collection a thread has built and not yet published.\<close>

fun pending :: "pc \<Rightarrow> nat option" where
  "pending (UWant a) = Some a"
| "pending (UHold a) = Some a"
| "pending (UDeleted a) = Some a"
| "pending _ = None"

fun deleting :: "pc \<Rightarrow> bool" where
  "deleting (UDeleted _) = True"
| "deleting _ = False"

definition lock_ok :: "race \<Rightarrow> bool" where
  "lock_ok s \<longleftrightarrow> (\<forall>t. holding (pcs s t) \<longleftrightarrow> owner s = Some t)"

definition pending_ok :: "race \<Rightarrow> bool" where
  "pending_ok s \<longleftrightarrow>
     (\<forall>t a. pending (pcs s t) = Some a \<longrightarrow>
        a < fresh s \<and> cells s a \<noteq> None \<and> m_ptr s \<noteq> Some a \<and>
        (\<forall>t'. pending (pcs s t') = Some a \<longrightarrow> t' = t))"

definition ptr_ok :: "race \<Rightarrow> bool" where
  "ptr_ok s \<longleftrightarrow> (\<exists>a. m_ptr s = Some a \<and> a < fresh s \<and>
     (cells s a \<noteq> None \<or> (\<exists>t. deleting (pcs s t))))"

definition fault_ok :: "race \<Rightarrow> bool" where
  "fault_ok s \<longleftrightarrow> (\<forall>t. fault s = Some t \<longrightarrow> (\<exists>p. pcs s t = QHold p))"

definition race_inv :: "race \<Rightarrow> bool" where
  "race_inv s \<longleftrightarrow> lock_ok s \<and> pending_ok s \<and> ptr_ok s \<and> fault_ok s"

lemma deleting_holding: "deleting p \<Longrightarrow> holding p"
  by (cases p) auto

lemma pcs_goto [simp]: "pcs (goto t p s) = (pcs s)(t := p)"
  by (simp add: goto_def)

lemma goto_frame [simp]:
  "cells (goto t p s) = cells s" "m_ptr (goto t p s) = m_ptr s" "fresh (goto t p s) = fresh s"
  "owner (goto t p s) = owner s" "on (goto t p s) = on s" "fault (goto t p s) = fault s"
  by (simp_all add: goto_def)

text \<open>A thread inside the critical section (other than between delete and assign) sees a live pointer.\<close>

lemma ptr_live:
  assumes "race_inv s" and "holding (pcs s t)" and "\<not> deleting (pcs s t)"
  shows "\<exists>a rs. m_ptr s = Some a \<and> cells s a = Some rs"
proof -
  obtain a where a: "m_ptr s = Some a" "cells s a \<noteq> None \<or> (\<exists>t'. deleting (pcs s t'))"
    using assms(1) by (auto simp: race_inv_def ptr_ok_def)
  have "t' = t" if "deleting (pcs s t')" for t'
    using assms(1,2) deleting_holding [OF that] by (auto simp: race_inv_def lock_ok_def)
  with a assms(3) show ?thesis
    by auto
qed

lemma lock_ok_step: "race_step clk s s' \<Longrightarrow> race_inv s \<Longrightarrow> lock_ok s'"
  unfolding race_inv_def
  by (induction rule: race_step.induct) (force simp: lock_ok_def)+

lemma pending_ok_frame:
  assumes "pending_ok s"
    and "\<And>t. pending (pcs s' t) = pending (pcs s t) \<or> pending (pcs s' t) = None"
    and "fresh s \<le> fresh s'" and "m_ptr s' = m_ptr s"
    and "\<And>a. cells s a \<noteq> None \<Longrightarrow> m_ptr s \<noteq> Some a \<Longrightarrow> cells s' a \<noteq> None"
  shows "pending_ok s'"
  unfolding pending_ok_def
proof (intro allI impI)
  fix t a
  assume p: "pending (pcs s' t) = Some a"
  with assms(2) [of t] have "pending (pcs s t) = Some a"
    by simp
  then have s: "a < fresh s" "cells s a \<noteq> None" "m_ptr s \<noteq> Some a"
    and u: "pending (pcs s t') = Some a \<Longrightarrow> t' = t" for t'
    using assms(1) unfolding pending_ok_def by blast+
  have "pending (pcs s' t') = Some a \<Longrightarrow> t' = t" for t'
    using assms(2) [of t'] u [of t'] by auto
  then show "a < fresh s' \<and> cells s' a \<noteq> None \<and> m_ptr s' \<noteq> Some a \<and>
      (\<forall>t'. pending (pcs s' t') = Some a \<longrightarrow> t' = t)"
    using s assms(3,4,5) by auto
qed

lemma pending_ok_build:
  assumes "pending_ok s" and "ptr_ok s" and "pending (pcs s t) = None"
  shows "pending_ok (goto t (UWant (fresh s)) (s\<lparr>cells := (cells s)(fresh s \<mapsto> rs), fresh := Suc (fresh s)\<rparr>))"
proof -
  have lt: "pending (pcs s u) = Some a \<Longrightarrow> a < fresh s" for u a
    using assms(1) by (auto simp: pending_ok_def)
  then have "pending (pcs s u) \<noteq> Some (fresh s)" for u
    by blast
  with lt assms show ?thesis
    by (auto simp: pending_ok_def ptr_ok_def less_SucI)
qed

lemma pending_ok_assign:
  assumes "pending_ok s" and "pending (pcs s t) = Some a"
  shows "pending_ok (goto t UAssigned (s\<lparr>m_ptr := Some a\<rparr>))"
  using assms by (auto simp: pending_ok_def)

lemma pending_ok_step:
  assumes "race_step clk s s'" and inv: "race_inv s"
  shows "pending_ok s'"
proof -
  from inv have p: "pending_ok s" and q: "ptr_ok s"
    by (simp_all add: race_inv_def)
  from assms(1) show ?thesis
  proof cases
    case (update_build t rs)
    then show ?thesis using pending_ok_build [OF p q] by simp
  next
    case (update_assign t a)
    then show ?thesis using pending_ok_assign [OF p] by simp
  qed (auto intro!: pending_ok_frame [OF p] split: if_splits)
qed

lemma ptr_ok_frame:
  assumes "ptr_ok s" and "m_ptr s' = m_ptr s" and "fresh s \<le> fresh s'"
    and "\<And>a. cells s a \<noteq> None \<Longrightarrow> cells s' a \<noteq> None"
    and "\<And>u. deleting (pcs s u) \<Longrightarrow> deleting (pcs s' u)"
  shows "ptr_ok s'"
proof -
  obtain a where "m_ptr s = Some a" "a < fresh s" "cells s a \<noteq> None \<or> (\<exists>t. deleting (pcs s t))"
    using assms(1) by (auto simp: ptr_ok_def)
  then show ?thesis
    unfolding ptr_ok_def using assms(2-5) by (intro exI [of _ a]) fastforce
qed

lemma ptr_ok_step:
  assumes "race_step clk s s'" and inv: "race_inv s"
  shows "ptr_ok s'"
proof -
  from inv have p: "ptr_ok s"
    by (simp add: race_inv_def)
  from assms(1) show ?thesis
  proof cases
    case (update_delete t b old)
    then show ?thesis using p by (auto simp: ptr_ok_def)
  next
    case (update_assign t b)
    then have "pending (pcs s t) = Some b"
      by simp
    then have "b < fresh s \<and> cells s b \<noteq> None"
      using inv unfolding race_inv_def pending_ok_def by blast
    with update_assign show ?thesis
      by (auto simp: ptr_ok_def)
  qed (auto intro!: ptr_ok_frame [OF p] split: if_splits)
qed

lemma fault_ok_step: "race_step clk s s' \<Longrightarrow> race_inv s \<Longrightarrow> fault_ok s'"
proof (induction rule: race_step.induct)
  case (judge_fault s t pe)
  then show ?case
    using ptr_live [of s t] by (auto simp: deref_def)
next
  case (update_fault s t a old)
  then show ?case
    using ptr_live [of s t] by auto
qed (auto simp: fault_ok_def race_inv_def)

lemma race_inv_step: "race_step clk s s' \<Longrightarrow> race_inv s \<Longrightarrow> race_inv s'"
  using lock_ok_step pending_ok_step ptr_ok_step fault_ok_step unfolding race_inv_def by blast

lemma race_inv_init: "race_inv (race_init rs)"
  by (simp add: race_inv_def lock_ok_def pending_ok_def ptr_ok_def fault_ok_def race_init_def)

lemma race_reachable_inv: "race_reachable clk rs s \<Longrightarrow> race_inv s"
  by (induction rule: race_reachable.induct) (auto intro: race_inv_init race_inv_step)

subsection \<open>A printing client races with an update\<close>

lemma query_race_reachable:
  "\<exists>s. race_reachable clk rs s \<and> pcs s 1 = QHold (Some 0) \<and> cells s 0 = None \<and> fault s = Some 1"
proof -
  let ?s0 = "race_init rs"
  let ?s1 = "goto 1 (QHold (m_ptr ?s0)) ?s0"
  let ?s2 = "goto 2 (UWant (fresh ?s1))
    (?s1\<lparr>cells := (cells ?s1)(fresh ?s1 \<mapsto> []), fresh := Suc (fresh ?s1)\<rparr>)"
  let ?s3 = "goto 2 (UHold 1) (?s2\<lparr>owner := Some 2\<rparr>)"
  let ?s4 = "goto 2 (UDeleted 1) (?s3\<lparr>cells := (cells ?s3)(0 := None)\<rparr>)"
  let ?s5 = "?s4\<lparr>fault := Some 1\<rparr>"
  have r0: "race_reachable clk rs ?s0"
    by (rule race_reachable.start)
  have r1: "race_reachable clk rs ?s1"
    by (rule race_reachable.step [OF r0], rule race_step.query_get) (simp_all add: race_init_def)
  have r2: "race_reachable clk rs ?s2"
    by (rule race_reachable.step [OF r1], rule race_step.update_build) (simp_all add: race_init_def)
  have r3: "race_reachable clk rs ?s3"
    by (rule race_reachable.step [OF r2], rule race_step.update_lock) (simp_all add: race_init_def)
  have r4: "race_reachable clk rs ?s4"
    by (rule race_reachable.step [OF r3], rule race_step.update_delete) (simp_all add: race_init_def)
  have r5: "race_reachable clk rs ?s5"
    by (rule race_reachable.step [OF r4], rule race_step.query_fault [where p = "Some 0"]) (simp_all add: race_init_def deref_def)
  then show ?thesis
    by (intro exI [of _ ?s5]) (simp add: race_init_def)
qed

end
