(* ===== verification/FwServer.thy ===== *)
theory FwServer
  imports FwManager
begin

section \<open>Firewall: filter service, control server and HTTP proxy\<close>

text \<open>
  \<open>filter/NetFilterServiceProvider.cpp\<close>, \<open>server/server.cpp\<close>, \<open>monitor/LogService.h\<close>,
  \<open>net/TcpSocket.h\<close> and \<open>httpProxy/HTTPProxy.py\<close>. The netfilter library, the sockets and the JSON
  text format (\<open>picojson::parse\<close>, \<open>serialize\<close>, Python's \<open>json.loads\<close>) are parameters.
\<close>

subsection \<open>The filter service\<close>

datatype nf_verdict = NF_DROP | NF_ACCEPT

text \<open>
  A queued packet: its header (the packet id) and its payload, each possibly missing. The
  callback returns 1 when one is missing, else it sets a verdict for the id.
\<close>

record 'p nfq_packet =
  packet_hdr :: "u32 option"
  payload :: "'p option"

datatype callback_result = Returned int | SetVerdict u32 nf_verdict

definition onPacket :: "('m \<Rightarrow> 'p \<Rightarrow> 'e + bool) \<Rightarrow> 'm \<Rightarrow> 'p nfq_packet \<Rightarrow> 'e + callback_result" where
  "onPacket judge_of m p =
     (case packet_hdr p of
        None \<Rightarrow> Inr (Returned 1)
      | Some pid \<Rightarrow>
          (case payload p of
             None \<Rightarrow> Inr (Returned 1)
           | Some pe \<Rightarrow> bindE (judge_of m pe) (\<lambda>v.
               Inr (SetVerdict pid (if v then NF_ACCEPT else NF_DROP)))))"

context judge_service
begin

lemma onPacket_verdict:
  assumes "ready m" and "packet_hdr p = Some pid" and "payload p = Some pe"
  shows "\<exists>v. onPacket judge_of m p = Inr (SetVerdict pid v)"
  using ready_total [OF assms(1), of pe] assms(2,3) by (auto simp: onPacket_def)

lemma onPacket_total: "ready m \<Longrightarrow> \<exists>r. onPacket judge_of m p = Inr r"
proof (cases "payload p")
  case None
  then show ?thesis
    by (simp add: onPacket_def split: option.split)
next
  case (Some pe)
  assume "ready m"
  then obtain v where "judge_of m pe = Inr v"
    using ready_total by blast
  with Some show ?thesis
    by (simp add: onPacket_def split: option.split)
qed

lemma onPacket_drop:
  assumes "onPacket judge_of m p = Inr (SetVerdict pid NF_DROP)"
  shows "switched_on m"
  using assms drop_only_when_on
  by (auto simp: onPacket_def bindE_Inr_iff split: option.splits if_splits)

end

text \<open>\<open>start\<close>: the library calls in order, each with its own error code, then the receive loop.\<close>

record nfq_setup =
  open_ok :: bool
  unbind_ret :: int
  bind_ret :: int
  create_ok :: bool
  set_mode_ret :: int

datatype 'p queue_event = Packet "'p nfq_packet" | StopRequest

fun receive_loop ::
  "('m \<Rightarrow> 'p \<Rightarrow> 'e + bool) \<Rightarrow> 'm \<Rightarrow> 'p queue_event list \<Rightarrow> 'e + callback_result list" where
  "receive_loop judge_of m [] = Inr []"
| "receive_loop judge_of m (StopRequest # evs) = Inr []"
| "receive_loop judge_of m (Packet p # evs) =
     bindE (onPacket judge_of m p) (\<lambda>r. bindE (receive_loop judge_of m evs) (\<lambda>rs. Inr (r # rs)))"

definition filter_start ::
  "('m \<Rightarrow> 'p \<Rightarrow> 'e + bool) \<Rightarrow> 'm \<Rightarrow> nfq_setup \<Rightarrow> 'p queue_event list \<Rightarrow> 'e + (int \<times> callback_result list)"
where
  "filter_start judge_of m su evs =
     (if \<not> open_ok su then Inr (- 1, [])
      else if unbind_ret su < 0 then Inr (- 2, [])
      else if bind_ret su < 0 then Inr (- 3, [])
      else if \<not> create_ok su then Inr (- 4, [])
      else if set_mode_ret su < 0 then Inr (- 5, [])
      else bindE (receive_loop judge_of m evs) (\<lambda>rs. Inr (0, rs)))"

context judge_service
begin

lemma receive_loop_total: "ready m \<Longrightarrow> \<exists>rs. receive_loop judge_of m evs = Inr rs"
proof (induction evs)
  case (Cons e evs)
  then obtain rs where rs: "receive_loop judge_of m evs = Inr rs"
    by blast
  show ?case
  proof (cases e)
    case (Packet p)
    obtain r where "onPacket judge_of m p = Inr r"
      using onPacket_total Cons.prems by blast
    with rs Packet show ?thesis by simp
  qed simp
qed simp

end

subsection \<open>The log buffer\<close>

text \<open>
  \<open>LOG_ORIG\<close>: \<open>pos\<close> is \<open>p_sp - logbuff\<close>; \<open>overrun\<close> records a write past the end of the buffer
  (\<open>sprintf\<close> also writes the terminating zero).
\<close>

record logbuf =
  pos :: nat
  overrun :: bool

definition LOGBUFF_SIZE :: nat where "LOGBUFF_SIZE = 10240000"

definition log_orig :: "string \<Rightarrow> logbuf \<Rightarrow> logbuf" where
  "log_orig msg l =
     (let start = (if pos l > 90000000 then 0 else pos l)
      in \<lparr>pos = start + length msg, overrun = (overrun l \<or> LOGBUFF_SIZE < start + length msg + 1)\<rparr>)"

definition LOG_INIT :: logbuf where
  "LOG_INIT = \<lparr>pos = 0, overrun = False\<rparr>"

lemma log_grows:
  assumes "pos l + sum_list (map length msgs) \<le> 90000000"
  shows "pos (fold log_orig msgs l) = pos l + sum_list (map length msgs) \<and>
    (overrun (fold log_orig msgs l) \<longleftrightarrow>
       overrun l \<or> msgs \<noteq> [] \<and> LOGBUFF_SIZE \<le> pos l + sum_list (map length msgs))"
  using assms
proof (induction msgs arbitrary: l)
  case (Cons msg msgs)
  have "pos (log_orig msg l) = pos l + length msg"
      "overrun (log_orig msg l) \<longleftrightarrow> overrun l \<or> LOGBUFF_SIZE \<le> pos l + length msg"
    using Cons.prems by (auto simp: log_orig_def Let_def)
  with Cons.IH [of "log_orig msg l"] Cons.prems show ?case
    by (cases msgs) auto
qed simp

subsection \<open>The control server\<close>

record server =
  mgr :: manager
  logtext :: string
  xp :: nat

text \<open>
  \<open>CHandler::handle\<close> on the bytes \<open>buff\<close> of one \<open>recv\<close> into a buffer of 2048: the terminating
  zero is stored at \<open>buff[size]\<close>. \<open>warning\<close> is the text the log macro appends.
\<close>

definition RECV_BUFFER :: nat where "RECV_BUFFER = 2048"

record handler_env =
  parse :: "string \<Rightarrow> string + json"
  serialize :: "json \<Rightarrow> string"
  ub64 :: "jnum \<Rightarrow> u64"
  ub32 :: "jnum \<Rightarrow> int"
  warning :: string

definition update_data :: "handler_env \<Rightarrow> json option \<Rightarrow> manager \<Rightarrow> cxx_error + (int \<times> manager)" where
  "update_data env d m =
     (case d of
        Some (JArray xs) \<Rightarrow> loadConfigFromJson (ub64 env) (JArray xs) m
      | _ \<Rightarrow> Inr (0, m))"

definition update_enabled :: "json option \<Rightarrow> manager \<Rightarrow> manager" where
  "update_enabled e m =
     (case e of Some (JNumber x) \<Rightarrow> setEnabled (num_lt (Fin 0) x) m | _ \<Rightarrow> m)"

definition handle_update :: "handler_env \<Rightarrow> json \<Rightarrow> server \<Rightarrow> cxx_error + (string \<times> server)" where
  "handle_update env v s =
     bindE (json_lookup ''data'' v) (\<lambda>d.
     bindE (update_data env d (mgr s)) (\<lambda>(ret, m).
     if ret < 0 then Inr (''{\"error_code\":5,\"error_msg\":\"rules parse error\"}'', s\<lparr>mgr := m\<rparr>)
     else bindE (json_lookup ''enabled'' v) (\<lambda>e.
       Inr (''{\"error_code\":0}'', s\<lparr>mgr := update_enabled e m\<rparr>))))"

definition handle :: "handler_env \<Rightarrow> string \<Rightarrow> server \<Rightarrow> cxx_error + (string \<times> server)" where
  "handle env buff s =
     (if RECV_BUFFER \<le> length buff then Inl OutOfBounds
      else case parse env (c_str buff) of
        Inl err \<Rightarrow> Inr (''{\"error_code\":2,\"error_msg\":\"bad body\"}'', s\<lparr>logtext := logtext s @ warning env\<rparr>)
      | Inr v \<Rightarrow> bindE (getInteger32 (ub32 env) v ''opt'' (- 1)) (\<lambda>opt.
          if opt = 1 then
            (case m_rules (mgr s) of
               None \<Rightarrow> Inl NullDereference
             | Some rs \<Rightarrow> Inr (serialize env (collection_toJson rs), s))
          else if opt = 4 then
            Inr (if enabled (mgr s) then ''{\"error_code\":0,\"enabled\":1}''
                 else ''{\"error_code\":0,\"enabled\":0}'', s)
          else if opt = 2 then handle_update env v s
          else if opt = 5 then
            Inr (serialize env (JString (logtext s)), s\<lparr>xp := length (logtext s)\<rparr>)
          else if opt = 3 then
            Inr (serialize env (JString (drop (xp s) (logtext s))), s\<lparr>xp := length (logtext s)\<rparr>)
          else Inr (''{\"error_code\":3,\"error_msg\":\"unknown opt\"}'', s)))"

text \<open>One connection in raw mode: each receive is handled, a non-empty answer is sent back.\<close>

fun connection :: "handler_env \<Rightarrow> string list \<Rightarrow> server \<Rightarrow> cxx_error + (string list \<times> server)" where
  "connection env [] s = Inr ([], s)"
| "connection env (b # bs) s =
     (if b = [] then Inr ([], s)
      else bindE (handle env b s) (\<lambda>(rsp, s').
        bindE (connection env bs s') (\<lambda>(out, s'').
          Inr ((if rsp = [] then out else rsp # out), s''))))"

lemma loadConfigFromJson_initialised:
  "loadConfigFromJson ub v m = Inr (ret, m') \<Longrightarrow> initialised m'"
  by (auto simp: loadConfigFromJson_def initialised_def bindE_Inr_iff)

lemma update_data_initialised:
  "update_data env d m = Inr (ret, m') \<Longrightarrow> initialised m \<Longrightarrow> initialised m'"
  by (auto simp: update_data_def intro: loadConfigFromJson_initialised split: option.splits json.splits)

lemma update_enabled_initialised: "initialised (update_enabled e m) \<longleftrightarrow> initialised m"
  by (auto simp: update_enabled_def setEnabled_def initialised_def split: option.splits json.splits)

lemma handle_update_initialised:
  assumes "handle_update env v s = Inr (rsp, s')" and "initialised (mgr s)"
  shows "initialised (mgr s')"
  using assms
  by (auto simp: handle_update_def bindE_Inr_iff update_enabled_initialised
      intro: update_data_initialised split: if_splits)

lemma handle_initialised:
  assumes "handle env buff s = Inr (rsp, s')" and "initialised (mgr s)"
  shows "initialised (mgr s')"
  using assms handle_update_initialised
  by (auto simp: handle_def bindE_Inr_iff split: sum.splits if_splits option.splits)

lemma connection_initialised:
  "connection env bs s = Inr (out, s') \<Longrightarrow> initialised (mgr s) \<Longrightarrow> initialised (mgr s')"
proof (induction bs arbitrary: s out)
  case (Cons b bs)
  then show ?case
    by (auto simp: bindE_Inr_iff split: if_splits intro: handle_initialised)
qed simp

subsection \<open>The log queries\<close>

datatype log_op = Append string | Query

text \<open>The texts that option 3 returns while other threads append to the log.\<close>

fun log_step :: "log_op \<Rightarrow> server \<times> string list \<Rightarrow> server \<times> string list" where
  "log_step (Append t) (s, out) = (s\<lparr>logtext := logtext s @ t\<rparr>, out)"
| "log_step Query (s, out) = (s\<lparr>xp := length (logtext s)\<rparr>, out @ [drop (xp s) (logtext s)])"

definition log_inv :: "server \<times> string list \<Rightarrow> bool" where
  "log_inv so = (case so of (s, out) \<Rightarrow> xp s \<le> length (logtext s) \<and> concat out = take (xp s) (logtext s))"

interpretation log_queries: step_invariant log_step log_inv
proof
  fix so :: "server \<times> string list" and op
  assume "log_inv so"
  then show "log_inv (log_step op so)"
    by (cases so; cases op) (auto simp: log_inv_def)
qed

subsection \<open>The HTTP proxy\<close>

datatype proxy_event = Write string | Forward string

definition SIMPLE_TOKEN :: string where "SIMPLE_TOKEN = ''abc''"

definition jsonCheck :: "(string \<Rightarrow> json option) \<Rightarrow> string \<Rightarrow> int" where
  "jsonCheck loads body =
     (case loads body of
        Some (JObject kvs) \<Rightarrow>
          (case map_of kvs ''token'' of
             None \<Rightarrow> 2
           | Some t \<Rightarrow> if t = JString SIMPLE_TOKEN then 0 else 3)
      | _ \<Rightarrow> 2)"

definition do_POST :: "(string \<Rightarrow> json option) \<Rightarrow> (string \<Rightarrow> string) \<Rightarrow> string \<Rightarrow> proxy_event list" where
  "do_POST loads backend body =
     (if body = [] then [Write ''{\"error_code\":1}''] else [])
     @ (if jsonCheck loads body > 0
        then [Write (''{\"error_code\":'' @ dec (nat (jsonCheck loads body)) @ ''}'')] else [])
     @ [Forward body, Write (backend body)]"

definition do_GET :: "string \<Rightarrow> (string \<Rightarrow> string) \<Rightarrow> string \<Rightarrow> proxy_event list" where
  "do_GET html backend path =
     (if path = ''/config'' then [Forward ''{\"opt\":1}'', Write (backend ''{\"opt\":1}'')]
      else [Write html])"

fun forwarded :: "proxy_event list \<Rightarrow> string list" where
  "forwarded [] = []"
| "forwarded (Forward b # es) = b # forwarded es"
| "forwarded (Write w # es) = forwarded es"

lemma forwarded_append [simp]: "forwarded (es @ fs) = forwarded es @ forwarded fs"
  by (induction es rule: forwarded.induct) auto

end
