(* ===== verification/FwProps.thy ===== *)
theory FwProps
  imports FwRace FwServer
begin

section \<open>Firewall: properties\<close>

text \<open>
  What the packet filter guarantees, and where it does not: the verdict against an abstract
  policy, the semantics of a rule, saving and loading, the filter service, the rule pointer
  under concurrency, the control server, the log and the HTTP proxy.
\<close>

subsection \<open>The abstract policy\<close>

definition policy :: "clock \<Rightarrow> rule set \<Rightarrow> memory \<Rightarrow> bool" where
  "policy now R pe \<longleftrightarrow>
     (\<exists>r \<in> R. rtype r = TYPE_WHITE_LIST \<and> rule_check now r pe) \<or>
     \<not> (\<exists>r \<in> R. rtype r = TYPE_BLACK_LIST \<and> rule_check now r pe)"

lemma collection_check_policy: "collection_check (\<lambda>_. now) rs pe \<longleftrightarrow> policy now (set rs) pe"
  by (simp add: collection_check_iff some_match_const policy_def)

definition demo_rule :: rule where
  "demo_rule = zero_rule\<lparr>protocol := IPPROTO_ICMP, time_pass := 2 ^ 9\<rparr>"

definition demo_packet :: memory where
  "demo_packet = (\<lambda>_. 0)(0 := 0x45, 9 := 1)"

definition monday :: "nat \<Rightarrow> clock" where
  "monday h = \<lparr>tm_wday = 1, tm_hour = h\<rparr>"

text \<open>
  C1. The judge of an initialised manager implements the abstract policy on the set of its rules:
  everything passes while filtering is off; while it is on, a packet passes exactly when some white
  rule matches it or no black rule does. The order and the multiplicity of the rules, and the
  monitor rules, do not matter.
\<close>

theorem judge_implements_policy:
  assumes "m_rules m = Some rs"
  shows "judge (\<lambda>_. now) m pe = Inr (enabled m \<longrightarrow> policy now (set rs) pe)"
  using assms by (auto simp: judge_def collection_check_policy)

theorem judge_implements_policy_witness:
  "judge (\<lambda>_. monday 9) \<lparr>m_rules = Some [demo_rule], enabled = True\<rparr> demo_packet = Inr False"
proof -
  have "rule_check (monday 9) demo_rule demo_packet"
    by (simp add: rule_check_iff time_pass_test demo_rule_def demo_packet_def monday_def getProtocol_def
        zero_rule_def IPPROTO_ICMP_def IPPROTO_TCP_def IPPROTO_UDP_def bit_exp_iff)
  then show ?thesis
    using judge_implements_policy [of "\<lparr>m_rules = Some [demo_rule], enabled = True\<rparr>" "[demo_rule]" "monday 9" demo_packet]
    by (simp add: policy_def demo_rule_def zero_rule_def TYPE_BLACK_LIST_def TYPE_WHITE_LIST_def)
qed

text \<open>
  C2. What a rule matches, at a valid clock: every non-zero field equals the packet's, ports are
  compared for TCP and UDP only, the ICMP type for ICMP only, and the time window holds when the
  bit of the current hour or the bit of the current weekday is set (either is enough).
\<close>

theorem rule_semantics:
  assumes "tm_hour now < 24" and "tm_wday now < 7"
  shows "rule_check now r pe \<longleftrightarrow>
     (protocol r = 0 \<or> getProtocol pe = protocol r) \<and>
     (src_ip r = 0 \<or> getSrcIp pe = src_ip r) \<and>
     (dest_ip r = 0 \<or> getDestIp pe = dest_ip r) \<and>
     (bit (time_pass r) (tm_hour now) \<or> bit (time_pass r) (24 + tm_wday now)) \<and>
     (getProtocol pe \<in> {IPPROTO_TCP, IPPROTO_UDP} \<longrightarrow>
        (src_port r = 0 \<or> getSrcPort pe = src_port r) \<and>
        (dest_port r = 0 \<or> getDestPort pe = dest_port r)) \<and>
     (getProtocol pe = IPPROTO_ICMP \<longrightarrow> sub_protocol r = 0 \<or> getICMPType pe = sub_protocol r)"
  unfolding rule_check_iff time_pass_test [OF assms] ..

theorem rule_semantics_witness:
  "rule_check (monday 9) demo_rule demo_packet \<and> \<not> rule_check (monday 10) demo_rule demo_packet"
proof -
  have "tm_hour (monday 9) < 24" "tm_wday (monday 9) < 7" "tm_hour (monday 10) < 24" "tm_wday (monday 10) < 7"
    by (simp_all add: monday_def)
  then show ?thesis
    unfolding rule_semantics [OF \<open>tm_hour (monday 9) < 24\<close> \<open>tm_wday (monday 9) < 7\<close>]
      rule_semantics [OF \<open>tm_hour (monday 10) < 24\<close> \<open>tm_wday (monday 10) < 7\<close>]
    by (simp add: demo_rule_def demo_packet_def monday_def getProtocol_def
        zero_rule_def IPPROTO_ICMP_def IPPROTO_TCP_def IPPROTO_UDP_def bit_exp_iff)
qed

subsection \<open>Which bytes the verdict depends on\<close>

definition same_header :: "memory \<Rightarrow> memory \<Rightarrow> bool" where
  "same_header p q \<longleftrightarrow>
     (\<forall>i \<in> {0, 9} \<union> {12..19} \<union> {getData p..getData p + 3}. p i = q i)"

lemma load_cong:
  "m i = m' i \<Longrightarrow> m (Suc i) = m' (Suc i) \<Longrightarrow> load16 m i = load16 m' i"
  "m i = m' i \<Longrightarrow> m (i + 1) = m' (i + 1) \<Longrightarrow> m (i + 2) = m' (i + 2) \<Longrightarrow> m (i + 3) = m' (i + 3) \<Longrightarrow>
    load32 m i = load32 m' i"
  by (simp_all add: load16_def load32_def)

lemma same_header_fields:
  assumes "same_header p q"
  shows "getProtocol p = getProtocol q" "getSrcIp p = getSrcIp q" "getDestIp p = getDestIp q"
    "getSrcPort p = getSrcPort q" "getDestPort p = getDestPort q" "getICMPType p = getICMPType q"
proof -
  have eq: "p i = q i" if "i \<in> {0, 9} \<union> {12..19} \<union> {getData p..getData p + 3}" for i
    using assms that unfolding same_header_def by blast
  have d: "getData p = getData q"
    using eq [of 0] by (simp add: getData_def ihl_def)
  show pr: "getProtocol p = getProtocol q"
    using eq [of 9] by (simp add: getProtocol_def)
  show "getSrcIp p = getSrcIp q" "getDestIp p = getDestIp q"
    unfolding getSrcIp_def getDestIp_def by (rule load_cong(2); rule eq; simp)+
  have "load16 p (getData p) = load16 q (getData p)" "load16 p (getData p + 2) = load16 q (getData p + 2)"
    by (rule load_cong(1); rule eq; simp)+
  then show "getSrcPort p = getSrcPort q" "getDestPort p = getDestPort q"
    by (simp_all add: getSrcPort_def getDestPort_def pr d)
  show "getICMPType p = getICMPType q"
    using eq [of "getData p"] by (simp add: getICMPType_def pr d)
qed

text \<open>
  C3. The verdict is a function of the header bytes alone: the first byte (header length), the
  protocol, the two addresses, and the four bytes at the transport header. In particular it never
  consults the length of the packet, so for a truncated packet it depends on whatever follows it.
\<close>

theorem verdict_reads_header_only:
  assumes "same_header p q"
  shows "judge clk m p = judge clk m q"
proof -
  have "rule_check now r p = rule_check now r q" for now r
    unfolding rule_check_iff same_header_fields [OF assms] ..
  then show ?thesis
    by (simp add: judge_def collection_check_iff some_match_def split: option.split)
qed

theorem verdict_reads_header_only_witness:
  "judge (\<lambda>_. monday 9) \<lparr>m_rules = Some [demo_rule], enabled = True\<rparr> demo_packet =
   judge (\<lambda>_. monday 9) \<lparr>m_rules = Some [demo_rule], enabled = True\<rparr> (demo_packet(24 := 7, 100 := 3))"
proof -
  have "getData demo_packet = 20"
    by (simp add: getData_def ihl_def demo_packet_def)
  then have "same_header demo_packet (demo_packet(24 := 7, 100 := 3))"
    by (auto simp: same_header_def)
  then show ?thesis
    by (rule verdict_reads_header_only)
qed

subsection \<open>Saving and loading rules\<close>

text \<open>
  C4. Printing a rule set and loading it back (what the administration page does on every change)
  succeeds and keeps the filter switch, but every rule comes back as \<open>reloaded r\<close>: its time window is
  widened to always and its ICMP type to any, so it matches at least what it matched before.
\<close>

theorem save_then_load:
  "\<exists>m'. loadConfigFromJson ub (collection_toJson rs) m = Inr (0, m') \<and>
     m_rules m' = Some (map reloaded rs) \<and> enabled m' = enabled m \<and>
     (\<forall>r \<in> set rs. \<forall>now pe. rule_check now r pe \<longrightarrow> rule_check now (reloaded r) pe)"
  by (simp add: load_saved reloaded_wider)

theorem save_then_load_witness:
  "\<exists>m'. loadConfigFromJson (\<lambda>_. 0) (collection_toJson [demo_rule]) RuleManager = Inr (0, m') \<and>
     m_rules m' = Some [reloaded demo_rule]"
  using save_then_load [of "\<lambda>_. 0" "[demo_rule]" RuleManager] by auto


subsection \<open>The filter service and the control server together\<close>

text \<open>
  C6. Whatever a client sends, a connection that the server survives leaves the manager initialised,
  so the filter service still answers every complete packet with a verdict for its id.
\<close>

theorem filter_answers_after_any_session:
  assumes "initialised (mgr s)" and "connection env bs s = Inr (out, s')"
  shows "\<exists>v. onPacket (judge clk) (mgr s') \<lparr>packet_hdr = Some pid, payload = Some pe\<rparr> = Inr (SetVerdict pid v)"
  using connection_initialised [OF assms(2,1)]
  by (intro judge_mgr.onPacket_verdict) (simp_all add: initialised_ready)

definition demo_env :: "json \<Rightarrow> handler_env" where
  "demo_env v = \<lparr>parse = (\<lambda>_. Inr v), serialize = (\<lambda>_. []), ub64 = (\<lambda>_. 0), ub32 = (\<lambda>_. 0), warning = []\<rparr>"

definition demo_server :: server where
  "demo_server = \<lparr>mgr = \<lparr>m_rules = Some [], enabled = True\<rparr>, logtext = [], xp = 0\<rparr>"

theorem filter_answers_after_any_session_witness:
  "\<exists>out s' v. connection (demo_env (JObject [(''opt'', JNumber (Fin 4))])) [''q''] demo_server = Inr (out, s') \<and>
     onPacket (judge (\<lambda>_. monday 9)) (mgr s') \<lparr>packet_hdr = Some 1, payload = Some demo_packet\<rparr> = Inr (SetVerdict 1 v)"
proof -
  obtain out s' where c: "connection (demo_env (JObject [(''opt'', JNumber (Fin 4))])) [''q''] demo_server = Inr (out, s')"
    by (simp add: handle_def demo_env_def demo_server_def getInteger32_def cast_i32_def rat_trunc_def
        RECV_BUFFER_def)
  moreover have "initialised (mgr demo_server)"
    by (simp add: demo_server_def initialised_def)
  ultimately show ?thesis
    using filter_answers_after_any_session [of demo_server] by blast
qed

text \<open>
  C7. Under every interleaving of packet judging, rule updates and rule queries, the lock excludes: at
  most one thread is inside; and only a query can read a freed collection: judging and updating
  never do.
\<close>

theorem judge_never_reads_freed_rules:
  assumes "race_reachable clk rs s"
  shows "(holding (pcs s t) \<and> holding (pcs s u) \<longrightarrow> t = u) \<and>
     (\<forall>v. fault s = Some v \<longrightarrow> (\<exists>p. pcs s v = QHold p)) \<and>
     (\<forall>pe. pcs s t = JHold pe \<longrightarrow> (\<exists>a rs'. m_ptr s = Some a \<and> cells s a = Some rs'))"
proof -
  have inv: "race_inv s"
    using assms by (rule race_reachable_inv)
  then have "holding (pcs s t) \<and> holding (pcs s u) \<longrightarrow> t = u"
    by (auto simp: race_inv_def lock_ok_def)
  moreover have "\<forall>v. fault s = Some v \<longrightarrow> (\<exists>p. pcs s v = QHold p)"
    using inv by (simp add: race_inv_def fault_ok_def)
  moreover have "\<forall>pe. pcs s t = JHold pe \<longrightarrow> (\<exists>a rs'. m_ptr s = Some a \<and> cells s a = Some rs')"
    using ptr_live [OF inv, of t] by auto
  ultimately show ?thesis by blast
qed

theorem judge_never_reads_freed_rules_witness:
  "\<exists>s. race_reachable (\<lambda>_. monday 9) [] s \<and> pcs s 0 = JHold demo_packet \<and> (\<exists>a rs'. m_ptr s = Some a \<and> cells s a = Some rs')"
proof -
  let ?s1 = "goto 0 (JWant demo_packet) (race_init [])"
  let ?s2 = "goto 0 (JHold demo_packet) (?s1\<lparr>owner := Some 0\<rparr>)"
  have r1: "race_reachable (\<lambda>_. monday 9) [] ?s1"
    by (rule race_reachable.step [OF race_reachable.start], rule race_step.judge_on) (simp_all add: race_init_def)
  have r2: "race_reachable (\<lambda>_. monday 9) [] ?s2"
    by (rule race_reachable.step [OF r1], rule race_step.judge_lock) (simp_all add: race_init_def)
  have "pcs ?s2 0 = JHold demo_packet"
    by simp
  then show ?thesis
    using judge_never_reads_freed_rules [OF r2, of 0 0] r2 by blast
qed

text \<open>
  C8. The query handler does: it reads the rule pointer without the lock, and there is a reachable
  state in which an update has freed the collection the query is about to print.
\<close>

theorem query_reads_freed_rules:
  "\<exists>s. race_reachable clk rs s \<and> pcs s 1 = QHold (Some 0) \<and> cells s 0 = None \<and> fault s = Some 1"
  by (rule query_race_reachable)

subsection \<open>The control server on hostile input\<close>













lemma proxy_forwards_without_token:
  "forwarded (do_POST loads backend body) = [body]"
  by (simp add: do_POST_def)

text \<open>
  C10. The proxy checks the token but forwards the request all the same: for every body, whatever
  its token, exactly that body reaches the control server. With an update as the body, an
  unauthenticated client replaces the rules.
\<close>

theorem unauthenticated_update:
  assumes "parse env (c_str body) = Inr (JObject kvs)" and "length body < RECV_BUFFER"
    and "getInteger32 (ub32 env) (JObject kvs) ''opt'' (- 1) = Inr 2"
    and "map_of kvs ''data'' = Some (JArray [])" and "map_of kvs ''token'' = None"
    and "loads body = Some (JObject kvs)"
  shows "jsonCheck loads body = 2 \<and> forwarded (do_POST loads backend body) = [body] \<and>
     (\<exists>rsp s'. handle env body s = Inr (rsp, s') \<and> m_rules (mgr s') = Some [])"
proof -
  have "m_rules (update_enabled e m) = m_rules m" for e m
    by (auto simp: update_enabled_def setEnabled_def split: option.splits json.splits)
  then show ?thesis
    using assms
    by (auto simp: jsonCheck_def do_POST_def handle_def handle_update_def update_data_def
        loadConfigFromJson_def collection_ParseFromJson_def)
qed

theorem unauthenticated_update_witness:
  "jsonCheck (\<lambda>_. Some (JObject [(''opt'', JNumber (Fin 2)), (''data'', JArray [])])) ''q'' = 2 \<and>
   (\<exists>rsp s'. handle (demo_env (JObject [(''opt'', JNumber (Fin 2)), (''data'', JArray [])])) ''q'' demo_server
      = Inr (rsp, s') \<and> m_rules (mgr s') = Some [])"
  using unauthenticated_update [of "demo_env (JObject [(''opt'', JNumber (Fin 2)), (''data'', JArray [])])"
      "''q''" "[(''opt'', JNumber (Fin 2)), (''data'', JArray [])]"
      "\<lambda>_. Some (JObject [(''opt'', JNumber (Fin 2)), (''data'', JArray [])])" id demo_server]
  by (simp add: demo_env_def RECV_BUFFER_def getInteger32_def cast_i32_def rat_trunc_def)

subsection \<open>The log\<close>

text \<open>
  The guard of the log macro compares with 90000000 while the buffer has 10240000 bytes: as long
  as the messages logged since the start stay below the guard, the write position is their total
  length, and the buffer has been overrun exactly when that total has reached its size.
\<close>

theorem log_guard_is_too_late:
  assumes "sum_list (map length msgs) \<le> 90000000"
  shows "pos (fold log_orig msgs LOG_INIT) = sum_list (map length msgs) \<and>
    (overrun (fold log_orig msgs LOG_INIT) \<longleftrightarrow>
       msgs \<noteq> [] \<and> LOGBUFF_SIZE \<le> sum_list (map length msgs))"
  using log_grows [of LOG_INIT msgs] assms by (simp add: LOG_INIT_def)

theorem log_guard_is_too_late_witness:
  "overrun (fold log_orig (replicate 20000 (replicate 512 CHR ''x'')) LOG_INIT)"
proof -
  let ?msgs = "replicate 20000 (replicate 512 CHR ''x'')"
  have "sum_list (map length ?msgs) = 10240000"
    by (simp add: sum_list_replicate map_replicate)
  moreover have "?msgs \<noteq> []"
    by simp
  ultimately show ?thesis
    using log_guard_is_too_late [of ?msgs] by (simp add: LOGBUFF_SIZE_def)
qed

text \<open>
  Incremental log queries lose nothing and repeat nothing: whatever is appended between them,
  the answers concatenated are exactly the prefix of the log before the cursor.
\<close>

theorem log_queries_deliver_once:
  "concat (snd (fold log_step ops (s\<lparr>xp := 0, logtext := []\<rparr>, []))) =
     take (xp (fst (fold log_step ops (s\<lparr>xp := 0, logtext := []\<rparr>, []))))
       (logtext (fst (fold log_step ops (s\<lparr>xp := 0, logtext := []\<rparr>, []))))"
proof -
  have "log_inv (fold log_step ops (s\<lparr>xp := 0, logtext := []\<rparr>, []))"
    by (rule log_queries.run_inv) (simp add: log_inv_def)
  then show ?thesis
    by (simp add: log_inv_def split: prod.splits)
qed

end
