(* ===== verification/JsValue.thy ===== *)
theory JsValue
  imports JsNum "HOL-Library.List_Lexorder" "HOL-Library.AList"
begin

section \<open>JavaScript values, objects and conversions\<close>

text \<open>
  The part of ECMAScript the framework's expression engine uses: primitive values, objects with
  own properties and a prototype in a store, property reads along the prototype chain, strict mode
  writes, and the conversions and comparisons of the operators. What user code does when it is
  called is a parameter, the record \<open>host\<close>: \<open>call\<close> runs a function, \<open>to_prim\<close> converts an object
  to a primitive (through its own \<open>valueOf\<close> and \<open>toString\<close>). Getters, setters, proxies and frozen
  objects are not modelled; a hole in an array reads as \<open>undefined\<close> and is stored as such.
\<close>

datatype val = Undef | Null | Boolean bool | Num jnum | Str jstring | Ref nat

datatype obj_class = PlainObject | ArrayObject | FunctionObject | OtherObject

record jobj =
  cls :: obj_class
  proto :: "nat option"
  props :: "(jstring \<times> val) list"
  elems :: "val list"

record heap =
  store :: "nat \<Rightarrow> jobj option"
  next_addr :: nat

datatype exn = TypeError | RangeError | Thrown val

type_synonym 'a js = "heap \<Rightarrow> (exn + 'a) \<times> heap"

definition retJ :: "'a \<Rightarrow> 'a js" where
  "retJ x = (\<lambda>h. (Inr x, h))"

definition throwJ :: "exn \<Rightarrow> 'a js" where
  "throwJ e = (\<lambda>h. (Inl e, h))"

definition bindJ :: "'a js \<Rightarrow> ('a \<Rightarrow> 'b js) \<Rightarrow> 'b js" where
  "bindJ m f = (\<lambda>h. case m h of (Inl e, h') \<Rightarrow> (Inl e, h') | (Inr a, h') \<Rightarrow> f a h')"

definition getH :: "(heap \<Rightarrow> 'a) \<Rightarrow> 'a js" where
  "getH f = (\<lambda>h. (Inr (f h), h))"

lemma monad_simps [js_simps]:
  "retJ x h = (Inr x, h)"
  "throwJ e h = (Inl e, h)"
  "getH f h = (Inr (f h), h)"
  "bindJ (retJ x) k = k x"
  "bindJ (throwJ e) k = throwJ e"
  by (simp_all add: retJ_def throwJ_def getH_def bindJ_def)

lemma bindJ_Inr [js_simps]: "m h = (Inr a, h') \<Longrightarrow> bindJ m f h = f a h'"
  by (simp add: bindJ_def)

lemma bindJ_Inl [js_simps]: "m h = (Inl e, h') \<Longrightarrow> bindJ m f h = (Inl e, h')"
  by (simp add: bindJ_def)

lemma bindJ_cong [fundef_cong]:
  assumes "m h = m' h'" and "\<And>a h''. m' h' = (Inr a, h'') \<Longrightarrow> f a h'' = f' a h''" and "h = h'"
  shows "bindJ m f h = bindJ m' f' h'"
  using assms by (auto simp: bindJ_def split: prod.splits sum.splits)

lemma bindJ_assoc: "bindJ (bindJ m f) g = bindJ m (\<lambda>a. bindJ (f a) g)"
  by (auto simp: bindJ_def fun_eq_iff split: prod.splits sum.splits)

subsection \<open>Objects\<close>

definition alloc :: "jobj \<Rightarrow> nat js" where
  "alloc ob = (\<lambda>h. (Inr (next_addr h),
     h\<lparr>store := (store h)(next_addr h \<mapsto> ob), next_addr := Suc (next_addr h)\<rparr>))"

definition new_object :: "nat option \<Rightarrow> val js" where
  "new_object pr = bindJ (alloc \<lparr>cls = PlainObject, proto = pr, props = [], elems = []\<rparr>) (\<lambda>a. retJ (Ref a))"

definition new_array :: "nat option \<Rightarrow> val list \<Rightarrow> val js" where
  "new_array pr vs = bindJ (alloc \<lparr>cls = ArrayObject, proto = pr, props = [], elems = vs\<rparr>) (\<lambda>a. retJ (Ref a))"

text \<open>A key that is a canonical array index.\<close>

definition index_of_key :: "jstring \<Rightarrow> nat option" where
  "index_of_key k =
     (if k \<noteq> [] \<and> list_all is_digit k \<and> (k = [48] \<or> hd k \<noteq> 48) then Some (nat (digits_val k)) else None)"

definition own_prop :: "jobj \<Rightarrow> jstring \<Rightarrow> val option" where
  "own_prop ob k =
     (if cls ob = ArrayObject then
        (if k = J ''length'' then Some (Num (num_of_int (int (length (elems ob)))))
         else case index_of_key k of
             Some i \<Rightarrow> if i < length (elems ob) then Some (elems ob ! i) else None
           | None \<Rightarrow> map_of (props ob) k)
      else map_of (props ob) k)"

text \<open>
  The prototype chain is acyclic in JavaScript, so it has at most as many objects as the store:
  \<open>next_addr\<close> steps reach its end.
\<close>

fun chain_prop :: "nat \<Rightarrow> heap \<Rightarrow> nat \<Rightarrow> jstring \<Rightarrow> val option" where
  "chain_prop 0 h a k = None"
| "chain_prop (Suc n) h a k =
     (case store h a of
        None \<Rightarrow> None
      | Some ob \<Rightarrow>
          (case own_prop ob k of
             Some v \<Rightarrow> Some v
           | None \<Rightarrow> (case proto ob of None \<Rightarrow> None | Some b \<Rightarrow> chain_prop n h b k)))"

definition obj_prop :: "heap \<Rightarrow> nat \<Rightarrow> jstring \<Rightarrow> val option" where
  "obj_prop h a k = chain_prop (Suc (next_addr h)) h a k"

record host =
  call :: "val \<Rightarrow> val \<Rightarrow> val list \<Rightarrow> val js"
  to_prim :: "bool \<Rightarrow> nat \<Rightarrow> val js"
  object_proto :: "nat option"
  array_proto :: "nat option"
  string_proto :: "nat"
  number_proto :: "nat"
  boolean_proto :: "nat"

definition chain_val :: "heap \<Rightarrow> nat \<Rightarrow> jstring \<Rightarrow> val" where
  "chain_val h a k = (case obj_prop h a k of Some v \<Rightarrow> v | None \<Rightarrow> Undef)"

text \<open>\<open>v[k]\<close>: an error on \<open>undefined\<close> and \<open>null\<close>, the wrapper's prototype for other primitives.\<close>

fun get_v :: "host \<Rightarrow> val \<Rightarrow> jstring \<Rightarrow> val js" where
  "get_v H Undef k = throwJ TypeError"
| "get_v H Null k = throwJ TypeError"
| "get_v H (Boolean b) k = getH (\<lambda>h. chain_val h (boolean_proto H) k)"
| "get_v H (Num n) k = getH (\<lambda>h. chain_val h (number_proto H) k)"
| "get_v H (Str s) k =
     (if k = J ''length'' then retJ (Num (num_of_int (int (length s))))
      else case index_of_key k of
          Some i \<Rightarrow> if i < length s then retJ (Str [s ! i]) else getH (\<lambda>h. chain_val h (string_proto H) k)
        | None \<Rightarrow> getH (\<lambda>h. chain_val h (string_proto H) k))"
| "get_v H (Ref a) k = getH (\<lambda>h. chain_val h a k)"

text \<open>\<open>k in v\<close>\<close>

fun has_v :: "val \<Rightarrow> jstring \<Rightarrow> bool js" where
  "has_v (Ref a) k = getH (\<lambda>h. obj_prop h a k \<noteq> None)"
| "has_v _ k = throwJ TypeError"

definition set_own :: "jobj \<Rightarrow> jstring \<Rightarrow> val \<Rightarrow> jobj" where
  "set_own ob k v =
     (case (if cls ob = ArrayObject then index_of_key k else None) of
        Some i \<Rightarrow>
          (if i < length (elems ob) then ob\<lparr>elems := (elems ob)[i := v]\<rparr>
           else ob\<lparr>elems := elems ob @ replicate (i - length (elems ob)) Undef @ [v]\<rparr>)
      | None \<Rightarrow> ob\<lparr>props := AList.update k v (props ob)\<rparr>)"

text \<open>
  \<open>v[k] = w\<close> in strict mode: an error on a primitive. Assigning the length of an array cuts or
  extends it.
\<close>

definition put_obj :: "nat \<Rightarrow> jstring \<Rightarrow> val \<Rightarrow> unit js" where
  "put_obj a k w = (\<lambda>h. case store h a of
       None \<Rightarrow> (Inl TypeError, h)
     | Some ob \<Rightarrow>
         if cls ob = ArrayObject \<and> k = J ''length'' then
           (case w of
              Num (Fin r) \<Rightarrow>
                (if 0 \<le> r \<and> r = of_int \<lfloor>r\<rfloor> \<and> r < 2 ^ 32
                 then (Inr (), h\<lparr>store := (store h)(a \<mapsto> ob\<lparr>elems :=
                     take (nat \<lfloor>r\<rfloor>) (elems ob) @ replicate (nat \<lfloor>r\<rfloor> - length (elems ob)) Undef\<rparr>)\<rparr>)
                 else (Inl RangeError, h))
            | _ \<Rightarrow> (Inl RangeError, h))
         else (Inr (), h\<lparr>store := (store h)(a \<mapsto> set_own ob k w)\<rparr>))"

fun put_v :: "val \<Rightarrow> jstring \<Rightarrow> val \<Rightarrow> unit js" where
  "put_v (Ref a) k w = put_obj a k w"
| "put_v _ k w = throwJ TypeError"

definition array_push :: "nat \<Rightarrow> val \<Rightarrow> unit js" where
  "array_push a w = (\<lambda>h. case store h a of
       None \<Rightarrow> (Inl TypeError, h)
     | Some ob \<Rightarrow> (Inr (), h\<lparr>store := (store h)(a \<mapsto> ob\<lparr>elems := elems ob @ [w]\<rparr>)\<rparr>))"

fun is_function :: "heap \<Rightarrow> val \<Rightarrow> bool" where
  "is_function h (Ref a) = (case store h a of Some ob \<Rightarrow> cls ob = FunctionObject | None \<Rightarrow> False)"
| "is_function h _ = False"

definition call_v :: "host \<Rightarrow> val \<Rightarrow> val \<Rightarrow> val list \<Rightarrow> val js" where
  "call_v H f this args = (\<lambda>h. if is_function h f then call H f this args h else (Inl TypeError, h))"

subsection \<open>Conversions\<close>

definition is_nullish :: "val \<Rightarrow> bool" where
  "is_nullish v \<longleftrightarrow> v = Undef \<or> v = Null"

fun truthy :: "val \<Rightarrow> bool" where
  "truthy Undef = False"
| "truthy Null = False"
| "truthy (Boolean b) = b"
| "truthy (Num n) = (n \<noteq> NaN \<and> n \<noteq> NZero \<and> n \<noteq> Fin 0)"
| "truthy (Str s) = (s \<noteq> [])"
| "truthy (Ref a) = True"

fun prim_to_num :: "val \<Rightarrow> jnum" where
  "prim_to_num Null = Fin 0"
| "prim_to_num (Boolean b) = (if b then Fin 1 else Fin 0)"
| "prim_to_num (Num n) = n"
| "prim_to_num (Str s) = num_of_string s"
| "prim_to_num _ = NaN"

fun prim_to_string :: "val \<Rightarrow> jstring" where
  "prim_to_string Undef = J ''undefined''"
| "prim_to_string Null = J ''null''"
| "prim_to_string (Boolean b) = (if b then J ''true'' else J ''false'')"
| "prim_to_string (Num n) = num_to_string n"
| "prim_to_string (Str s) = s"
| "prim_to_string (Ref a) = []"

text \<open>\<open>to_primitive\<close>: the hint is \<open>string\<close> when the flag is set, else the default or \<open>number\<close>.\<close>

fun to_primitive :: "host \<Rightarrow> bool \<Rightarrow> val \<Rightarrow> val js" where
  "to_primitive H hint (Ref a) =
     bindJ (to_prim H hint a) (\<lambda>p. case p of Ref _ \<Rightarrow> throwJ TypeError | _ \<Rightarrow> retJ p)"
| "to_primitive H hint v = retJ v"

definition to_number :: "host \<Rightarrow> val \<Rightarrow> jnum js" where
  "to_number H v = bindJ (to_primitive H False v) (\<lambda>p. retJ (prim_to_num p))"

definition to_string :: "host \<Rightarrow> val \<Rightarrow> jstring js" where
  "to_string H v = bindJ (to_primitive H True v) (\<lambda>p. retJ (prim_to_string p))"

subsection \<open>Operators\<close>

definition js_plus :: "host \<Rightarrow> val \<Rightarrow> val \<Rightarrow> val js" where
  "js_plus H l r =
     bindJ (to_primitive H False l) (\<lambda>p. bindJ (to_primitive H False r) (\<lambda>q.
       retJ (case (p, q) of
           (Str s, _) \<Rightarrow> Str (s @ prim_to_string q)
         | (_, Str t) \<Rightarrow> Str (prim_to_string p @ t)
         | _ \<Rightarrow> Num (num_add (prim_to_num p) (prim_to_num q)))))"

definition js_arith :: "host \<Rightarrow> (jnum \<Rightarrow> jnum \<Rightarrow> jnum) \<Rightarrow> val \<Rightarrow> val \<Rightarrow> val js" where
  "js_arith H f l r =
     bindJ (to_number H l) (\<lambda>m. bindJ (to_number H r) (\<lambda>n. retJ (Num (f m n))))"

fun strict_eq :: "val \<Rightarrow> val \<Rightarrow> bool" where
  "strict_eq (Num m) (Num n) = num_eq m n"
| "strict_eq v w = (v = w)"

text \<open>\<open>prim_eq\<close>: \<open>==\<close> on primitives.\<close>

fun prim_eq :: "val \<Rightarrow> val \<Rightarrow> bool" where
  "prim_eq Undef w = (w = Undef \<or> w = Null)"
| "prim_eq Null w = (w = Undef \<or> w = Null)"
| "prim_eq v Undef = False"
| "prim_eq v Null = False"
| "prim_eq (Str s) (Str t) = (s = t)"
| "prim_eq v w = num_eq (prim_to_num v) (prim_to_num w)"

fun js_eq :: "host \<Rightarrow> val \<Rightarrow> val \<Rightarrow> bool js" where
  "js_eq H (Ref a) (Ref b) = retJ (a = b)"
| "js_eq H (Ref a) w =
     (if is_nullish w then retJ False else bindJ (to_primitive H False (Ref a)) (\<lambda>p. retJ (prim_eq p w)))"
| "js_eq H v (Ref b) =
     (if is_nullish v then retJ False else bindJ (to_primitive H False (Ref b)) (\<lambda>q. retJ (prim_eq v q)))"
| "js_eq H v w = retJ (prim_eq v w)"

definition prim_compare :: "(jstring \<Rightarrow> jstring \<Rightarrow> bool) \<Rightarrow> (jnum \<Rightarrow> jnum \<Rightarrow> bool) \<Rightarrow> val \<Rightarrow> val \<Rightarrow> bool" where
  "prim_compare fs fn p q = (case (p, q) of
       (Str s, Str t) \<Rightarrow> fs s t
     | _ \<Rightarrow> fn (prim_to_num p) (prim_to_num q))"

definition js_compare :: "host \<Rightarrow> (jstring \<Rightarrow> jstring \<Rightarrow> bool) \<Rightarrow> (jnum \<Rightarrow> jnum \<Rightarrow> bool) \<Rightarrow> val \<Rightarrow> val \<Rightarrow> bool js" where
  "js_compare H fs fn l r =
     bindJ (to_primitive H False l) (\<lambda>p. bindJ (to_primitive H False r) (\<lambda>q. retJ (prim_compare fs fn p q)))"

subsection \<open>Basic laws\<close>

lemma strict_eq_refl: "v \<noteq> Num NaN \<Longrightarrow> strict_eq v v"
  by (cases v) auto

lemma strict_eq_sym: "strict_eq v w = strict_eq w v"
  by (cases v; cases w) (auto simp: num_eq_sym)

lemma own_prop_set_own:
  assumes "cls ob \<noteq> ArrayObject"
  shows "own_prop (set_own ob k v) k' = (if k' = k then Some v else own_prop ob k')"
  using assms by (simp add: own_prop_def set_own_def AList.update_conv')

lemma put_obj_plain:
  assumes "store h a = Some ob" and "cls ob \<noteq> ArrayObject"
  shows "put_obj a k w h = (Inr (), h\<lparr>store := (store h)(a \<mapsto> set_own ob k w)\<rparr>)"
  using assms by (simp add: put_obj_def)

lemma obj_prop_own:
  "store h a = Some ob \<Longrightarrow> own_prop ob k = Some v \<Longrightarrow> obj_prop h a k = Some v"
  by (simp add: obj_prop_def)

text \<open>A write to a plain object is read back, whatever its prototypes.\<close>

lemma get_after_put:
  assumes "store h a = Some ob" and "cls ob \<noteq> ArrayObject"
  shows "\<exists>h'. put_v (Ref a) k w h = (Inr (), h') \<and> get_v H (Ref a) k h' = (Inr w, h')"
  using assms
  by (simp add: put_obj_plain js_simps chain_val_def obj_prop_own own_prop_set_own)

end
