(* ===== verification/NgLexer.thy ===== *)
theory NgLexer
  imports JsValue
begin

section \<open>Expressions: the lexer\<close>

text \<open>
  \<open>Lexer.prototype\<close> of the expression service. The lexer object's state (\<open>text\<close>, \<open>index\<close>,
  \<open>tokens\<close>) is passed explicitly: a read function takes the text and the index and returns the new
  index with the token it pushed. \<open>throwError\<close> is the value \<open>LexErr\<close> with the message and the
  column text of the source. The options are the two identifier predicates and the literals.
\<close>

record options =
  opt_isIdentifierStart :: "(jstring \<Rightarrow> nat \<Rightarrow> bool) option"
  opt_isIdentifierContinue :: "(jstring \<Rightarrow> nat \<Rightarrow> bool) option"
  literals :: "(jstring \<times> val) list"

datatype token_kind = Operator | Punctuation | Identifier | Constant val

record token =
  tindex :: nat
  tok_text :: jstring
  kind :: token_kind

datatype parse_error =
  LexErr jstring jstring
| SyntaxErr jstring jstring nat
| LvalErr
| UeoeErr
| OutOfFuel

definition OPERATORS :: "jstring list" where
  "OPERATORS = map J [''+'', ''-'', ''*'', ''/'', ''%'', ''==='', ''!=='', ''=='', ''!='', ''<'', ''>'',
     ''<='', ''>='', ''&&'', ''||'', ''!'', ''='', ''|'']"

definition ESCAPE :: "nat \<Rightarrow> nat option" where
  "ESCAPE c = map_of
     [(110, 10), (102, 12), (114, 13), (116, 9), (118, 11), (39, 39), (34, 34)] c"

subsection \<open>Character classes\<close>

text \<open>\<open>charAt\<close> is the empty string past the end; \<open>peek\<close> is \<open>false\<close> (here \<open>None\<close>) there.\<close>

definition charAt :: "jstring \<Rightarrow> nat \<Rightarrow> jstring" where
  "charAt s i = (if i < length s then [s ! i] else [])"

definition substring :: "jstring \<Rightarrow> nat \<Rightarrow> nat \<Rightarrow> jstring" where
  "substring s a b = (let lo = min a b; hi = max a b in take (hi - lo) (drop lo s))"

definition lex_peek :: "jstring \<Rightarrow> nat \<Rightarrow> nat \<Rightarrow> nat option" where
  "lex_peek t index num = (if index + num < length t then Some (t ! (index + num)) else None)"

text \<open>\<open>is(ch, chars)\<close>: the character occurs in the string.\<close>

definition lex_is :: "nat \<Rightarrow> jstring \<Rightarrow> bool" where
  "lex_is ch chars \<longleftrightarrow> ch \<in> set chars"

definition PUNCTUATION :: jstring where
  "PUNCTUATION = J ''(){}[].,;:?''"

definition isNumber :: "nat \<Rightarrow> bool" where
  "isNumber ch \<longleftrightarrow> 48 \<le> ch \<and> ch \<le> 57"

definition isNumber_opt :: "nat option \<Rightarrow> bool" where
  "isNumber_opt ch = (case ch of Some c \<Rightarrow> isNumber c | None \<Rightarrow> False)"

definition isWhitespace :: "nat \<Rightarrow> bool" where
  "isWhitespace ch \<longleftrightarrow> ch = 32 \<or> ch = 13 \<or> ch = 9 \<or> ch = 10 \<or> ch = 11 \<or> ch = 160"

text \<open>The comparisons of the source are on strings of one or two code units.\<close>

definition isValidIdentifierStart :: "jstring \<Rightarrow> bool" where
  "isValidIdentifierStart ch \<longleftrightarrow>
     J ''a'' \<le> ch \<and> ch \<le> J ''z'' \<or> J ''A'' \<le> ch \<and> ch \<le> J ''Z'' \<or> J ''_'' = ch \<or> ch = J ''$''"

definition isValidIdentifierContinue :: "jstring \<Rightarrow> bool" where
  "isValidIdentifierContinue ch \<longleftrightarrow>
     isValidIdentifierStart ch \<or> J ''0'' \<le> ch \<and> ch \<le> J ''9''"

definition codePointAt :: "jstring \<Rightarrow> nat" where
  "codePointAt ch =
     (if length ch = 1 then ch ! 0 else ch ! 0 * 1024 + ch ! 1 - 0x35FDC00)"

definition isIdentifierStart :: "options \<Rightarrow> jstring \<Rightarrow> bool" where
  "isIdentifierStart opts ch = (case opt_isIdentifierStart opts of
     Some f \<Rightarrow> f ch (codePointAt ch) | None \<Rightarrow> isValidIdentifierStart ch)"

definition isIdentifierContinue :: "options \<Rightarrow> jstring \<Rightarrow> bool" where
  "isIdentifierContinue opts ch = (case opt_isIdentifierContinue opts of
     Some f \<Rightarrow> f ch (codePointAt ch) | None \<Rightarrow> isValidIdentifierContinue ch)"

text \<open>\<open>peekMultichar\<close>: a surrogate pair counts as one character.\<close>

definition peekMultichar :: "jstring \<Rightarrow> nat \<Rightarrow> jstring" where
  "peekMultichar t index =
     (let ch = charAt t index in
      case lex_peek t index 1 of
        None \<Rightarrow> ch
      | Some cp2 \<Rightarrow>
          (let cp1 = t ! index in
           if 0xD800 \<le> cp1 \<and> cp1 \<le> 0xDBFF \<and> 0xDC00 \<le> cp2 \<and> cp2 \<le> 0xDFFF then ch @ [cp2] else ch))"

definition isExpOperator :: "nat \<Rightarrow> bool" where
  "isExpOperator ch \<longleftrightarrow> ch = 45 \<or> ch = 43 \<or> isNumber ch"

definition isExpOperator_opt :: "nat option \<Rightarrow> bool" where
  "isExpOperator_opt ch = (case ch of Some c \<Rightarrow> isExpOperator c | None \<Rightarrow> False)"

definition lowercase_char :: "nat \<Rightarrow> nat" where
  "lowercase_char c = (if 65 \<le> c \<and> c \<le> 90 then c + 32 else c)"

subsection \<open>Errors\<close>

text \<open>\<open>throwError(error, start, end)\<close>: \<open>start\<close> may be absent, \<open>end\<close> defaults to the index.\<close>

definition lex_throwError :: "jstring \<Rightarrow> nat \<Rightarrow> jstring \<Rightarrow> nat option \<Rightarrow> nat option \<Rightarrow> parse_error" where
  "lex_throwError t index error start stop =
     (let e = (case stop of Some n \<Rightarrow> (if n = 0 then index else n) | None \<Rightarrow> index)
      in LexErr error (case start of
           Some st \<Rightarrow> J ''s '' @ int_digits (int st) @ J ''-'' @ int_digits (int index) @ J '' [''
             @ substring t st e @ J '']''
         | None \<Rightarrow> J '' '' @ int_digits (int e)))"

subsection \<open>Numbers, identifiers, strings\<close>

text \<open>One turn of the loop of \<open>readNumber\<close>: take the character, stop, or reject the exponent.\<close>

datatype number_action = NumTake | NumBad | NumStop

definition number_action :: "jstring \<Rightarrow> nat \<Rightarrow> jstring \<Rightarrow> number_action" where
  "number_action t index number =
     (let ch = lowercase_char (t ! index) in
      if ch = 46 \<or> isNumber ch then NumTake
      else
        let peekCh = lex_peek t index 1; last_e = (number \<noteq> [] \<and> last number = 101) in
        if ch = 101 \<and> isExpOperator_opt peekCh then NumTake
        else if isExpOperator ch \<and> peekCh \<noteq> None \<and> isNumber_opt peekCh \<and> last_e then NumTake
        else if isExpOperator ch \<and> (peekCh = None \<or> \<not> isNumber_opt peekCh) \<and> last_e then NumBad
        else NumStop)"

function number_loop :: "jstring \<Rightarrow> nat \<Rightarrow> jstring \<Rightarrow> parse_error + (nat \<times> jstring)" where
  "number_loop t index number =
     (if index < length t then
        (case number_action t index number of
           NumTake \<Rightarrow> number_loop t (Suc index) (number @ [lowercase_char (t ! index)])
         | NumBad \<Rightarrow> Inl (lex_throwError t index (J ''Invalid exponent'') None None)
         | NumStop \<Rightarrow> Inr (index, number))
      else Inr (index, number))"
  by pat_completeness auto
termination
  by (relation "measure (\<lambda>(t, index, number). length t - index)") auto

declare number_loop.simps [simp del]

definition readNumber :: "jstring \<Rightarrow> nat \<Rightarrow> parse_error + (nat \<times> token)" where
  "readNumber t start =
     bindE (number_loop t start []) (\<lambda>(index, number).
       Inr (index, \<lparr>tindex = start, tok_text = number, kind = Constant (Num (num_of_string number))\<rparr>))"

lemma peekMultichar_length:
  "index < length t \<Longrightarrow>
     0 < length (peekMultichar t index) \<and> index + length (peekMultichar t index) \<le> length t"
  by (auto simp: peekMultichar_def charAt_def lex_peek_def Let_def)

function ident_loop :: "options \<Rightarrow> jstring \<Rightarrow> nat \<Rightarrow> nat" where
  "ident_loop opts t index =
     (if index < length t then
        (let ch = peekMultichar t index in
         if \<not> isIdentifierContinue opts ch then index
         else ident_loop opts t (index + length ch))
      else index)"
  by pat_completeness auto
termination
proof (relation "measure (\<lambda>(opts, t, index). length t - index)", goal_cases)
  case 1
  then show ?case by simp
next
  case (2 opts t index ch)
  then show ?case
    using peekMultichar_length [of index t] by (simp add: diff_less_mono2 del: length_greater_0_conv)
qed

declare ident_loop.simps [simp del]

definition readIdent :: "options \<Rightarrow> jstring \<Rightarrow> nat \<Rightarrow> nat \<times> token" where
  "readIdent opts t start =
     (let index = ident_loop opts t (start + length (peekMultichar t start))
      in (index, \<lparr>tindex = start, tok_text = take (index - start) (drop start t), kind = Identifier\<rparr>))"

text \<open>
  The escapes of a string literal: \<open>hex.match\<close> wants four hexadecimal digits in the (at most
  four) characters that follow \<open>u\<close>.
\<close>

function string_loop ::
  "jstring \<Rightarrow> nat \<Rightarrow> nat \<Rightarrow> nat \<Rightarrow> jstring \<Rightarrow> jstring \<Rightarrow> bool \<Rightarrow> parse_error + (nat \<times> token)" where
  "string_loop t start quote index string rawString escape =
     (if index < length t then
        (let ch = t ! index; raw = rawString @ [ch] in
         if escape then
           (if ch = 117 then
              (let hex = take 4 (drop (Suc index) t) in
               case (if length hex = 4 then radix_val 16 hex 0 else None) of
                 None \<Rightarrow> Inl (lex_throwError t index (J ''Invalid unicode escape ['' @ [92, 117] @ hex @ J '']'') None None)
               | Some n \<Rightarrow> string_loop t start quote (index + 4 + 1) (string @ [nat n mod 65536]) raw False)
            else
              (let rep = (case ESCAPE ch of Some c \<Rightarrow> c | None \<Rightarrow> ch)
               in string_loop t start quote (index + 1) (string @ [rep]) raw False))
         else if ch = 92 then string_loop t start quote (index + 1) string raw True
         else if ch = quote then
           Inr (index + 1, \<lparr>tindex = start, tok_text = raw, kind = Constant (Str string)\<rparr>)
         else string_loop t start quote (index + 1) (string @ [ch]) raw escape)
      else Inl (lex_throwError t index (J ''Unterminated quote'') (Some start) None))"
  by pat_completeness auto
termination
  by (relation "measure (\<lambda>(t, start, quote, index, string, rawString, escape). length t - index)") auto

declare string_loop.simps [simp del]

definition readString :: "jstring \<Rightarrow> nat \<Rightarrow> parse_error + (nat \<times> token)" where
  "readString t start = string_loop t start (t ! start) (start + 1) [] [t ! start] False"

subsection \<open>The main loop\<close>

definition opt_str :: "nat option \<Rightarrow> jstring" where
  "opt_str c = (case c of Some x \<Rightarrow> [x] | None \<Rightarrow> J ''false'')"

text \<open>One turn of the loop of \<open>lex\<close>: the new index and the token pushed, if any.\<close>

definition lex_step :: "options \<Rightarrow> jstring \<Rightarrow> nat \<Rightarrow> parse_error + (nat \<times> token option)" where
  "lex_step opts t index =
     (let ch = t ! index in
      if ch = 34 \<or> ch = 39 then
        bindE (readString t index) (\<lambda>(i, tok). Inr (i, Some tok))
      else if isNumber ch \<or> ch = 46 \<and> isNumber_opt (lex_peek t index 1) then
        bindE (readNumber t index) (\<lambda>(i, tok). Inr (i, Some tok))
      else if isIdentifierStart opts (peekMultichar t index) then
        (let (i, tok) = readIdent opts t index in Inr (i, Some tok))
      else if lex_is ch PUNCTUATION then
        Inr (index + 1, Some \<lparr>tindex = index, tok_text = [ch], kind = Punctuation\<rparr>)
      else if isWhitespace ch then Inr (index + 1, None)
      else
        let ch1 = [ch];
            ch2 = ch1 @ opt_str (lex_peek t index 1);
            ch3 = ch2 @ opt_str (lex_peek t index 2);
            op1 = (ch1 \<in> set OPERATORS);
            op2 = (ch2 \<in> set OPERATORS);
            op3 = (ch3 \<in> set OPERATORS)
        in if op1 \<or> op2 \<or> op3 then
             (let tok = (if op3 then ch3 else if op2 then ch2 else ch1)
              in Inr (index + length tok, Some \<lparr>tindex = index, tok_text = tok, kind = Operator\<rparr>))
           else Inl (lex_throwError t index (J ''Unexpected next character '') (Some index) (Some (index + 1))))"

subsection \<open>Progress\<close>

text \<open>
  A token covers a slice of the text: the new index is past the old one, and the token's text is
  that slice (in lower case for a number).
\<close>

definition slice :: "jstring \<Rightarrow> nat \<Rightarrow> nat \<Rightarrow> jstring" where
  "slice t i j = take (j - i) (drop i t)"

lemma slice_snoc: "i \<le> j \<Longrightarrow> j < length t \<Longrightarrow> slice t i j @ [t ! j] = slice t i (Suc j)"
  by (simp add: slice_def Suc_diff_le take_Suc_conv_app_nth)

lemma slice_same [simp]: "slice t i i = []"
  by (simp add: slice_def)

lemma length_slice: "j \<le> length t \<Longrightarrow> length (slice t i j) = j - i"
  by (auto simp: slice_def min_def)

lemma slice_Cons: "i < j \<Longrightarrow> j \<le> length t \<Longrightarrow> slice t i j = t ! i # slice t (Suc i) j"
  by (auto simp: slice_def Cons_nth_drop_Suc [symmetric] take_Cons' Suc_diff_Suc)

lemma number_loop_slice:
  assumes "number_loop t index n = Inr (i, n')" and "start \<le> index" and "index \<le> length t"
    and "n = map lowercase_char (slice t start index)"
  shows "index \<le> i \<and> i \<le> length t \<and> n' = map lowercase_char (slice t start i)"
  using assms
proof (induction t index n arbitrary: i n' rule: number_loop.induct)
  case (1 t index number)
  have take: "number @ [lowercase_char (t ! index)] = map lowercase_char (slice t start (Suc index))"
    if "index < length t"
    using "1.prems"(2,4) that by (simp flip: slice_snoc)
  show ?case
  proof (cases "index < length t")
    case True
    note eq = number_loop.simps [of t index number]
    show ?thesis
    proof (cases "number_action t index number")
      case NumTake
      with True "1.prems"(1) have "number_loop t (Suc index) (number @ [lowercase_char (t ! index)]) = Inr (i, n')"
        by (simp add: eq)
      from "1.IH" [OF True NumTake this] take [OF True] True "1.prems"(2) show ?thesis
        by simp
    qed (use True "1.prems" eq in simp_all)
  qed (use "1.prems" number_loop.simps [of t index number] in simp)
qed

lemma ident_loop_bounds: "index \<le> length t \<Longrightarrow> index \<le> ident_loop opts t index \<and> ident_loop opts t index \<le> length t"
proof (induction opts t index rule: ident_loop.induct)
  case (1 opts t index)
  show ?case
  proof (cases "index < length t")
    case True
    with 1 peekMultichar_length [OF True] show ?thesis
      by (subst (1 2) ident_loop.simps) (auto simp: Let_def)
  qed (use 1 in \<open>subst (1 2) ident_loop.simps, simp\<close>)
qed

lemma string_loop_bounds:
  "string_loop t start quote index str raw esc = Inr (i, tok) \<Longrightarrow>
     index < i \<and> i \<le> length t \<and> tindex tok = start \<and> (\<exists>s. kind tok = Constant (Str s))"
proof (induction t start quote index str raw esc rule: string_loop.induct)
  case (1 t start quote index str raw esc)
  note eq = string_loop.simps [of t start quote index str raw esc]
  have lt: "index < length t"
    using "1.prems" by (auto simp: eq split: if_splits)
  have hex: "index + 5 \<le> length t" if "length (take 4 (drop (Suc index) t)) = 4"
    using that lt by (simp split: if_splits)
  show ?case
  proof (cases "esc \<and> t ! index = 117")
    case u: True
    let ?hex = "take 4 (drop (Suc index) t)"
    from u "1.prems" [unfolded eq Let_def] lt obtain n where n: "(if length ?hex = 4 then radix_val 16 ?hex 0 else None) = Some n"
      by (auto simp del: length_take split: option.splits)
    then have "length ?hex = 4"
      by (simp del: length_take split: if_splits)
    moreover have "string_loop t start quote (index + 4 + 1) (str @ [nat n mod 65536]) (raw @ [t ! index]) False = Inr (i, tok)"
      using u "1.prems" [unfolded eq Let_def] lt n by (simp del: length_take)
    ultimately show ?thesis
      using "1.IH"(1) [OF lt refl refl _ _ refl n] u hex by simp
  next
    case False
    show ?thesis
    proof (cases esc)
      case True
      with False "1.prems" [unfolded eq Let_def] "1.IH"(2) [OF lt refl refl] lt show ?thesis
        by simp
    next
      case no_esc: False
      with "1.prems" [unfolded eq Let_def] "1.IH"(3,4) [OF lt refl refl] lt show ?thesis
        by (auto split: if_splits)
    qed
  qed
qed

lemma readNumber_bounds:
  assumes "readNumber t start = Inr (i, tok)" and "start < length t"
    and "t ! start = 46 \<or> isNumber (t ! start)"
  shows "start < i \<and> i \<le> length t \<and> tindex tok = start \<and>
    tok_text tok = map lowercase_char (slice t start i) \<and>
    kind tok = Constant (Num (num_of_string (tok_text tok)))"
proof -
  obtain n where n: "number_loop t start [] = Inr (i, n)"
    and tok: "tok = \<lparr>tindex = start, tok_text = n, kind = Constant (Num (num_of_string n))\<rparr>"
    using assms(1) by (auto simp: readNumber_def bindE_Inr_iff)
  have "number_action t start [] = NumTake"
    using assms(3) by (auto simp: number_action_def isNumber_def lowercase_char_def Let_def)
  then have "number_loop t (Suc start) [lowercase_char (t ! start)] = Inr (i, n)"
    using n assms(2) by (subst (asm) number_loop.simps) simp
  from number_loop_slice [OF this, of start] assms(2) show ?thesis
    by (simp add: tok slice_Cons)
qed

lemma readIdent_bounds:
  assumes "readIdent opts t start = (i, tok)" and "start < length t"
  shows "start < i \<and> i \<le> length t \<and> tindex tok = start \<and> tok_text tok = slice t start i \<and> kind tok = Identifier"
proof -
  have p: "0 < length (peekMultichar t start)" "start + length (peekMultichar t start) \<le> length t"
    using peekMultichar_length [OF assms(2)] by simp_all
  from assms(1) ident_loop_bounds [OF p(2), of opts] p show ?thesis
    by (auto simp: readIdent_def Let_def slice_def simp del: length_greater_0_conv)
qed

text \<open>\<open>covers t i j tok\<close>: the token was read from the characters \<open>i\<close> to \<open>j\<close>.\<close>

definition covers :: "jstring \<Rightarrow> nat \<Rightarrow> nat \<Rightarrow> token \<Rightarrow> bool" where
  "covers t i j tok \<longleftrightarrow> tindex tok = i \<and>
     (case kind tok of
        Constant (Str s) \<Rightarrow> True
      | Constant v \<Rightarrow> tok_text tok = map lowercase_char (slice t i j) \<and> v = Num (num_of_string (tok_text tok))
      | _ \<Rightarrow> tok_text tok = slice t i j)"

lemma slice_1: "i < length t \<Longrightarrow> slice t i (Suc i) = [t ! i]"
  by (simp add: slice_Cons)

lemma operator_slice:
  assumes "index < length t"
    and "t ! index # opt_str (lex_peek t index 1) \<in> set OPERATORS"
  shows "Suc index < length t"
proof (rule ccontr)
  assume "\<not> Suc index < length t"
  then have "t ! index # J ''false'' \<in> set OPERATORS"
    using assms by (simp add: lex_peek_def opt_str_def)
  then show False
    by (auto simp: OPERATORS_def)
qed

lemma OPERATORS_length: "w \<in> set OPERATORS \<Longrightarrow> length w \<le> 3"
  by (auto simp: OPERATORS_def)

lemma operator3_slice:
  assumes "index < length t"
    and "t ! index # opt_str (lex_peek t index 1) @ opt_str (lex_peek t index 2) \<in> set OPERATORS"
  shows "Suc (Suc index) < length t"
proof (rule ccontr)
  assume no: "\<not> Suc (Suc index) < length t"
  have "length (t ! index # opt_str (lex_peek t index 1) @ opt_str (lex_peek t index 2)) \<le> 3"
    using assms(2) OPERATORS_length by blast
  with no show False
    by (auto simp: lex_peek_def opt_str_def split: if_splits)
qed

lemma lex_step_progress:
  assumes "lex_step opts t index = Inr (i, tok)" and lt: "index < length t"
  shows "index < i \<and> i \<le> length t \<and>
    (case tok of None \<Rightarrow> i = Suc index \<and> isWhitespace (t ! index) | Some k \<Rightarrow> covers t index i k)"
proof -
  let ?ch = "t ! index"
  consider (string) "?ch = 34 \<or> ?ch = 39"
    | (number) "\<not> (?ch = 34 \<or> ?ch = 39)" "isNumber ?ch \<or> ?ch = 46 \<and> isNumber_opt (lex_peek t index 1)"
    | (ident) "\<not> (?ch = 34 \<or> ?ch = 39)" "\<not> (isNumber ?ch \<or> ?ch = 46 \<and> isNumber_opt (lex_peek t index 1))"
        "isIdentifierStart opts (peekMultichar t index)"
    | (other) "\<not> (?ch = 34 \<or> ?ch = 39)" "\<not> (isNumber ?ch \<or> ?ch = 46 \<and> isNumber_opt (lex_peek t index 1))"
        "\<not> isIdentifierStart opts (peekMultichar t index)"
    by blast
  then show ?thesis
  proof cases
    case string
    with assms(1) obtain k where "readString t index = Inr (i, k)" "tok = Some k"
      by (auto simp: lex_step_def Let_def bindE_Inr_iff)
    then show ?thesis
      using string_loop_bounds by (fastforce simp: readString_def covers_def)
  next
    case number
    with assms(1) obtain k where "readNumber t index = Inr (i, k)" "tok = Some k"
      by (auto simp: lex_step_def Let_def bindE_Inr_iff)
    then show ?thesis
      using readNumber_bounds [of t index i k] lt number by (auto simp: covers_def)
  next
    case ident
    with assms(1) obtain k where "readIdent opts t index = (i, k)" "tok = Some k"
      by (auto simp: lex_step_def Let_def split: prod.splits)
    then show ?thesis
      using readIdent_bounds [of opts t index i k] lt by (auto simp: covers_def)
  next
    case other
    let ?ch2 = "?ch # opt_str (lex_peek t index 1)"
    let ?ch3 = "?ch # opt_str (lex_peek t index 1) @ opt_str (lex_peek t index 2)"
    have two: "?ch2 = slice t index (Suc (Suc index))" if "?ch2 \<in> set OPERATORS"
      using operator_slice [OF lt that] lt by (simp add: slice_Cons lex_peek_def opt_str_def)
    have three: "?ch3 = slice t index (Suc (Suc (Suc index)))" if "?ch3 \<in> set OPERATORS"
      using operator3_slice [OF lt that] lt by (simp add: slice_Cons lex_peek_def opt_str_def)
    have len: "length ?ch2 = 2" if "?ch2 \<in> set OPERATORS"
      using two [OF that] operator_slice [OF lt that] by (simp add: length_slice)
    have len3: "length ?ch3 = 3" if "?ch3 \<in> set OPERATORS"
      using three [OF that] operator3_slice [OF lt that] by (simp add: length_slice)
    show ?thesis
      using other assms(1) lt two three len len3 operator_slice [OF lt] operator3_slice [OF lt] slice_1 [OF lt]
      by (auto simp: lex_step_def Let_def covers_def length_slice numeral_3_eq_3 split: if_splits)
  qed
qed

subsection \<open>The lexer\<close>

function lex_loop :: "options \<Rightarrow> jstring \<Rightarrow> nat \<Rightarrow> token list \<Rightarrow> parse_error + token list" where
  "lex_loop opts t index tokens =
     (if index < length t then
        bindE (lex_step opts t index) (\<lambda>p.
          lex_loop opts t (fst p) (tokens @ (case snd p of Some k \<Rightarrow> [k] | None \<Rightarrow> [])))
      else Inr tokens)"
  by pat_completeness auto
termination
proof (relation "measure (\<lambda>(opts, t, index, tokens). length t - index)", goal_cases)
  case 1
  then show ?case by simp
next
  case (2 opts t index tokens p)
  then have "index < fst p"
    using lex_step_progress [of opts t index "fst p" "snd p"] by simp
  with 2 show ?case by simp
qed

declare lex_loop.simps [simp del]

definition lex :: "options \<Rightarrow> jstring \<Rightarrow> parse_error + token list" where
  "lex opts t = lex_loop opts t 0 []"

text \<open>\<open>tiles t i toks\<close>: from \<open>i\<close> on, the text is the tokens in order with white space between them.\<close>

fun tiles :: "jstring \<Rightarrow> nat \<Rightarrow> token list \<Rightarrow> bool" where
  "tiles t i [] = (\<forall>k. i \<le> k \<and> k < length t \<longrightarrow> isWhitespace (t ! k))"
| "tiles t i (tok # toks) =
     (\<exists>j. i \<le> tindex tok \<and> tindex tok < j \<and> j \<le> length t \<and>
        (\<forall>k. i \<le> k \<and> k < tindex tok \<longrightarrow> isWhitespace (t ! k)) \<and>
        covers t (tindex tok) j tok \<and> tiles t j toks)"

lemma tiles_skip:
  assumes ws: "isWhitespace (t ! i)" and "tiles t (Suc i) toks"
  shows "tiles t i toks"
proof -
  have skip: "isWhitespace (t ! k)" if "i \<le> k" "Suc i \<le> k \<Longrightarrow> isWhitespace (t ! k)" for k
    using that ws by (cases "k = i") auto
  show ?thesis
  proof (cases toks)
    case Nil
    then show ?thesis
      using assms(2) skip by auto
  next
    case (Cons tok ts)
    with assms(2) obtain j where "Suc i \<le> tindex tok" "tindex tok < j" "j \<le> length t"
      "\<forall>k. Suc i \<le> k \<and> k < tindex tok \<longrightarrow> isWhitespace (t ! k)" "covers t (tindex tok) j tok" "tiles t j ts"
      by auto
    then show ?thesis
      unfolding Cons tiles.simps using skip by (intro exI [of _ j]) auto
  qed
qed

lemma lex_loop_tiles:
  "lex_loop opts t index acc = Inr toks \<Longrightarrow> \<exists>ts. toks = acc @ ts \<and> tiles t index ts"
proof (induction opts t index acc rule: lex_loop.induct)
  case (1 opts t index acc)
  show ?case
  proof (cases "index < length t")
    case True
    with "1.prems" obtain i tok where step: "lex_step opts t index = Inr (i, tok)"
      and rest: "lex_loop opts t i (acc @ (case tok of Some k \<Rightarrow> [k] | None \<Rightarrow> [])) = Inr toks"
      by (subst (asm) lex_loop.simps) (auto simp: bindE_Inr_iff)
    obtain ts where ts: "toks = (acc @ (case tok of Some k \<Rightarrow> [k] | None \<Rightarrow> [])) @ ts" "tiles t i ts"
      using "1.IH" [OF True step] rest by auto
    show ?thesis
    proof (cases tok)
      case None
      with ts lex_step_progress [OF step True] show ?thesis
        by (auto intro: tiles_skip)
    next
      case (Some k)
      with lex_step_progress [OF step True] ts(2) have "tiles t index (k # ts)"
        by (auto simp: covers_def)
      with ts(1) Some show ?thesis by auto
    qed
  next
    case False
    with "1.prems" show ?thesis
      by (subst (asm) lex_loop.simps) auto
  qed
qed

lemma lex_not_fuel: "lex opts t = Inl e \<Longrightarrow> \<exists>m c. e = LexErr m c"
proof -
  have num: "number_loop t i n = Inl e \<Longrightarrow> \<exists>m c. e = LexErr m c" for t i n
    by (induction t i n rule: number_loop.induct)
      (subst (asm) (2) number_loop.simps, auto simp: lex_throwError_def split: if_splits number_action.splits)
  have str: "string_loop t st q i s r b = Inl e \<Longrightarrow> \<exists>m c. e = LexErr m c" for t st q i s r b
    by (induction t st q i s r b rule: string_loop.induct)
      (subst (asm) (5) string_loop.simps, auto simp: Let_def lex_throwError_def split: if_splits option.splits)
  have step: "lex_step opts t i = Inl e \<Longrightarrow> \<exists>m c. e = LexErr m c" for opts t i
    using num str by (auto simp: lex_step_def readNumber_def readString_def Let_def lex_throwError_def bindE_def
        split: if_splits sum.splits prod.splits)
  have "lex_loop opts t i acc = Inl e \<Longrightarrow> \<exists>m c. e = LexErr m c" for i acc
    by (induction opts t i acc rule: lex_loop.induct)
      (subst (asm) (2) lex_loop.simps, auto simp: bindE_def step split: if_splits sum.splits)
  then show "lex opts t = Inl e \<Longrightarrow> \<exists>m c. e = LexErr m c"
    by (simp add: lex_def)
qed

end
