(* ===== verification/NgAst.thy ===== *)
theory NgAst
  imports NgLexer
begin

section \<open>Expressions: the syntax tree and its parser\<close>

text \<open>
  \<open>AST.prototype\<close>: a recursive descent parser over the token list. A parsing function takes the
  remaining tokens and returns the node with the tokens left, or the error thrown. Every cycle of
  the grammar passes through \<open>expression\<close> (which is \<open>assignment\<close>), so each function takes that
  one as the argument \<open>E\<close> and the knot is tied once, with fuel, in \<open>expression\<close>. A \<open>while\<close> loop
  counts down from the number of tokens, since each turn consumes one. \<open>OutOfFuel\<close> marks an
  exhausted counter; that it never occurs is proved below.
\<close>

datatype 'a prop_key = KeyIdent jstring | KeyConst val | KeyComputed 'a

datatype ast =
  Literal val
| IdentifierE jstring
| UnaryE jstring ast
| BinaryE jstring ast ast
| LogicalE jstring ast ast
| ConditionalE ast ast ast
| AssignmentE ast ast
| MemberE ast jstring
| ComputedMemberE ast ast
| CallE ast "ast list"
| FilterE jstring "ast list"
| ArrayE "ast list"
| ObjectE "(ast prop_key \<times> ast) list"
| ThisE
| LocalsE
| NGValueParameter

type_synonym parser = "token list \<Rightarrow> parse_error + ast \<times> token list"
type_synonym list_parser = "token list \<Rightarrow> parse_error + ast list \<times> token list"

definition isAssignable :: "ast \<Rightarrow> bool" where
  "isAssignable a = (case a of
       IdentifierE _ \<Rightarrow> True | MemberE _ _ \<Rightarrow> True | ComputedMemberE _ _ \<Rightarrow> True | _ \<Rightarrow> False)"

subsection \<open>Token access\<close>

definition peekAhead :: "token list \<Rightarrow> nat \<Rightarrow> jstring list \<Rightarrow> token option" where
  "peekAhead ts i es =
     (if i < length ts then
        (if tok_text (ts ! i) \<in> set es \<or> es = [] then Some (ts ! i) else None)
      else None)"

definition peek :: "token list \<Rightarrow> jstring list \<Rightarrow> token option" where
  "peek ts es = peekAhead ts 0 es"

definition expect :: "token list \<Rightarrow> jstring list \<Rightarrow> (token \<times> token list) option" where
  "expect ts es = (case peek ts es of Some tok \<Rightarrow> Some (tok, tl ts) | None \<Rightarrow> None)"

definition throwError :: "jstring \<Rightarrow> token \<Rightarrow> parse_error" where
  "throwError msg tok = SyntaxErr (tok_text tok) msg (tindex tok + 1)"

definition consume :: "token list \<Rightarrow> jstring list \<Rightarrow> parse_error + token \<times> token list" where
  "consume ts es =
     (if ts = [] then Inl UeoeErr
      else case expect ts es of
          Some p \<Rightarrow> Inr p
        | None \<Rightarrow> Inl (throwError (J ''is unexpected, expecting ['' @ concat es @ J '']'') (hd ts)))"

definition peekToken :: "token list \<Rightarrow> parse_error + token" where
  "peekToken ts = (if ts = [] then Inl UeoeErr else Inr (hd ts))"

subsection \<open>Leaves\<close>

definition identifier_name :: "token list \<Rightarrow> parse_error + jstring \<times> token list" where
  "identifier_name ts =
     bindE (consume ts []) (\<lambda>(tok, ts').
       if kind tok \<noteq> Identifier then Inl (throwError (J ''is not a valid identifier'') tok)
       else Inr (tok_text tok, ts'))"

definition parse_identifier :: parser where
  "parse_identifier ts = bindE (identifier_name ts) (\<lambda>(n, ts'). Inr (IdentifierE n, ts'))"

text \<open>A token that is not a constant has no \<open>value\<close>: reading it gives \<open>undefined\<close>.\<close>

definition token_value :: "token \<Rightarrow> val" where
  "token_value tok = (case kind tok of Constant v \<Rightarrow> v | _ \<Rightarrow> Undef)"

definition constant_value :: "token list \<Rightarrow> parse_error + val \<times> token list" where
  "constant_value ts = bindE (consume ts []) (\<lambda>(tok, ts'). Inr (token_value tok, ts'))"

definition is_constant :: "token option \<Rightarrow> bool" where
  "is_constant tok = (case tok of Some k \<Rightarrow> (case kind k of Constant _ \<Rightarrow> True | _ \<Rightarrow> False) | None \<Rightarrow> False)"

definition is_identifier :: "token option \<Rightarrow> bool" where
  "is_identifier tok = (case tok of Some k \<Rightarrow> kind k = Identifier | None \<Rightarrow> False)"

definition selfReferential :: "(jstring \<times> ast) list" where
  "selfReferential = [(J ''this'', ThisE), (J ''$locals'', LocalsE)]"

text \<open>\<open>this.peek().text\<close>: at the end \<open>peek()\<close> is \<open>false\<close>, whose \<open>text\<close> is the key \<open>undefined\<close>.\<close>

definition peek_text :: "token list \<Rightarrow> jstring" where
  "peek_text ts = (case ts of [] \<Rightarrow> J ''undefined'' | tok # _ \<Rightarrow> tok_text tok)"

subsection \<open>Lists of expressions\<close>

text \<open>\<open>do { args.push(p()) } while (expect(sep))\<close>, with a check before each element.\<close>

fun elements_loop ::
  "(token list \<Rightarrow> bool) \<Rightarrow> (token list \<Rightarrow> parse_error + 'a \<times> token list) \<Rightarrow> nat \<Rightarrow> 'a list \<Rightarrow> token list
     \<Rightarrow> parse_error + 'a list \<times> token list" where
  "elements_loop stop p 0 acc ts = Inl OutOfFuel"
| "elements_loop stop p (Suc n) acc ts =
     (if stop ts then Inr (acc, ts)
      else bindE (p ts) (\<lambda>(x, ts').
        case expect ts' [J '',''] of
          Some (_, ts'') \<Rightarrow> elements_loop stop p n (acc @ [x]) ts''
        | None \<Rightarrow> Inr (acc @ [x], ts')))"

text \<open>The arguments of a filter: \<open>while (expect(':')) args.push(expression())\<close>.\<close>

fun filter_loop :: "parser \<Rightarrow> nat \<Rightarrow> ast list \<Rightarrow> token list \<Rightarrow> parse_error + ast list \<times> token list" where
  "filter_loop E 0 args ts = Inl OutOfFuel"
| "filter_loop E (Suc n) args ts =
     (case expect ts [J '':''] of
        Some (_, ts') \<Rightarrow> bindE (E ts') (\<lambda>(a, ts''). filter_loop E n (args @ [a]) ts'')
      | None \<Rightarrow> Inr (args, ts))"

definition parse_filter :: "parser \<Rightarrow> ast \<Rightarrow> parser" where
  "parse_filter E base ts =
     bindE (identifier_name ts) (\<lambda>(n, ts').
     bindE (filter_loop E (Suc (length ts')) [base] ts') (\<lambda>(args, ts''). Inr (FilterE n args, ts'')))"

fun filterChain_loop :: "parser \<Rightarrow> nat \<Rightarrow> ast \<Rightarrow> parser" where
  "filterChain_loop E 0 left ts = Inl OutOfFuel"
| "filterChain_loop E (Suc n) left ts =
     (case expect ts [J ''|''] of
        Some (_, ts') \<Rightarrow> bindE (parse_filter E left ts') (\<lambda>(left', ts''). filterChain_loop E n left' ts'')
      | None \<Rightarrow> Inr (left, ts))"

definition filterChain :: "parser \<Rightarrow> parser" where
  "filterChain E ts = bindE (E ts) (\<lambda>(left, ts'). filterChain_loop E (Suc (length ts')) left ts')"

definition parseArguments :: "parser \<Rightarrow> list_parser" where
  "parseArguments E ts =
     bindE (peekToken ts) (\<lambda>tok.
       if tok_text tok = J '')'' then Inr ([], ts)
       else elements_loop (\<lambda>_. False) (filterChain E) (Suc (length ts)) [] ts)"

definition arrayDeclaration :: "parser \<Rightarrow> parser" where
  "arrayDeclaration E ts =
     bindE (peekToken ts) (\<lambda>tok.
     bindE (if tok_text tok = J '']'' then Inr ([], ts)
            else elements_loop (\<lambda>us. peek us [J '']''] \<noteq> None) E (Suc (length ts)) [] ts) (\<lambda>(es, ts').
     bindE (consume ts' [J '']'']) (\<lambda>(_, ts''). Inr (ArrayE es, ts''))))"

definition object_property :: "parser \<Rightarrow> token list \<Rightarrow> parse_error + (ast prop_key \<times> ast) \<times> token list" where
  "object_property E ts =
     (if is_constant (peek ts []) then
        bindE (constant_value ts) (\<lambda>(k, t1). bindE (consume t1 [J '':'']) (\<lambda>(_, t2).
        bindE (E t2) (\<lambda>(v, t3). Inr ((KeyConst k, v), t3))))
      else if is_identifier (peek ts []) then
        bindE (identifier_name ts) (\<lambda>(k, t1).
          if peek t1 [J '':''] \<noteq> None then
            bindE (consume t1 [J '':'']) (\<lambda>(_, t2). bindE (E t2) (\<lambda>(v, t3). Inr ((KeyIdent k, v), t3)))
          else Inr ((KeyIdent k, IdentifierE k), t1))
      else if peek ts [J ''[''] \<noteq> None then
        bindE (consume ts [J ''['']) (\<lambda>(_, t1). bindE (E t1) (\<lambda>(k, t2).
        bindE (consume t2 [J '']'']) (\<lambda>(_, t3). bindE (consume t3 [J '':'']) (\<lambda>(_, t4).
        bindE (E t4) (\<lambda>(v, t5). Inr ((KeyComputed k, v), t5))))))
      else case ts of
          tok # _ \<Rightarrow> Inl (throwError (J ''invalid key'') tok)
        | [] \<Rightarrow> Inl (SyntaxErr (J ''undefined'') (J ''invalid key'') 0))"

definition object :: "parser \<Rightarrow> parser" where
  "object E ts =
     bindE (peekToken ts) (\<lambda>tok.
     bindE (if tok_text tok = J ''}'' then Inr ([], ts)
            else elements_loop (\<lambda>us. peek us [J ''}''] \<noteq> None) (object_property E) (Suc (length ts)) [] ts)
       (\<lambda>(ps, ts').
     bindE (consume ts' [J ''}'']) (\<lambda>(_, ts''). Inr (ObjectE ps, ts''))))"

subsection \<open>Primary expressions\<close>

definition primary_base :: "options \<Rightarrow> parser \<Rightarrow> parser" where
  "primary_base opts E ts =
     (case expect ts [J ''(''] of
        Some (_, t1) \<Rightarrow>
          bindE (filterChain E t1) (\<lambda>(e, t2). bindE (consume t2 [J '')'']) (\<lambda>(_, t3). Inr (e, t3)))
      | None \<Rightarrow>
     (case expect ts [J ''[''] of
        Some (_, t1) \<Rightarrow> arrayDeclaration E t1
      | None \<Rightarrow>
     (case expect ts [J ''{''] of
        Some (_, t1) \<Rightarrow> object E t1
      | None \<Rightarrow>
     (case map_of selfReferential (peek_text ts) of
        Some e \<Rightarrow> bindE (consume ts []) (\<lambda>(_, t1). Inr (e, t1))
      | None \<Rightarrow>
     (case map_of (literals opts) (peek_text ts) of
        Some v \<Rightarrow> bindE (consume ts []) (\<lambda>(_, t1). Inr (Literal v, t1))
      | None \<Rightarrow>
        if is_identifier (peek ts []) then parse_identifier ts
        else if is_constant (peek ts []) then
          bindE (constant_value ts) (\<lambda>(v, t1). Inr (Literal v, t1))
        else case ts of
            tok # _ \<Rightarrow> Inl (throwError (J ''not a primary expression'') tok)
          | [] \<Rightarrow> Inl (SyntaxErr (J ''undefined'') (J ''not a primary expression'') 0))))))"

fun primary_loop :: "parser \<Rightarrow> nat \<Rightarrow> ast \<Rightarrow> parser" where
  "primary_loop E 0 prim ts = Inl OutOfFuel"
| "primary_loop E (Suc n) prim ts =
     (case expect ts [J ''('', J ''['', J ''.''] of
        None \<Rightarrow> Inr (prim, ts)
      | Some (nxt, t1) \<Rightarrow>
          if tok_text nxt = J ''('' then
            bindE (parseArguments E t1) (\<lambda>(args, t2).
            bindE (consume t2 [J '')'']) (\<lambda>(_, t3). primary_loop E n (CallE prim args) t3))
          else if tok_text nxt = J ''['' then
            bindE (E t1) (\<lambda>(p, t2).
            bindE (consume t2 [J '']'']) (\<lambda>(_, t3). primary_loop E n (ComputedMemberE prim p) t3))
          else
            bindE (identifier_name t1) (\<lambda>(p, t2). primary_loop E n (MemberE prim p) t2))"

definition primary :: "options \<Rightarrow> parser \<Rightarrow> parser" where
  "primary opts E ts =
     bindE (primary_base opts E ts) (\<lambda>(e, t1). primary_loop E (Suc (length t1)) e t1)"

subsection \<open>Operators\<close>

fun unary :: "options \<Rightarrow> parser \<Rightarrow> parser" where
  "unary opts E [] = primary opts E []"
| "unary opts E (tok # ts) =
     (if tok_text tok \<in> {J ''+'', J ''-'', J ''!''} then
        bindE (unary opts E ts) (\<lambda>(a, ts'). Inr (UnaryE (tok_text tok) a, ts'))
      else primary opts E (tok # ts))"

text \<open>\<open>while ((token = expect(ops))) left = mk(token.text, left, next())\<close>\<close>

fun binary_loop :: "(jstring \<Rightarrow> ast \<Rightarrow> ast \<Rightarrow> ast) \<Rightarrow> jstring list \<Rightarrow> parser \<Rightarrow> nat \<Rightarrow> ast \<Rightarrow> parser" where
  "binary_loop mk ops nxt 0 left ts = Inl OutOfFuel"
| "binary_loop mk ops nxt (Suc n) left ts =
     (case expect ts ops of
        Some (tok, ts') \<Rightarrow> bindE (nxt ts') (\<lambda>(right, ts''). binary_loop mk ops nxt n (mk (tok_text tok) left right) ts'')
      | None \<Rightarrow> Inr (left, ts))"

definition binary_level :: "(jstring \<Rightarrow> ast \<Rightarrow> ast \<Rightarrow> ast) \<Rightarrow> jstring list \<Rightarrow> parser \<Rightarrow> parser" where
  "binary_level mk ops nxt ts =
     bindE (nxt ts) (\<lambda>(left, ts'). binary_loop mk ops nxt (Suc (length ts')) left ts')"

definition multiplicative :: "options \<Rightarrow> parser \<Rightarrow> parser" where
  "multiplicative opts E = binary_level BinaryE [J ''*'', J ''/'', J ''%''] (unary opts E)"

definition additive :: "options \<Rightarrow> parser \<Rightarrow> parser" where
  "additive opts E = binary_level BinaryE [J ''+'', J ''-''] (multiplicative opts E)"

definition relational :: "options \<Rightarrow> parser \<Rightarrow> parser" where
  "relational opts E = binary_level BinaryE [J ''<'', J ''>'', J ''<='', J ''>=''] (additive opts E)"

definition equality :: "options \<Rightarrow> parser \<Rightarrow> parser" where
  "equality opts E = binary_level BinaryE [J ''=='', J ''!='', J ''==='', J ''!==''] (relational opts E)"

definition logicalAND :: "options \<Rightarrow> parser \<Rightarrow> parser" where
  "logicalAND opts E = binary_level LogicalE [J ''&&''] (equality opts E)"

definition logicalOR :: "options \<Rightarrow> parser \<Rightarrow> parser" where
  "logicalOR opts E = binary_level LogicalE [J ''||''] (logicalAND opts E)"

definition ternary :: "options \<Rightarrow> parser \<Rightarrow> parser" where
  "ternary opts E ts =
     bindE (logicalOR opts E ts) (\<lambda>(test, t1).
       case expect t1 [J ''?''] of
         Some (_, t2) \<Rightarrow>
           bindE (E t2) (\<lambda>(alternate, t3).
           bindE (consume t3 [J '':'']) (\<lambda>(_, t4).
           bindE (E t4) (\<lambda>(consequent, t5). Inr (ConditionalE test alternate consequent, t5))))
       | None \<Rightarrow> Inr (test, t1))"

definition assignment :: "options \<Rightarrow> parser \<Rightarrow> parser" where
  "assignment opts E ts =
     bindE (ternary opts E ts) (\<lambda>(result, t1).
       case expect t1 [J ''=''] of
         Some (_, t2) \<Rightarrow>
           if \<not> isAssignable result then Inl LvalErr
           else bindE (E t2) (\<lambda>(right, t3). Inr (AssignmentE result right, t3))
       | None \<Rightarrow> Inr (result, t1))"

fun expression :: "options \<Rightarrow> nat \<Rightarrow> parser" where
  "expression opts 0 ts = Inl OutOfFuel"
| "expression opts (Suc n) ts = assignment opts (expression opts n) ts"

subsection \<open>Programs\<close>

fun program_loop :: "parser \<Rightarrow> nat \<Rightarrow> ast list \<Rightarrow> list_parser" where
  "program_loop E 0 body ts = Inl OutOfFuel"
| "program_loop E (Suc n) body ts =
     bindE (if ts \<noteq> [] \<and> peek ts [J ''}'', J '')'', J '';'', J '']''] = None
            then bindE (filterChain E ts) (\<lambda>(e, t1). Inr (body @ [e], t1))
            else Inr (body, ts)) (\<lambda>(body', t1).
       case expect t1 [J '';''] of
         Some (_, t2) \<Rightarrow> program_loop E n body' t2
       | None \<Rightarrow> Inr (body', t1))"

definition program :: "options \<Rightarrow> list_parser" where
  "program opts ts = program_loop (expression opts (Suc (length ts))) (Suc (length ts)) [] ts"

definition ast_of :: "options \<Rightarrow> jstring \<Rightarrow> parse_error + ast list" where
  "ast_of opts t =
     bindE (lex opts t) (\<lambda>tokens. bindE (program opts tokens) (\<lambda>(body, rest).
       case rest of
         [] \<Rightarrow> Inr body
       | tok # _ \<Rightarrow> Inl (throwError (J ''is an unexpected token'') tok)))"

definition default_options :: options where
  "default_options = \<lparr>opt_isIdentifierStart = None, opt_isIdentifierContinue = None,
     literals = [(J ''true'', Boolean True), (J ''false'', Boolean False), (J ''null'', Null),
       (J ''undefined'', Undef)]\<rparr>"

end
