(* ===== verification/NgConst.thy ===== *)
theory NgConst
  imports NgAst
begin

section \<open>Expressions: constants, watched inputs and assignability\<close>

text \<open>
  \<open>findConstantAndWatchExpressions\<close> decorates each node with \<open>isPure\<close>, \<open>constant\<close> and \<open>toWatch\<close>.
  Nodes are objects with an identity in the code; here a node is named by its path, the list of
  child positions from the expression statement down. The decoration of a node is computed as the
  record \<open>info\<close>, and the nodes to watch as paths with their expression and purity.
\<close>

datatype purity = Impure | PurityAbsolute | PurityRelative

datatype filter_info = Stateless | Stateful

type_synonym path = "nat list"

record watch =
  watch_path :: path
  watch_expr :: ast
  watch_pure :: purity

record info =
  is_const :: bool
  toWatch :: "watch list"

definition ifDefined :: "val \<Rightarrow> val \<Rightarrow> val" where
  "ifDefined v d = (if v \<noteq> Undef then v else d)"

definition isStateless :: "(jstring \<Rightarrow> filter_info) \<Rightarrow> jstring \<Rightarrow> bool" where
  "isStateless flt name = (flt name = Stateless)"

text \<open>\<open>None\<close> for the purity of the parent is the omitted argument.\<close>

definition isPure :: "ast \<Rightarrow> purity option \<Rightarrow> purity" where
  "isPure node parent =
     (let rest = (case parent of None \<Rightarrow> PurityRelative | Some p \<Rightarrow> p) in
      case node of
        ComputedMemberE _ _ \<Rightarrow> Impure
      | UnaryE _ _ \<Rightarrow> PurityAbsolute
      | BinaryE op _ _ \<Rightarrow> if op \<noteq> J ''+'' then PurityAbsolute else Impure
      | CallE _ _ \<Rightarrow> Impure
      | FilterE _ _ \<Rightarrow> Impure
      | _ \<Rightarrow> rest)"

definition watch_self :: "path \<Rightarrow> ast \<Rightarrow> purity \<Rightarrow> watch" where
  "watch_self p a pure = \<lparr>watch_path = p, watch_expr = a, watch_pure = pure\<rparr>"

text \<open>
  The path of a child: the operands are numbered from 0; a computed property contributes its value
  and its key, at \<open>2 * i\<close> and \<open>2 * i + 1\<close>.
\<close>

function (sequential) findConstantAndWatchExpressions ::
      "(jstring \<Rightarrow> filter_info) \<Rightarrow> purity option \<Rightarrow> path \<Rightarrow> ast \<Rightarrow> info"
  and find_key :: "(jstring \<Rightarrow> filter_info) \<Rightarrow> path \<Rightarrow> ast prop_key \<Rightarrow> info"
  and find_args :: "(jstring \<Rightarrow> filter_info) \<Rightarrow> purity \<Rightarrow> path \<Rightarrow> nat \<Rightarrow> ast list \<Rightarrow> info"
  and find_props :: "(jstring \<Rightarrow> filter_info) \<Rightarrow> purity \<Rightarrow> path \<Rightarrow> nat \<Rightarrow> (ast prop_key \<times> ast) list \<Rightarrow> info"
where
  "findConstantAndWatchExpressions flt parent p (Literal v) = \<lparr>is_const = True, toWatch = []\<rparr>"
| "findConstantAndWatchExpressions flt parent p (UnaryE op a) =
     findConstantAndWatchExpressions flt (Some (isPure (UnaryE op a) parent)) (p @ [0]) a"
| "findConstantAndWatchExpressions flt parent p (BinaryE op l r) =
     (let pure = Some (isPure (BinaryE op l r) parent);
          il = findConstantAndWatchExpressions flt pure (p @ [0]) l;
          ir = findConstantAndWatchExpressions flt pure (p @ [1]) r
      in \<lparr>is_const = is_const il \<and> is_const ir, toWatch = toWatch il @ toWatch ir\<rparr>)"
| "findConstantAndWatchExpressions flt parent p (LogicalE op l r) =
     (let pure = isPure (LogicalE op l r) parent;
          il = findConstantAndWatchExpressions flt (Some pure) (p @ [0]) l;
          ir = findConstantAndWatchExpressions flt (Some pure) (p @ [1]) r;
          c = (is_const il \<and> is_const ir)
      in \<lparr>is_const = c, toWatch = if c then [] else [watch_self p (LogicalE op l r) pure]\<rparr>)"
| "findConstantAndWatchExpressions flt parent p (ConditionalE t a b) =
     (let pure = isPure (ConditionalE t a b) parent;
          it = findConstantAndWatchExpressions flt (Some pure) (p @ [0]) t;
          ia = findConstantAndWatchExpressions flt (Some pure) (p @ [1]) a;
          ib = findConstantAndWatchExpressions flt (Some pure) (p @ [2]) b;
          c = (is_const it \<and> is_const ia \<and> is_const ib)
      in \<lparr>is_const = c, toWatch = if c then [] else [watch_self p (ConditionalE t a b) pure]\<rparr>)"
| "findConstantAndWatchExpressions flt parent p (IdentifierE n) =
     \<lparr>is_const = False, toWatch = [watch_self p (IdentifierE n) (isPure (IdentifierE n) parent)]\<rparr>"
| "findConstantAndWatchExpressions flt parent p (MemberE b n) =
     (let pure = isPure (MemberE b n) parent;
          ib = findConstantAndWatchExpressions flt (Some pure) (p @ [0]) b
      in \<lparr>is_const = is_const ib,
          toWatch = if is_const ib then [] else [watch_self p (MemberE b n) pure]\<rparr>)"
| "findConstantAndWatchExpressions flt parent p (ComputedMemberE b k) =
     (let pure = isPure (ComputedMemberE b k) parent;
          ib = findConstantAndWatchExpressions flt (Some pure) (p @ [0]) b;
          ik = findConstantAndWatchExpressions flt (Some pure) (p @ [1]) k;
          c = (is_const ib \<and> is_const ik)
      in \<lparr>is_const = c, toWatch = if c then [] else [watch_self p (ComputedMemberE b k) pure]\<rparr>)"
| "findConstantAndWatchExpressions flt parent p (CallE f args) =
     \<lparr>is_const = False, toWatch = [watch_self p (CallE f args) (isPure (CallE f args) parent)]\<rparr>"
| "findConstantAndWatchExpressions flt parent p (FilterE n args) =
     (let pure = isPure (FilterE n args) parent;
          stateless = isStateless flt n;
          i = find_args flt pure p 0 args
      in \<lparr>is_const = stateless \<and> is_const i,
          toWatch = if stateless then toWatch i else [watch_self p (FilterE n args) pure]\<rparr>)"
| "findConstantAndWatchExpressions flt parent p (AssignmentE l r) =
     (let pure = isPure (AssignmentE l r) parent;
          il = findConstantAndWatchExpressions flt (Some pure) (p @ [0]) l;
          ir = findConstantAndWatchExpressions flt (Some pure) (p @ [1]) r
      in \<lparr>is_const = is_const il \<and> is_const ir, toWatch = [watch_self p (AssignmentE l r) pure]\<rparr>)"
| "findConstantAndWatchExpressions flt parent p (ArrayE es) =
     find_args flt (isPure (ArrayE es) parent) p 0 es"
| "findConstantAndWatchExpressions flt parent p (ObjectE ps) =
     find_props flt (isPure (ObjectE ps) parent) p 0 ps"
| "findConstantAndWatchExpressions flt parent p ThisE = \<lparr>is_const = False, toWatch = []\<rparr>"
| "findConstantAndWatchExpressions flt parent p LocalsE = \<lparr>is_const = False, toWatch = []\<rparr>"
| "findConstantAndWatchExpressions flt parent p NGValueParameter = \<lparr>is_const = False, toWatch = []\<rparr>"
| "find_key flt p (KeyComputed k) = findConstantAndWatchExpressions flt (Some Impure) p k"
| "find_key flt p (KeyIdent n) = \<lparr>is_const = True, toWatch = []\<rparr>"
| "find_key flt p (KeyConst v) = \<lparr>is_const = True, toWatch = []\<rparr>"
| "find_args flt pure p i [] = \<lparr>is_const = True, toWatch = []\<rparr>"
| "find_args flt pure p i (e # es) =
     (let ie = findConstantAndWatchExpressions flt (Some pure) (p @ [i]) e;
          ir = find_args flt pure p (Suc i) es
      in \<lparr>is_const = is_const ie \<and> is_const ir, toWatch = toWatch ie @ toWatch ir\<rparr>)"
| "find_props flt pure p i [] = \<lparr>is_const = True, toWatch = []\<rparr>"
| "find_props flt pure p i ((k, v) # ps) =
     (let iv = findConstantAndWatchExpressions flt (Some pure) (p @ [2 * i]) v;
          ik = find_key flt (p @ [2 * i + 1]) k;
          ir = find_props flt pure p (Suc i) ps
      in \<lparr>is_const = is_const iv \<and> is_const ik \<and> is_const ir,
          toWatch = toWatch iv @ toWatch ik @ toWatch ir\<rparr>)"
  by pat_completeness auto

termination
  by (relation "measure (\<lambda>x. case x of
       Inl (Inl (_, _, _, a)) \<Rightarrow> size a
     | Inl (Inr (_, _, k)) \<Rightarrow> size_prop_key size k
     | Inr (Inl (_, _, _, _, es)) \<Rightarrow> size_list size es
     | Inr (Inr (_, _, _, _, ps)) \<Rightarrow> size_list (size_prod (size_prop_key size) size) ps)") auto

text \<open>The program node: each statement is decorated under its own position.\<close>

definition find_program :: "(jstring \<Rightarrow> filter_info) \<Rightarrow> ast list \<Rightarrow> info list" where
  "find_program flt body =
     map (\<lambda>(i, e). findConstantAndWatchExpressions flt (Some PurityRelative) [i] e)
       (zip [0..<length body] body)"

definition isConstant :: "(jstring \<Rightarrow> filter_info) \<Rightarrow> ast list \<Rightarrow> bool" where
  "isConstant flt body = list_all is_const (find_program flt body)"

definition getInputs :: "(jstring \<Rightarrow> filter_info) \<Rightarrow> ast list \<Rightarrow> watch list option" where
  "getInputs flt body =
     (case find_program flt body of
        [i] \<Rightarrow>
          (case toWatch i of
             [w] \<Rightarrow> if watch_path w \<noteq> [0] then Some [w] else None
           | ws \<Rightarrow> Some ws)
      | _ \<Rightarrow> None)"

definition assignableAST :: "ast list \<Rightarrow> ast option" where
  "assignableAST body =
     (case body of
        [e] \<Rightarrow> if isAssignable e then Some (AssignmentE e NGValueParameter) else None
      | _ \<Rightarrow> None)"

definition isLiteral :: "ast list \<Rightarrow> bool" where
  "isLiteral body =
     (case body of
        [] \<Rightarrow> True
      | [e] \<Rightarrow> (case e of Literal _ \<Rightarrow> True | ArrayE _ \<Rightarrow> True | ObjectE _ \<Rightarrow> True | _ \<Rightarrow> False)
      | _ \<Rightarrow> False)"

subsection \<open>The watched nodes lie below the expression\<close>

end
