(* ===== verification/NgInterp.thy ===== *)
theory NgInterp
  imports NgConst
begin

section \<open>Expressions: the interpreter\<close>

text \<open>
  \<open>ASTInterpreter\<close>. Compiling a node gives a closure over \<open>scope\<close>, \<open>locals\<close>, \<open>assign\<close> and
  \<open>inputs\<close>; here \<open>interp\<close> is that closure applied to the record \<open>env\<close> of the four. The code
  compiles a node with the flag \<open>context\<close> when it needs the triple of context object, name and
  value; the model always returns the triple and the callers that compile without the flag read
  its last part. \<open>create\<close> is \<open>NoCreate\<close>, \<open>CreateOne\<close> (the literal 1) or \<open>CreateTrue\<close>. The
  decoration \<open>ast.input\<close> with \<open>watchId\<close> is the map \<open>W\<close> from paths to positions in \<open>inputs\<close>.
  The functions registered as filters are the parameter \<open>F\<close>.
\<close>

datatype create = NoCreate | CreateOne | CreateTrue

record env =
  env_scope :: val
  env_locals :: val
  env_assign :: val
  env_inputs :: "val list option"

type_synonym ref3 = "val \<times> jstring \<times> val"

definition just :: "val \<Rightarrow> ref3" where
  "just v = (Undef, J ''undefined'', v)"

definition ref_value :: "ref3 \<Rightarrow> val" where
  "ref_value r = snd (snd r)"

lemma ref_value_simps[simp]: "ref_value (c, n, v) = v" "ref_value (just v) = v"
  by (simp_all add: ref_value_def just_def)

text \<open>\<open>getStringValue(name)\<close> is \<open>name + ''\<close>.\<close>

definition getStringValue :: "host \<Rightarrow> val \<Rightarrow> jstring js" where
  "getStringValue H v = bindJ (js_plus H v (Str [])) (\<lambda>s. retJ (prim_to_string s))"

definition plusFn :: "host \<Rightarrow> val \<Rightarrow> val \<Rightarrow> val js" where
  "plusFn H l r = (if l = Undef then retJ r else if r = Undef then retJ l else js_plus H l r)"

subsection \<open>Operators on values\<close>

definition unary_op :: "host \<Rightarrow> jstring \<Rightarrow> val \<Rightarrow> val js" where
  "unary_op H op v =
     (if op = J ''+'' then
        (if v \<noteq> Undef then bindJ (to_number H v) (\<lambda>n. retJ (Num n)) else retJ (Num (Fin 0)))
      else if op = J ''-'' then
        (if v \<noteq> Undef then bindJ (to_number H v) (\<lambda>n. retJ (Num (num_neg n))) else retJ (Num NZero))
      else if op = J ''!'' then retJ (Boolean (\<not> truthy v))
      else throwJ TypeError)"

definition binary_op :: "host \<Rightarrow> jstring \<Rightarrow> val \<Rightarrow> val \<Rightarrow> val js" where
  "binary_op H op l r =
     (let bool = (\<lambda>m. bindJ m (\<lambda>b. retJ (Boolean b))) in
      if op = J ''+'' then plusFn H l r
      else if op = J ''-'' then js_arith H num_sub (ifDefined l (Num (Fin 0))) (ifDefined r (Num (Fin 0)))
      else if op = J ''*'' then js_arith H num_mul l r
      else if op = J ''/'' then js_arith H num_div l r
      else if op = J ''%'' then js_arith H num_mod l r
      else if op = J ''==='' then retJ (Boolean (strict_eq l r))
      else if op = J ''!=='' then retJ (Boolean (\<not> strict_eq l r))
      else if op = J ''=='' then bool (js_eq H l r)
      else if op = J ''!='' then bool (bindJ (js_eq H l r) (\<lambda>b. retJ (\<not> b)))
      else if op = J ''<'' then bool (js_compare H (<) num_lt l r)
      else if op = J ''>'' then bool (js_compare H (>) (\<lambda>m n. num_lt n m) l r)
      else if op = J ''<='' then bool (js_compare H (\<le>) num_le l r)
      else if op = J ''>='' then bool (js_compare H (\<ge>) (\<lambda>m n. num_le n m) l r)
      else throwJ TypeError)"

subsection \<open>Names and members\<close>

text \<open>\<open>identifier\<close>: the name is looked up in the locals when they have it, else in the scope.\<close>

definition name_base :: "env \<Rightarrow> jstring \<Rightarrow> val js" where
  "name_base env name =
     (if truthy (env_locals env) then
        bindJ (has_v (env_locals env) name) (\<lambda>b. retJ (if b then env_locals env else env_scope env))
      else retJ (env_scope env))"

definition create_in :: "host \<Rightarrow> (val \<Rightarrow> bool) \<Rightarrow> val \<Rightarrow> jstring \<Rightarrow> unit js" where
  "create_in H missing base name =
     bindJ (get_v H base name) (\<lambda>v.
       if missing v then bindJ (new_object (object_proto H)) (\<lambda>ob. put_v base name ob) else retJ ())"

definition read_name :: "host \<Rightarrow> env \<Rightarrow> create \<Rightarrow> jstring \<Rightarrow> ref3 js" where
  "read_name H env cr name =
     bindJ (name_base env name) (\<lambda>base.
     bindJ (if cr = CreateTrue \<and> truthy base then create_in H is_nullish base name else retJ ()) (\<lambda>_.
     bindJ (if truthy base then get_v H base name else retJ Undef) (\<lambda>v.
       retJ (base, name, v))))"

definition nonComputedMember :: "host \<Rightarrow> create \<Rightarrow> val \<Rightarrow> jstring \<Rightarrow> ref3 js" where
  "nonComputedMember H cr lhs name =
     bindJ (if cr = CreateTrue \<and> truthy lhs then create_in H is_nullish lhs name else retJ ()) (\<lambda>_.
     bindJ (if \<not> is_nullish lhs then get_v H lhs name else retJ Undef) (\<lambda>v.
       retJ (lhs, name, v)))"

text \<open>The key of a computed member is evaluated only when there is an object: \<open>K\<close> evaluates it.\<close>

definition computedMember :: "host \<Rightarrow> create \<Rightarrow> val \<Rightarrow> val js \<Rightarrow> ref3 js" where
  "computedMember H cr lhs K =
     (if is_nullish lhs then retJ (lhs, J ''undefined'', Undef)
      else bindJ K (\<lambda>k. bindJ (getStringValue H k) (\<lambda>name.
           bindJ (if cr = CreateTrue \<and> truthy lhs then create_in H (\<lambda>v. \<not> truthy v) lhs name
                  else retJ ()) (\<lambda>_.
           bindJ (get_v H lhs name) (\<lambda>v. retJ (lhs, name, v))))))"

text \<open>
  \<open>rhs.value.apply(rhs.context, values)\<close>. On a function this is \<open>Function.prototype.apply\<close>, a
  call; on another value it is whatever its property \<open>apply\<close> holds.
\<close>

definition apply_v :: "host \<Rightarrow> val \<Rightarrow> val \<Rightarrow> val list \<Rightarrow> val js" where
  "apply_v H f ctx args =
     bindJ (getH (\<lambda>h. is_function h f)) (\<lambda>isf.
       if isf then call_v H f ctx args
       else bindJ (get_v H f (J ''apply'')) (\<lambda>g.
            bindJ (new_array (array_proto H) args) (\<lambda>arr. call_v H g f [ctx, arr])))"

subsection \<open>The recursion over the tree\<close>

type_synonym filters = "jstring \<Rightarrow> val list \<Rightarrow> val js"
type_synonym watches = "path \<Rightarrow> nat option"

definition input_at :: "val list \<Rightarrow> nat \<Rightarrow> val" where
  "input_at vs k = (if k < length vs then vs ! k else Undef)"

definition val_of :: "ref3 js \<Rightarrow> val js" where
  "val_of m = bindJ m (\<lambda>r. retJ (ref_value r))"

function (sequential)
      interp :: "host \<Rightarrow> filters \<Rightarrow> watches \<Rightarrow> env \<Rightarrow> path \<Rightarrow> create \<Rightarrow> ast \<Rightarrow> ref3 js"
  and interp_node :: "host \<Rightarrow> filters \<Rightarrow> watches \<Rightarrow> env \<Rightarrow> path \<Rightarrow> create \<Rightarrow> ast \<Rightarrow> ref3 js"
  and interp_args :: "host \<Rightarrow> filters \<Rightarrow> watches \<Rightarrow> env \<Rightarrow> path \<Rightarrow> nat \<Rightarrow> ast list \<Rightarrow> val list js"
  and interp_push :: "host \<Rightarrow> filters \<Rightarrow> watches \<Rightarrow> env \<Rightarrow> path \<Rightarrow> nat \<Rightarrow> nat \<Rightarrow> ast list \<Rightarrow> unit js"
  and interp_key :: "host \<Rightarrow> filters \<Rightarrow> watches \<Rightarrow> env \<Rightarrow> path \<Rightarrow> ast prop_key \<Rightarrow> jstring js"
  and interp_props :: "host \<Rightarrow> filters \<Rightarrow> watches \<Rightarrow> env \<Rightarrow> path \<Rightarrow> nat \<Rightarrow> nat
        \<Rightarrow> (ast prop_key \<times> ast) list \<Rightarrow> unit js"
where
  "interp H F W env p cr a =
     (case W p of
        None \<Rightarrow> interp_node H F W env p cr a
      | Some k \<Rightarrow>
          (case env_inputs env of
             Some vs \<Rightarrow> retJ (just (input_at vs k))
           | None \<Rightarrow> interp_node H F W env p NoCreate a))"
| "interp_node H F W env p cr (Literal v) = retJ (just v)"
| "interp_node H F W env p cr (UnaryE op a) =
     bindJ (interp H F W env (p @ [0]) NoCreate a) (\<lambda>r.
     bindJ (unary_op H op (ref_value r)) (\<lambda>v. retJ (just v)))"
| "interp_node H F W env p cr (BinaryE op l r) =
     bindJ (interp H F W env (p @ [0]) NoCreate l) (\<lambda>a.
     bindJ (interp H F W env (p @ [1]) NoCreate r) (\<lambda>b.
     bindJ (binary_op H op (ref_value a) (ref_value b)) (\<lambda>v. retJ (just v))))"
| "interp_node H F W env p cr (LogicalE op l r) =
     bindJ (interp H F W env (p @ [0]) NoCreate l) (\<lambda>a.
       if (if op = J ''&&'' then truthy (ref_value a) else \<not> truthy (ref_value a))
       then bindJ (interp H F W env (p @ [1]) NoCreate r) (\<lambda>b. retJ (just (ref_value b)))
       else retJ (just (ref_value a)))"
| "interp_node H F W env p cr (ConditionalE t a b) =
     bindJ (interp H F W env (p @ [0]) NoCreate t) (\<lambda>c.
       if truthy (ref_value c)
       then bindJ (interp H F W env (p @ [1]) NoCreate a) (\<lambda>r. retJ (just (ref_value r)))
       else bindJ (interp H F W env (p @ [2]) NoCreate b) (\<lambda>r. retJ (just (ref_value r))))"
| "interp_node H F W env p cr (IdentifierE n) = read_name H env cr n"
| "interp_node H F W env p cr (MemberE b n) =
     bindJ (interp H F W env (p @ [0]) (if cr = NoCreate then NoCreate else CreateTrue) b) (\<lambda>l.
       nonComputedMember H cr (ref_value l) n)"
| "interp_node H F W env p cr (ComputedMemberE b k) =
     bindJ (interp H F W env (p @ [0]) (if cr = NoCreate then NoCreate else CreateTrue) b) (\<lambda>l.
       computedMember H cr (ref_value l) (val_of (interp H F W env (p @ [1]) NoCreate k)))"
| "interp_node H F W env p cr (CallE f args) =
     bindJ (interp H F W env (p @ [0]) NoCreate f) (\<lambda>g.
       if is_nullish (ref_value g) then retJ (just Undef)
       else bindJ (interp_args H F W env p 1 args) (\<lambda>vs.
            bindJ (apply_v H (ref_value g) (fst g) vs) (\<lambda>v. retJ (just v))))"
| "interp_node H F W env p cr (FilterE n args) =
     bindJ (interp_args H F W env p 0 args) (\<lambda>vs. bindJ (F n vs) (\<lambda>v. retJ (just v)))"
| "interp_node H F W env p cr (AssignmentE l r) =
     bindJ (interp H F W env (p @ [0]) CreateOne l) (\<lambda>lhs.
     bindJ (interp H F W env (p @ [1]) NoCreate r) (\<lambda>rhs.
     bindJ (put_v (fst lhs) (fst (snd lhs)) (ref_value rhs)) (\<lambda>_. retJ (just (ref_value rhs)))))"
| "interp_node H F W env p cr (ArrayE es) =
     bindJ (alloc \<lparr>cls = ArrayObject, proto = array_proto H, props = [], elems = []\<rparr>) (\<lambda>addr.
     bindJ (interp_push H F W env p 0 addr es) (\<lambda>_. retJ (just (Ref addr))))"
| "interp_node H F W env p cr (ObjectE ps) =
     bindJ (alloc \<lparr>cls = PlainObject, proto = object_proto H, props = [], elems = []\<rparr>) (\<lambda>addr.
     bindJ (interp_props H F W env p 0 addr ps) (\<lambda>_. retJ (just (Ref addr))))"
| "interp_node H F W env p cr ThisE = retJ (just (env_scope env))"
| "interp_node H F W env p cr LocalsE = retJ (just (env_locals env))"
| "interp_node H F W env p cr NGValueParameter = retJ (just (env_assign env))"
| "interp_args H F W env p i [] = retJ []"
| "interp_args H F W env p i (e # es) =
     bindJ (interp H F W env (p @ [i]) NoCreate e) (\<lambda>r.
     bindJ (interp_args H F W env p (Suc i) es) (\<lambda>vs. retJ (ref_value r # vs)))"
| "interp_push H F W env p i addr [] = retJ ()"
| "interp_push H F W env p i addr (e # es) =
     bindJ (interp H F W env (p @ [i]) NoCreate e) (\<lambda>r.
     bindJ (array_push addr (ref_value r)) (\<lambda>_. interp_push H F W env p (Suc i) addr es))"
| "interp_key H F W env p (KeyIdent n) = retJ n"
| "interp_key H F W env p (KeyConst v) = retJ (prim_to_string v)"
| "interp_key H F W env p (KeyComputed k) =
     bindJ (interp H F W env p NoCreate k) (\<lambda>r. to_string H (ref_value r))"
| "interp_props H F W env p i addr [] = retJ ()"
| "interp_props H F W env p i addr ((k, e) # ps) =
     bindJ (interp_key H F W env (p @ [2 * i + 1]) k) (\<lambda>name.
     bindJ (interp H F W env (p @ [2 * i]) NoCreate e) (\<lambda>r.
     bindJ (put_v (Ref addr) name (ref_value r)) (\<lambda>_. interp_props H F W env p (Suc i) addr ps)))"
  by pat_completeness auto

termination
  by (relation "measure (\<lambda>x. case x of
       Inl (Inl (_, _, _, _, _, _, a)) \<Rightarrow> 2 * size a + 1
     | Inl (Inr (Inl (_, _, _, _, _, _, a))) \<Rightarrow> 2 * size a
     | Inl (Inr (Inr (_, _, _, _, _, _, es))) \<Rightarrow> 2 * size_list size es + 1
     | Inr (Inl (_, _, _, _, _, _, _, es)) \<Rightarrow> 2 * size_list size es + 1
     | Inr (Inr (Inl (_, _, _, _, _, k))) \<Rightarrow> 2 * size_prop_key size k + 2
     | Inr (Inr (Inr (_, _, _, _, _, _, _, ps))) \<Rightarrow>
         2 * size_list (size_prod (size_prop_key size) size) ps + 1)") auto

end
