(* ===== verification/NgParser.thy ===== *)
theory NgParser
  imports NgAst
begin

section \<open>The parser consumes its tokens and never runs out of fuel\<close>

text \<open>
  \<open>shorter k r\<close>: the result \<open>r\<close> of a parsing function is not the artificial error of an exhausted
  counter, and when it succeeds fewer than \<open>k\<close> tokens are left. The rules below follow the shape of
  the parser, one for \<open>bindE\<close> and one for each loop, and end in \<open>program_terminates\<close>.
\<close>

definition shorter :: "nat \<Rightarrow> parse_error + 'a \<times> token list \<Rightarrow> bool" where
  "shorter k r = (case r of Inl e \<Rightarrow> e \<noteq> OutOfFuel | Inr (x, ts) \<Rightarrow> length ts < k)"

definition good :: "nat \<Rightarrow> (token list \<Rightarrow> parse_error + 'a \<times> token list) \<Rightarrow> bool" where
  "good k P = (\<forall>ts. length ts < k \<longrightarrow> shorter (length ts) (P ts))"

named_theorems shorter_intros

lemma shorter_Inr[simp]: "shorter k (Inr (x, ts)) = (length ts < k)"
  by (simp add: shorter_def)

lemma shorter_Inl[simp]: "shorter k (Inl e) = (e \<noteq> OutOfFuel)"
  by (simp add: shorter_def)

lemma shorter_mono: "shorter j r \<Longrightarrow> j \<le> k \<Longrightarrow> shorter k r"
  by (auto simp: shorter_def split: sum.splits)

lemma shorter_bind:
  assumes "shorter j m" "\<And>x ts. length ts < j \<Longrightarrow> shorter k (f (x, ts))"
  shows "shorter k (bindE m f)"
proof (cases m)
  case (Inr p)
  then show ?thesis using assms by (cases p) simp
qed (use assms(1) in simp)

lemma shorter_if:
  assumes "b \<Longrightarrow> shorter k r" "\<not> b \<Longrightarrow> shorter k s"
  shows "shorter k (if b then r else s)"
  using assms by simp

lemma good_app: "good k P \<Longrightarrow> length ts < k \<Longrightarrow> shorter (length ts) (P ts)"
  by (simp add: good_def)

lemma goodI: "(\<And>ts. length ts < k \<Longrightarrow> shorter (length ts) (P ts)) \<Longrightarrow> good k P"
  by (simp add: good_def)

lemma good_mono: "good k P \<Longrightarrow> j \<le> k \<Longrightarrow> good j P"
  by (auto simp: good_def)

lemma expect_shorter: "expect ts es = Some (tok, ts') \<Longrightarrow> length ts' < length ts"
  by (cases ts) (auto simp: expect_def peek_def peekAhead_def split: if_splits)

lemma expect_hd:
  "expect ts es = (case ts of [] \<Rightarrow> None
     | tok # ts' \<Rightarrow> if tok_text tok \<in> set es \<or> es = [] then Some (tok, ts') else None)"
  by (cases ts) (auto simp: expect_def peek_def peekAhead_def)

lemma shorter_expect:
  assumes "\<And>tok ts'. length ts' < length ts \<Longrightarrow> shorter k (f tok ts')" "shorter k r"
  shows "shorter k (case expect ts es of Some (tok, ts') \<Rightarrow> f tok ts' | None \<Rightarrow> r)"
  using assms expect_shorter[of ts es] by (auto split: option.splits)

lemma shorter_expect':
  assumes "\<And>tok ts'. length ts' < length ts \<Longrightarrow> shorter k (f tok ts')" "shorter k r"
  shows "shorter k (case expect ts es of None \<Rightarrow> r | Some (tok, ts') \<Rightarrow> f tok ts')"
  using assms expect_shorter[of ts es] by (auto split: option.splits)

lemma shorter_consume: "shorter (length ts) (consume ts es)"
  using expect_shorter[of ts es]
  by (auto simp: consume_def throwError_def split: option.splits prod.splits)

lemma shorter_peekToken:
  "(\<And>tok. ts \<noteq> [] \<Longrightarrow> tok = hd ts \<Longrightarrow> shorter k (f tok)) \<Longrightarrow> shorter k (bindE (peekToken ts) f)"
  by (simp add: peekToken_def)

lemma shorter_identifier_name: "shorter (length ts) (identifier_name ts)"
  unfolding identifier_name_def
  by (rule shorter_bind[OF shorter_consume]) (simp add: throwError_def)

lemma shorter_constant_value: "shorter (length ts) (constant_value ts)"
  unfolding constant_value_def by (rule shorter_bind[OF shorter_consume]) simp

lemma shorter_parse_identifier: "shorter (length ts) (parse_identifier ts)"
  unfolding parse_identifier_def by (rule shorter_bind[OF shorter_identifier_name]) simp

subsection \<open>Loops\<close>

lemma shorter_elements_loop:
  "good k p \<Longrightarrow> length ts < k \<Longrightarrow> length ts < n \<Longrightarrow> shorter (Suc (length ts)) (elements_loop stop p n acc ts)"
proof (induction n arbitrary: acc ts)
  case (Suc n)
  have "shorter (Suc (length ts)) (case expect us [J '',''] of
        Some (_, vs) \<Rightarrow> elements_loop stop p n (acc @ [x]) vs | None \<Rightarrow> Inr (acc @ [x], us))"
    if l: "length us < length ts" for x us
  proof (rule shorter_expect)
    fix tok and vs :: "token list"
    assume "length vs < length us"
    then show "shorter (Suc (length ts)) (elements_loop stop p n (acc @ [x]) vs)"
      using Suc.IH[of vs "acc @ [x]"] Suc.prems l by (auto elim: shorter_mono)
  qed (use l in simp)
  then show ?case using good_app[OF Suc.prems(1,2)] by (simp add: shorter_bind)
qed simp

lemma shorter_filter_loop:
  "good k E \<Longrightarrow> length ts < k \<Longrightarrow> length ts < n \<Longrightarrow> shorter (Suc (length ts)) (filter_loop E n args ts)"
proof (induction n arbitrary: args ts)
  case (Suc n)
  have "shorter (Suc (length ts)) (bindE (E us) (\<lambda>(a, vs). filter_loop E n (args @ [a]) vs))"
    if l: "length us < length ts" for us
  proof (rule shorter_bind[OF good_app[OF Suc.prems(1)]])
    fix a and vs :: "token list"
    assume "length vs < length us"
    then show "shorter (Suc (length ts)) (case (a, vs) of (a, vs) \<Rightarrow> filter_loop E n (args @ [a]) vs)"
      using Suc.IH[of vs "args @ [a]"] Suc.prems l by (auto elim: shorter_mono)
  qed (use l Suc.prems in simp)
  then show ?case by (auto intro!: shorter_expect)
qed simp

lemma shorter_parse_filter:
  "good k E \<Longrightarrow> length ts < k \<Longrightarrow> shorter (length ts) (parse_filter E base ts)"
  unfolding parse_filter_def
  by (rule shorter_bind[OF shorter_identifier_name])
    (auto intro!: shorter_bind[OF shorter_filter_loop[of k E]] simp del: filter_loop.simps)

lemma shorter_filterChain_loop:
  "good k E \<Longrightarrow> length ts < k \<Longrightarrow> length ts < n \<Longrightarrow> shorter (Suc (length ts)) (filterChain_loop E n left ts)"
proof (induction n arbitrary: left ts)
  case (Suc n)
  have "shorter (Suc (length ts)) (bindE (parse_filter E left us) (\<lambda>(l, vs). filterChain_loop E n l vs))"
    if l: "length us < length ts" for us
  proof (rule shorter_bind[OF shorter_parse_filter[OF Suc.prems(1)]])
    fix a and vs :: "token list"
    assume "length vs < length us"
    then show "shorter (Suc (length ts)) (case (a, vs) of (l, vs) \<Rightarrow> filterChain_loop E n l vs)"
      using Suc.IH[of vs a] Suc.prems l by (auto elim: shorter_mono)
  qed (use l Suc.prems in simp)
  then show ?case by (auto intro!: shorter_expect)
qed simp

lemma good_filterChain: "good k E \<Longrightarrow> good k (filterChain E)"
  unfolding filterChain_def
  by (rule goodI) (auto intro!: shorter_bind[OF good_app[of k E]] 
      shorter_mono[OF shorter_filterChain_loop[of k E]] simp del: filterChain_loop.simps)

lemma shorter_binary_loop:
  "good k P \<Longrightarrow> length ts < k \<Longrightarrow> length ts < n \<Longrightarrow> shorter (Suc (length ts)) (binary_loop mk ops P n left ts)"
proof (induction n arbitrary: left ts)
  case (Suc n)
  have "shorter (Suc (length ts)) (bindE (P us) (\<lambda>(r, vs). binary_loop mk ops P n (mk t left r) vs))"
    if l: "length us < length ts" for us t
  proof (rule shorter_bind[OF good_app[OF Suc.prems(1)]])
    fix a and vs :: "token list"
    assume "length vs < length us"
    then show "shorter (Suc (length ts)) (case (a, vs) of (r, vs) \<Rightarrow> binary_loop mk ops P n (mk t left r) vs)"
      using Suc.IH[of vs "mk t left a"] Suc.prems l by (auto elim: shorter_mono)
  qed (use l Suc.prems in simp)
  then show ?case by (auto intro!: shorter_expect)
qed simp

lemma good_binary_level: "good k P \<Longrightarrow> good k (binary_level mk ops P)"
  unfolding binary_level_def
  by (rule goodI) (auto intro!: shorter_bind[OF good_app[of k P]] 
      shorter_mono[OF shorter_binary_loop[of k P]] simp del: binary_loop.simps)

subsection \<open>Primary expressions\<close>

lemma shorter_parseArguments:
  "good k E \<Longrightarrow> length ts < k \<Longrightarrow> shorter (Suc (length ts)) (parseArguments E ts)"
  unfolding parseArguments_def
  by (auto intro!: shorter_peekToken shorter_elements_loop[of k] good_filterChain simp del: elements_loop.simps)

lemma shorter_arrayDeclaration:
  "good k E \<Longrightarrow> length ts < k \<Longrightarrow> shorter (length ts) (arrayDeclaration E ts)"
  unfolding arrayDeclaration_def
  by (auto intro!: shorter_peekToken shorter_bind[of "Suc (length ts)"] shorter_elements_loop[of k]
      shorter_bind[OF shorter_consume] simp del: elements_loop.simps)

lemma shorter_key_value:
  "good k E \<Longrightarrow> length ts < k \<Longrightarrow>
    shorter (length ts) (bindE (consume ts es) (\<lambda>(_, t2). bindE (E t2) (\<lambda>(v, t3). Inr (f v, t3))))"
  by (auto intro!: shorter_bind[OF shorter_consume] shorter_bind[OF good_app[of k E]])

lemma shorter_object_property:
  "good k E \<Longrightarrow> length ts < k \<Longrightarrow> shorter (length ts) (object_property E ts)"
  unfolding object_property_def
  apply (intro shorter_if)
     apply (rule shorter_bind[OF shorter_constant_value])
     apply (auto intro!: shorter_mono[OF shorter_key_value[of k E]])[1]
    apply (rule shorter_bind[OF shorter_identifier_name])
    apply (auto intro!: shorter_mono[OF shorter_key_value[of k E]])[1]
   apply (auto intro!: shorter_bind[OF shorter_consume] shorter_bind[OF good_app[of k E]])[1]
  apply (auto simp: throwError_def split: list.splits)
  done

lemma good_object_property: "good k E \<Longrightarrow> good k (object_property E)"
  by (simp add: goodI shorter_object_property)

lemma shorter_object:
  "good k E \<Longrightarrow> length ts < k \<Longrightarrow> shorter (length ts) (object E ts)"
  unfolding object_def
  by (auto intro!: shorter_peekToken shorter_bind[of "Suc (length ts)"] shorter_elements_loop[of k]
      shorter_bind[OF shorter_consume] good_object_property simp del: elements_loop.simps)

lemma shorter_primary_base:
  assumes E: "good k E" and l: "length ts \<le> k"
  shows "shorter (length ts) (primary_base opts E ts)"
proof -
  note g = good_filterChain[OF E]
  have 1: "shorter (length ts) (bindE (filterChain E us) (\<lambda>(e, t2). bindE (consume t2 [J '')'']) (\<lambda>(_, t3). Inr (e, t3))))"
    if "length us < length ts" for us
    using l that by (auto intro!: shorter_bind[OF good_app[OF g]] shorter_bind[OF shorter_consume])
  have 2: "shorter (length ts) (arrayDeclaration E us)" "shorter (length ts) (object E us)"
    if "length us < length ts" for us
    using l that shorter_arrayDeclaration[OF E, of us] shorter_object[OF E, of us]
    by (auto elim: shorter_mono)
  have 3: "shorter (length ts) (bindE (consume ts []) (\<lambda>(_, t1). Inr (e, t1)))" for e
    by (rule shorter_bind[OF shorter_consume]) simp
  have 4: "shorter (length ts) (bindE (constant_value ts) (\<lambda>(v, t1). Inr (Literal v, t1)))"
    by (rule shorter_bind[OF shorter_constant_value]) simp
  show ?thesis
    unfolding primary_base_def
    by (intro shorter_expect' 1 2 shorter_if) 
      (auto simp: 3 4 shorter_parse_identifier throwError_def split: option.splits list.splits)
qed

lemma shorter_primary_loop:
  "good k E \<Longrightarrow> length ts \<le> k \<Longrightarrow> length ts < n \<Longrightarrow> shorter (Suc (length ts)) (primary_loop E n prim ts)"
proof (induction n arbitrary: prim ts)
  case (Suc n)
  have IH: "shorter (Suc (length ts)) (primary_loop E n p vs)" if "length vs < length ts" for p vs
    using Suc.IH[of vs p] Suc.prems that by (auto elim: shorter_mono)
  have 1: "shorter (Suc (length ts)) (bindE (parseArguments E us) (\<lambda>(args, t2).
            bindE (consume t2 [J '')'']) (\<lambda>(_, t3). primary_loop E n (CallE prim args) t3)))"
    if "length us < length ts" for us
    using Suc.prems that
    by (auto intro!: shorter_bind[OF shorter_parseArguments[of k E]] shorter_bind[OF shorter_consume] IH)
  have 2: "shorter (Suc (length ts)) (bindE (E us) (\<lambda>(p, t2).
            bindE (consume t2 [J '']'']) (\<lambda>(_, t3). primary_loop E n (ComputedMemberE prim p) t3)))"
    if "length us < length ts" for us
    using Suc.prems that
    by (auto intro!: shorter_bind[OF good_app[of k E]] shorter_bind[OF shorter_consume] IH)
  have 3: "shorter (Suc (length ts)) (bindE (identifier_name us) (\<lambda>(p, t2). primary_loop E n (MemberE prim p) t2))"
    if "length us < length ts" for us
    using that by (auto intro!: shorter_bind[OF shorter_identifier_name] IH)
  show ?case by (auto intro!: shorter_expect' shorter_if 1 2 3)
qed simp

subsection \<open>The whole grammar\<close>

lemma good_primary: "good k E \<Longrightarrow> good (Suc k) (primary opts E)"
  unfolding primary_def
  by (rule goodI) (auto intro!: shorter_bind[OF shorter_primary_base[of k E]]
      shorter_mono[OF shorter_primary_loop[of k E]] simp del: primary_loop.simps)

lemma good_unary: "good k E \<Longrightarrow> good (Suc k) (unary opts E)"
proof (rule goodI)
  fix ts :: "token list"
  show "good k E \<Longrightarrow> length ts < Suc k \<Longrightarrow> shorter (length ts) (unary opts E ts)"
  proof (induction ts)
    case Nil then show ?case using good_app[OF good_primary, of k E "[]" opts] by simp
  next
    case (Cons tok ts)
    have "shorter (Suc (length ts)) (bindE (unary opts E ts) (\<lambda>(a, vs). Inr (UnaryE (tok_text tok) a, vs)))"
      using Cons by (intro shorter_bind[of "length ts"]) auto
    moreover have "shorter (Suc (length ts)) (primary opts E (tok # ts))"
      using good_app[OF good_primary, of k E "tok # ts" opts] Cons.prems by simp
    ultimately show ?case by simp
  qed
qed

lemma good_logicalOR: "good k E \<Longrightarrow> good (Suc k) (logicalOR opts E)"
  unfolding logicalOR_def logicalAND_def equality_def relational_def additive_def multiplicative_def
  by (intro good_binary_level good_unary)

lemma good_ternary:
  assumes E: "good k E"
  shows "good (Suc k) (ternary opts E)"
proof (rule goodI)
  fix ts :: "token list" assume l: "length ts < Suc k"
  show "shorter (length ts) (ternary opts E ts)"
    unfolding ternary_def
    using l by (auto intro!: shorter_bind[OF good_app[OF good_logicalOR[OF E]]] shorter_expect
        shorter_bind[OF good_app[OF E]] shorter_bind[OF shorter_consume])
qed

lemma good_assignment:
  assumes E: "good k E"
  shows "good (Suc k) (assignment opts E)"
proof (rule goodI)
  fix ts :: "token list" assume l: "length ts < Suc k"
  show "shorter (length ts) (assignment opts E ts)"
    unfolding assignment_def
    using l by (auto intro!: shorter_bind[OF good_app[OF good_ternary[OF E]]] shorter_expect
        shorter_bind[OF good_app[OF E]])
qed

lemma good_expression: "good n (expression opts n)"
proof (induction n)
  case (Suc n)
  have "expression opts (Suc n) = assignment opts (expression opts n)" by (rule ext) simp
  then show ?case using good_assignment[OF Suc] by simp
qed (simp add: good_def)

lemma shorter_program_loop:
  "good k E \<Longrightarrow> length ts < k \<Longrightarrow> length ts < n \<Longrightarrow> shorter (Suc (length ts)) (program_loop E n body ts)"
proof (induction n arbitrary: body ts)
  case (Suc n)
  have "shorter (Suc (length ts)) (case expect us [J '';''] of
      Some (_, vs) \<Rightarrow> program_loop E n b vs | None \<Rightarrow> Inr (b, us))" if "length us \<le> length ts" for b us
  proof (rule shorter_expect)
    fix vs :: "token list"
    assume "length vs < length us"
    then show "shorter (Suc (length ts)) (program_loop E n b vs)"
      using Suc.IH[of vs b] Suc.prems that by (auto elim: shorter_mono)
  qed (use that in simp)
  moreover have "shorter (Suc (length ts)) (if ts \<noteq> [] \<and> peek ts [J ''}'', J '')'', J '';'', J '']''] = None
      then bindE (filterChain E ts) (\<lambda>(e, t1). Inr (body @ [e], t1)) else Inr (body, ts))"
    using Suc.prems
    by (auto intro!: shorter_bind[OF good_app[OF good_filterChain[of k E]]])
  ultimately show ?case
    by (simp only: program_loop.simps) (rule shorter_bind[of "Suc (length ts)"], auto)
qed simp

lemma program_shorter: "shorter (Suc (length ts)) (program opts ts)"
  unfolding program_def by (rule shorter_program_loop[OF good_expression]) auto

lemma ast_of_not_fuel: "ast_of opts t \<noteq> Inl OutOfFuel"
proof (cases "lex opts t")
  case (Inl e) then show ?thesis using lex_not_fuel[of opts t] by (auto simp: ast_of_def)
next
  case (Inr ts)
  then show ?thesis using program_shorter[of ts opts]
    by (cases "program opts ts") (auto simp: ast_of_def throwError_def split: list.splits)
qed

end
