(* ===== verification/NgParse.thy ===== *)
theory NgParse
  imports NgInterp NgParser
begin

section \<open>Expressions: compiling, the service, watching inputs\<close>

text \<open>
  \<open>ASTInterpreter.compile\<close>, \<open>Parser\<close> and the service \<open>$parse\<close>, with the watch on the inputs of an
  expression. Then the laws of the interpreter: a constant expression does not read its scope, a
  read-only expression neither throws nor writes, and evaluating an expression from the values of
  its inputs gives what evaluating it directly gives.
\<close>

subsection \<open>Compiling a program\<close>

record input_fn =
  input_run :: "env \<Rightarrow> val js"
  isPure_flag :: purity

record parsed =
  fn :: "env \<Rightarrow> val js"
  fn_assign :: "(val \<Rightarrow> val \<Rightarrow> val \<Rightarrow> val js) option"
  fn_inputs :: "input_fn list option"
  fn_literal :: bool
  fn_constant :: bool
  fn_oneTime :: bool

definition no_inputs :: "env \<Rightarrow> env" where
  "no_inputs env = env\<lparr>env_inputs := None\<rparr>"

definition watch_ids :: "watch list \<Rightarrow> watches" where
  "watch_ids ws = map_of (zip (map watch_path ws) [0..<length ws])"

definition watches_of :: "watch list option \<Rightarrow> watches" where
  "watches_of ws = (case ws of Some l \<Rightarrow> watch_ids l | None \<Rightarrow> Map.empty)"

text \<open>The statements in order; the value is that of the last, \<open>undefined\<close> when there is none.\<close>

fun run_statements :: "host \<Rightarrow> filters \<Rightarrow> watches \<Rightarrow> env \<Rightarrow> nat \<Rightarrow> val \<Rightarrow> ast list \<Rightarrow> val js" where
  "run_statements H F W env i lastValue [] = retJ lastValue"
| "run_statements H F W env i lastValue (e # es) =
     bindJ (val_of (interp H F W env [i] NoCreate e)) (\<lambda>v. run_statements H F W env (Suc i) v es)"

definition compile_assign :: "host \<Rightarrow> filters \<Rightarrow> ast list \<Rightarrow> (val \<Rightarrow> val \<Rightarrow> val \<Rightarrow> val js) option" where
  "compile_assign H F body =
     (case assignableAST body of
        None \<Rightarrow> None
      | Some a \<Rightarrow> Some (\<lambda>scope value locals.
          val_of (interp H F Map.empty
            \<lparr>env_scope = scope, env_locals = locals, env_assign = value, env_inputs = None\<rparr> [] NoCreate a)))"

definition compile_inputs ::
  "host \<Rightarrow> filters \<Rightarrow> (jstring \<Rightarrow> filter_info) \<Rightarrow> ast list \<Rightarrow> input_fn list option" where
  "compile_inputs H F flt body =
     map_option (map (\<lambda>w. \<lparr>input_run =
         (\<lambda>env. val_of (interp H F Map.empty env (watch_path w) NoCreate (watch_expr w))),
       isPure_flag = watch_pure w\<rparr>)) (getInputs flt body)"

text \<open>Several statements are run with the scope and the locals only.\<close>

definition body_env :: "ast list \<Rightarrow> env \<Rightarrow> env" where
  "body_env body env =
     (case body of [_] \<Rightarrow> env | _ \<Rightarrow> env\<lparr>env_assign := Undef, env_inputs := None\<rparr>)"

lemma body_env_single[simp]: "body_env [a] env = env"
  by (simp add: body_env_def)

lemma body_env_inputs: "env_inputs env = None \<Longrightarrow> env_inputs (body_env body env) = None"
  by (simp add: body_env_def split: list.splits)

definition compile :: "host \<Rightarrow> filters \<Rightarrow> (jstring \<Rightarrow> filter_info) \<Rightarrow> ast list \<Rightarrow> parsed" where
  "compile H F flt body =
     \<lparr>fn = (\<lambda>env. run_statements H F (watches_of (getInputs flt body)) (body_env body env) 0 Undef body),
      fn_assign = compile_assign H F body,
      fn_inputs = compile_inputs H F flt body,
      fn_literal = False, fn_constant = False, fn_oneTime = False\<rparr>"

definition getAst :: "options \<Rightarrow> jstring \<Rightarrow> parse_error + ast list \<times> bool" where
  "getAst opts t =
     (let e = trim t;
          oneTime = (take 1 e = J '':'' \<and> take 1 (drop 1 e) = J '':'')
      in bindE (ast_of opts (if oneTime then drop 2 e else e)) (\<lambda>body. Inr (body, oneTime)))"

definition parse ::
  "options \<Rightarrow> host \<Rightarrow> filters \<Rightarrow> (jstring \<Rightarrow> filter_info) \<Rightarrow> jstring \<Rightarrow> parse_error + parsed" where
  "parse opts H F flt t =
     bindE (getAst opts t) (\<lambda>(body, oneTime).
       Inr ((compile H F flt body)
         \<lparr>fn_literal := isLiteral body, fn_constant := isConstant flt body, fn_oneTime := oneTime\<rparr>))"

subsection \<open>The service and its cache\<close>

datatype watchDelegate = ConstantWatch | OneTimeLiteralWatch | OneTimeWatch | InputsWatch | NoDelegate

definition delegate_of :: "parsed \<Rightarrow> watchDelegate" where
  "delegate_of p =
     (if fn_constant p then ConstantWatch
      else if fn_oneTime p then (if fn_literal p then OneTimeLiteralWatch else OneTimeWatch)
      else if fn_inputs p \<noteq> None then InputsWatch
      else NoDelegate)"

type_synonym parse_cache = "jstring \<Rightarrow> (parsed \<times> watchDelegate) option"

definition parse_service ::
  "options \<Rightarrow> host \<Rightarrow> filters \<Rightarrow> (jstring \<Rightarrow> filter_info) \<Rightarrow> parse_cache \<Rightarrow> jstring
     \<Rightarrow> (parse_error + parsed \<times> watchDelegate) \<times> parse_cache" where
  "parse_service opts H F flt cache t =
     (let key = trim t in
      case cache key of
        Some p \<Rightarrow> (Inr p, cache)
      | None \<Rightarrow>
          (case parse opts H F flt key of
             Inl e \<Rightarrow> (Inl e, cache)
           | Inr p \<Rightarrow> (Inr (p, delegate_of p), cache(key \<mapsto> (p, delegate_of p)))))"

subsection \<open>Watching the inputs\<close>

text \<open>
  \<open>getValueOf\<close>. A value without a property \<open>valueOf\<close> that is a function stands for itself.
\<close>

definition getValueOf :: "host \<Rightarrow> val \<Rightarrow> val js" where
  "getValueOf H v =
     bindJ (get_v H v (J ''valueOf'')) (\<lambda>f.
     bindJ (getH (\<lambda>h. is_function h f)) (\<lambda>isf. if isf then call_v H f v [] else retJ v))"

text \<open>\<open>typeof v === 'object'\<close>\<close>

definition is_object_v :: "heap \<Rightarrow> val \<Rightarrow> bool" where
  "is_object_v h v = (case v of Null \<Rightarrow> True | Ref _ \<Rightarrow> \<not> is_function h v | _ \<Rightarrow> False)"

definition same_or_nan :: "val \<Rightarrow> val \<Rightarrow> bool" where
  "same_or_nan v w = (strict_eq v w \<or> (\<not> strict_eq v v \<and> \<not> strict_eq w w))"

text \<open>
  \<open>None\<close> for the old value is the initial marker, a function object that equals no value. True
  means that the input has not changed.
\<close>

definition expressionInputDirtyCheck :: "host \<Rightarrow> val \<Rightarrow> val option \<Rightarrow> bool \<Rightarrow> bool js" where
  "expressionInputDirtyCheck H newValue old compareObjectIdentity =
     (let same = (\<lambda>v. case old of None \<Rightarrow> False | Some w \<Rightarrow> same_or_nan v w) in
      if is_nullish newValue \<or> (case old of Some w \<Rightarrow> is_nullish w | None \<Rightarrow> False)
      then retJ (case old of None \<Rightarrow> False | Some w \<Rightarrow> strict_eq newValue w)
      else bindJ (getH (\<lambda>h. is_object_v h newValue)) (\<lambda>obj.
        if obj then
          bindJ (getValueOf H newValue) (\<lambda>v.
          bindJ (getH (\<lambda>h. is_object_v h v)) (\<lambda>still.
            if still \<and> \<not> compareObjectIdentity then retJ False else retJ (same v)))
        else retJ (same newValue)))"

definition old_value_of :: "host \<Rightarrow> val \<Rightarrow> val js" where
  "old_value_of H v = (if truthy v then getValueOf H v else retJ v)"

record input_state =
  oldInputValueOf :: "val option list"
  oldInputValues :: "val list"
  lastResult :: val

definition input_init :: "nat \<Rightarrow> input_state" where
  "input_init n = \<lparr>oldInputValueOf = replicate n None, oldInputValues = replicate n Null, lastResult = Undef\<rparr>"

text \<open>
  The closure variables survive an exception, so a watch function returns its outcome and the new
  state side by side: \<open>tryJ\<close> turns the exception of an action into a value.
\<close>

definition tryJ :: "'a js \<Rightarrow> (exn + 'a) js" where
  "tryJ m = (\<lambda>h. case m h of (r, h') \<Rightarrow> (Inr r, h'))"

text \<open>
  One pass over the inputs: from the first one that changed, every value is stored. The list
  \<open>oldInputValues\<close> keeps its entries before that point.
\<close>

definition input_changed :: "host \<Rightarrow> bool \<Rightarrow> input_fn \<Rightarrow> val \<Rightarrow> val option \<Rightarrow> bool js" where
  "input_changed H changed f v old =
     (if changed then retJ True
      else bindJ (expressionInputDirtyCheck H v old (isPure_flag f \<noteq> Impure)) (\<lambda>same. retJ (\<not> same)))"

fun inputs_pass ::
  "host \<Rightarrow> env \<Rightarrow> bool \<Rightarrow> nat \<Rightarrow> input_fn list \<Rightarrow> input_state \<Rightarrow> ((exn + bool) \<times> input_state) js" where
  "inputs_pass H env changed i [] st = retJ (Inr changed, st)"
| "inputs_pass H env changed i (f # fs) st =
     bindJ (tryJ (bindJ (input_run f env) (\<lambda>v.
             bindJ (input_changed H changed f v (oldInputValueOf st ! i)) (\<lambda>c. retJ (v, c))))) (\<lambda>r.
     case r of
       Inl e \<Rightarrow> retJ (Inl e, st)
     | Inr (v, False) \<Rightarrow> inputs_pass H env False (Suc i) fs st
     | Inr (v, True) \<Rightarrow>
         (let st' = st\<lparr>oldInputValues := (oldInputValues st)[i := v]\<rparr> in
          bindJ (tryJ (old_value_of H v)) (\<lambda>w. case w of
            Inl e \<Rightarrow> retJ (Inl e, st')
          | Inr u \<Rightarrow> inputs_pass H env True (Suc i) fs
              (st'\<lparr>oldInputValueOf := (oldInputValueOf st')[i := Some u]\<rparr>))))"

definition scope_env :: "val \<Rightarrow> env" where
  "scope_env scope = \<lparr>env_scope = scope, env_locals = Undef, env_assign = Undef, env_inputs = None\<rparr>"

definition run_with_inputs :: "parsed \<Rightarrow> val \<Rightarrow> val list \<Rightarrow> val js" where
  "run_with_inputs p scope vs = fn p ((scope_env scope)\<lparr>env_inputs := Some vs\<rparr>)"

text \<open>\<open>expressionInputsWatch\<close>, for any number of inputs but one.\<close>

definition expressionInputsWatch ::
  "host \<Rightarrow> parsed \<Rightarrow> input_fn list \<Rightarrow> val \<Rightarrow> input_state \<Rightarrow> ((exn + val) \<times> input_state) js" where
  "expressionInputsWatch H p inputs scope st =
     bindJ (inputs_pass H (scope_env scope) False 0 inputs st) (\<lambda>(c, st').
       case c of
         Inl e \<Rightarrow> retJ (Inl e, st')
       | Inr True \<Rightarrow>
           bindJ (tryJ (run_with_inputs p scope (oldInputValues st'))) (\<lambda>r. case r of
             Inl e \<Rightarrow> retJ (Inl e, st')
           | Inr v \<Rightarrow> retJ (Inr v, st'\<lparr>lastResult := v\<rparr>))
       | Inr False \<Rightarrow> retJ (Inr (lastResult st'), st'))"

text \<open>\<open>expressionInputWatch\<close>, for one input: the old value is stored after the expression has run.\<close>

definition expressionInputWatch ::
  "host \<Rightarrow> parsed \<Rightarrow> input_fn \<Rightarrow> val \<Rightarrow> input_state \<Rightarrow> ((exn + val) \<times> input_state) js" where
  "expressionInputWatch H p f scope st =
     bindJ (tryJ (bindJ (input_run f (scope_env scope)) (\<lambda>v.
             bindJ (input_changed H False f v (oldInputValueOf st ! 0)) (\<lambda>c.
             if c then bindJ (run_with_inputs p scope [v]) (\<lambda>r. retJ (Some (v, r))) else retJ None))))
       (\<lambda>o'. case o' of
         Inl e \<Rightarrow> retJ (Inl e, st)
       | Inr None \<Rightarrow> retJ (Inr (lastResult st), st)
       | Inr (Some (v, r)) \<Rightarrow>
           (let st' = st\<lparr>lastResult := r\<rparr> in
            bindJ (tryJ (old_value_of H v)) (\<lambda>w. case w of
              Inl e \<Rightarrow> retJ (Inl e, st')
            | Inr u \<Rightarrow> retJ (Inr r, st'\<lparr>oldInputValueOf := (oldInputValueOf st)[0 := Some u]\<rparr>))))"

definition inputsWatch ::
  "host \<Rightarrow> parsed \<Rightarrow> input_fn list \<Rightarrow> val \<Rightarrow> input_state \<Rightarrow> ((exn + val) \<times> input_state) js" where
  "inputsWatch H p inputs scope st =
     (case inputs of
        [f] \<Rightarrow> expressionInputWatch H p f scope st
      | _ \<Rightarrow> expressionInputsWatch H p inputs scope st)"

subsection \<open>Constant expressions do not read their environment\<close>

lemma interp_empty[simp]: "interp H F Map.empty env p cr a = interp_node H F Map.empty env p cr a"
  by simp

declare interp.simps [simp del]

lemma constant_reads_no_env:
  "is_const (findConstantAndWatchExpressions flt parent p a) \<Longrightarrow>
     interp_node H F Map.empty env q cr a = interp_node H F Map.empty env' q cr a"
  "is_const (find_key flt p k) \<Longrightarrow>
     interp_key H F Map.empty env q k = interp_key H F Map.empty env' q k"
  "is_const (find_args flt pure p i es) \<Longrightarrow>
     interp_args H F Map.empty env q j es = interp_args H F Map.empty env' q j es \<and>
     interp_push H F Map.empty env q j addr es = interp_push H F Map.empty env' q j addr es"
  "is_const (find_props flt pure p i ps) \<Longrightarrow>
     interp_props H F Map.empty env q j addr ps = interp_props H F Map.empty env' q j addr ps"
proof (induction flt parent p a and flt p k and flt pure p i es and flt pure p i ps
    arbitrary: q cr and q and q j addr and q j addr
    rule: findConstantAndWatchExpressions_find_key_find_args_find_props.induct)
qed (auto simp: Let_def val_of_def cong: if_cong)

subsection \<open>Marked nodes\<close>

text \<open>
  \<open>marks W p ws\<close>: below \<open>p\<close>, the marked paths are those of the watches \<open>ws\<close>; \<open>marks_from\<close> says it
  for the children from the position \<open>i\<close>.
\<close>

definition marks :: "watches \<Rightarrow> path \<Rightarrow> watch list \<Rightarrow> bool" where
  "marks W p ws = (\<forall>r. (W (p @ r) \<noteq> None) = (p @ r \<in> watch_path ` set ws))"

definition marks_from :: "watches \<Rightarrow> path \<Rightarrow> nat \<Rightarrow> watch list \<Rightarrow> bool" where
  "marks_from W p i ws = (\<forall>j r. i \<le> j \<longrightarrow> (W (p @ j # r) \<noteq> None) = (p @ j # r \<in> watch_path ` set ws))"

definition below :: "path \<Rightarrow> watch list \<Rightarrow> bool" where
  "below p ws = (\<forall>w\<in>set ws. \<exists>q. watch_path w = p @ q)"

definition below_from :: "path \<Rightarrow> nat \<Rightarrow> watch list \<Rightarrow> bool" where
  "below_from p i ws = (\<forall>w\<in>set ws. \<exists>j q. i \<le> j \<and> watch_path w = p @ j # q)"

lemma below_simps[simp]:
  "below p []" "below_from p i []"
  "below p (ws @ vs) = (below p ws \<and> below p vs)"
  "below_from p i (ws @ vs) = (below_from p i ws \<and> below_from p i vs)"
  "below p [watch_self p a pure]"
  by (auto simp: below_def below_from_def watch_self_def)

lemma below_up:
  "below (p @ [i]) ws \<Longrightarrow> below p ws"
  "below_from p i ws \<Longrightarrow> below p ws"
  "below (p @ [i]) ws \<Longrightarrow> j \<le> i \<Longrightarrow> below_from p j ws"
  "below_from p i ws \<Longrightarrow> j \<le> i \<Longrightarrow> below_from p j ws"
  unfolding below_def below_from_def by (fastforce, fastforce, fastforce, meson le_trans)

lemma find_below:
  "below p (toWatch (findConstantAndWatchExpressions flt parent p a))"
  "below p (toWatch (find_key flt p k))"
  "below_from p i (toWatch (find_args flt pure p i es))"
  "below_from p (2 * i) (toWatch (find_props flt pure p i ps))"
proof (induction flt parent p a and flt p k and flt pure p i es and flt pure p i ps
    rule: findConstantAndWatchExpressions_find_key_find_args_find_props.induct)
  case (23 flt pure p i k v ps)
  have "below_from p (2 * i) (toWatch (find_props flt pure p (Suc i) ps))"
    using below_up(4)[OF 23(3)[OF refl refl]] by simp
  then show ?case using 23(1,2) by (auto simp: Let_def intro: below_up)
qed (auto simp: Let_def intro: below_up)

lemma marks_child:
  assumes m: "marks W p (ws @ vs)" and w: "below (p @ [i]) ws" and v: "below (p @ [j]) vs" and ij: "i \<noteq> j"
  shows "marks W (p @ [i]) ws" "marks W (p @ [j]) vs"
proof -
  have no: "(p @ [j]) @ r \<notin> watch_path ` set ws" "(p @ [i]) @ r \<notin> watch_path ` set vs" for r
    using w v ij by (auto simp: below_def)
  have "(W ((p @ [i]) @ r) \<noteq> None) = ((p @ [i]) @ r \<in> watch_path ` set (ws @ vs))" for i r
    using m[unfolded marks_def, rule_format, of "[i] @ r"] by simp
  then show "marks W (p @ [i]) ws" "marks W (p @ [j]) vs"
    unfolding marks_def using no by (simp_all add: image_Un)
qed

lemma marks_only:
  "marks W p ws \<Longrightarrow> below (p @ [i]) ws \<Longrightarrow> marks W (p @ [i]) ws"
  unfolding marks_def by (metis append_assoc)

lemma marks_from_0: "marks W p ws \<Longrightarrow> marks_from W p 0 ws"
  by (simp add: marks_def marks_from_def)

lemma marks_from_step:
  assumes m: "marks_from W p i (ws @ vs)" and w: "below (p @ [i]) ws" and v: "below_from p (Suc i) vs"
  shows "marks W (p @ [i]) ws" "marks_from W p (Suc i) vs"
proof -
  have no: "p @ i # r \<notin> watch_path ` set vs" "Suc i \<le> j \<Longrightarrow> p @ j # r \<notin> watch_path ` set ws" for j r
    using w v by (auto simp: below_def below_from_def)
  have "i \<le> j \<Longrightarrow> (W (p @ j # r) \<noteq> None) = (p @ j # r \<in> watch_path ` set (ws @ vs))" for j r
    using m[unfolded marks_from_def, rule_format, of j r] by simp
  then show "marks W (p @ [i]) ws" "marks_from W p (Suc i) vs"
    unfolding marks_def marks_from_def using no by (simp_all add: image_Un)
qed

definition unmarked :: "watches \<Rightarrow> path \<Rightarrow> bool" where
  "unmarked W p = (\<forall>r. W (p @ r) = None)"

lemma unmarked_child: "unmarked W p \<Longrightarrow> unmarked W (p @ q)"
  by (simp add: unmarked_def)

lemma marks_nil[simp]: "marks W p [] = unmarked W p"
  by (simp add: marks_def unmarked_def)

text \<open>Without marks, the map of watches, the inputs and the path play no part.\<close>

lemma interp_unmarked:
  "unmarked W p \<Longrightarrow> interp H F W env p cr a = interp_node H F Map.empty (env\<lparr>env_inputs := u\<rparr>) q cr a"
  "(\<And>i. unmarked W (p @ [i])) \<Longrightarrow>
     interp_node H F W env p cr a = interp_node H F Map.empty (env\<lparr>env_inputs := u\<rparr>) q cr a"
  "(\<And>i. unmarked W (p @ [i])) \<Longrightarrow>
     interp_args H F W env p i es = interp_args H F Map.empty (env\<lparr>env_inputs := u\<rparr>) q j es"
  "(\<And>i. unmarked W (p @ [i])) \<Longrightarrow>
     interp_push H F W env p i addr es = interp_push H F Map.empty (env\<lparr>env_inputs := u\<rparr>) q j addr es"
  "unmarked W p \<Longrightarrow>
     interp_key H F W env p k = interp_key H F Map.empty (env\<lparr>env_inputs := u\<rparr>) q k"
  "(\<And>i. unmarked W (p @ [i])) \<Longrightarrow>
     interp_props H F W env p i addr ps = interp_props H F Map.empty (env\<lparr>env_inputs := u\<rparr>) q j addr ps"
proof (induction H F W env p cr a and H F W env p cr a and H F W env p i es and H F W env p i addr es
    and H F W env p k and H F W env p i addr ps arbitrary: q and q and q j and q j and q and q j
    rule: interp_interp_node_interp_args_interp_push_interp_key_interp_props.induct)
  case (1 H F W env p cr a)
  have "W p = None" using 1(3)[unfolded unmarked_def, rule_format, of "[]"] by simp
  then show ?case using 1(1)[OF _ unmarked_child[OF 1(3)]] by (simp add: interp.simps)
qed (auto simp: val_of_def read_name_def name_base_def cong: if_cong)

lemma marks_self:
  assumes "marks W p [watch_self p a pure]"
  shows "W p \<noteq> None" "unmarked W (p @ [i])"
  using assms[unfolded marks_def, rule_format, of "[]"] assms[unfolded marks_def, rule_format, of "i # r" for r]
  by (auto simp: watch_self_def unmarked_def)

lemma interp_to_node:
  "env_inputs env = None \<Longrightarrow> interp H F W env p NoCreate a = interp_node H F W env p NoCreate a"
  by (simp add: interp.simps split: option.splits)

lemma interp_leaf:
  assumes m: "\<And>i. unmarked W (p @ [i])" and e: "env_inputs env = None"
  shows "interp H F W env p NoCreate a = interp_node H F Map.empty env q NoCreate a"
proof -
  have "interp_node H F W env p NoCreate a = interp_node H F Map.empty (env\<lparr>env_inputs := None\<rparr>) q NoCreate a"
    by (rule interp_unmarked(2)) (rule m)
  moreover have "env\<lparr>env_inputs := None\<rparr> = env" using e by simp
  ultimately show ?thesis using interp_to_node[OF e] by metis
qed

lemma interp_leaf':
  assumes "marks W p (if c then [] else [watch_self p a pure])" and "env_inputs env = None"
  shows "interp H F W env p NoCreate a = interp_node H F Map.empty env q NoCreate a"
proof (rule interp_leaf)
  show "unmarked W (p @ [i])" for i
    using assms(1) marks_self(2) unmarked_child by (auto split: if_splits)
qed (rule assms(2))

lemmas interp_self = interp_leaf'[where c = False, simplified]

lemma interp_no_inputs:
  "marks W p (toWatch (findConstantAndWatchExpressions flt parent p a)) \<Longrightarrow> env_inputs env = None \<Longrightarrow>
     interp H F W env p NoCreate a = interp_node H F Map.empty env q NoCreate a"
  "marks W p (toWatch (find_key flt p k)) \<Longrightarrow> env_inputs env = None \<Longrightarrow>
     interp_key H F W env p k = interp_key H F Map.empty env q k"
  "marks_from W p i (toWatch (find_args flt pure p i es)) \<Longrightarrow> env_inputs env = None \<Longrightarrow>
     interp_args H F W env p i es = interp_args H F Map.empty env q j es \<and>
     interp_push H F W env p i addr es = interp_push H F Map.empty env q j addr es"
  "marks_from W p (2 * i) (toWatch (find_props flt pure p i ps)) \<Longrightarrow> env_inputs env = None \<Longrightarrow>
     interp_props H F W env p i addr ps = interp_props H F Map.empty env q j addr ps"
proof (induction flt parent p a and flt p k and flt pure p i es and flt pure p i ps
    arbitrary: q and q and q j addr and q j addr
    rule: findConstantAndWatchExpressions_find_key_find_args_find_props.induct)
  case (2 flt parent p op a)
  from 2(1)[OF marks_only[OF 2(2)[simplified] find_below(1)] 2(3)] show ?case
    using 2(3) by (simp add: interp_to_node)
next
  case (3 flt parent p op l r)
  let ?pure = "Some (isPure (BinaryE op l r) parent)"
  have "marks W p (toWatch (findConstantAndWatchExpressions flt ?pure (p @ [0]) l)
      @ toWatch (findConstantAndWatchExpressions flt ?pure (p @ [1]) r))"
    using 3(3) by (simp add: Let_def)
  note m = marks_child[OF this find_below(1) find_below(1)]
  show ?case using 3(1)[OF refl m(1) 3(4)] 3(2)[OF refl refl m(2) 3(4)] 3(4) by (simp add: interp_to_node)
next
  case (10 flt parent p n args)
  show ?case
  proof (cases "isStateless flt n")
    case True
    then show ?thesis
      using 10(1)[OF refl refl marks_from_0 10(3)] 10(2,3) by (simp add: interp_to_node Let_def)
  next
    case False
    then show ?thesis using 10(2,3)
      by (simp add: Let_def interp_self del: interp_node.simps)
  qed
next
  case (12 flt parent p es)
  then show ?case by (simp add: interp_to_node marks_from_0)
next
  case (13 flt parent p ps)
  then show ?case by (simp add: interp_to_node marks_from_0)
next
  case (21 flt pure p i e es)
  have "marks_from W p i (toWatch (findConstantAndWatchExpressions flt (Some pure) (p @ [i]) e)
      @ toWatch (find_args flt pure p (Suc i) es))"
    using 21(3) by (simp add: Let_def)
  note m = marks_from_step[OF this find_below(1) find_below(3)]
  show ?case using 21(1)[OF m(1) 21(4)] 21(2)[OF refl m(2) 21(4)] by simp
next
  case (23 flt pure p i k e ps)
  let ?v = "toWatch (findConstantAndWatchExpressions flt (Some pure) (p @ [2 * i]) e)"
  let ?k = "toWatch (find_key flt (p @ [2 * i + 1]) k)"
  let ?ps = "toWatch (find_props flt pure p (Suc i) ps)"
  have all: "marks_from W p (2 * i) (?v @ ?k @ ?ps)"
    using 23(4) by (simp add: Let_def)
  have b: "below_from p (Suc (2 * i)) ?ps" "below_from p (Suc (Suc (2 * i))) ?ps"
    using find_below(4)[of p "Suc i" flt pure ps] by (auto intro: below_up)
  have kb: "below (p @ [Suc (2 * i)]) ?k" using find_below(2)[of "p @ [2 * i + 1]" flt k] by simp
  note v = marks_from_step[OF all find_below(1)]
  have mv: "marks W (p @ [2 * i]) ?v" and rest: "marks_from W p (Suc (2 * i)) (?k @ ?ps)"
    using v kb b by (auto intro: below_up)
  have mk: "marks W (p @ [2 * i + 1]) ?k" and mp: "marks_from W p (2 * Suc i) ?ps"
    using marks_from_step[OF rest kb b(2)] by simp_all
  show ?case
    using 23(1)[OF mv 23(5)] 23(2)[OF refl mk 23(5)] 23(3)[OF refl refl mp 23(5)] by simp
qed (auto simp: Let_def simp del: interp_node.simps marks_nil intro: interp_self interp_leaf')

lemma watch_ids_dom: "(watch_ids ws q \<noteq> None) = (q \<in> watch_path ` set ws)"
proof -
  have "dom (watch_ids ws) = watch_path ` set ws"
    unfolding watch_ids_def by (subst dom_map_of_zip) auto
  then show ?thesis by (metis domIff)
qed

lemma marks_watch_ids: "marks (watch_ids ws) p ws"
  unfolding marks_def using watch_ids_dom by metis

text \<open>What the two outcomes of \<open>getInputs\<close> mean.\<close>

lemma length_find_program: "length (find_program flt body) = length body"
  by (simp add: find_program_def)

lemma getInputs_Some:
  assumes "getInputs flt body = Some ws"
  shows "\<exists>e. body = [e] \<and> ws = toWatch (findConstantAndWatchExpressions flt (Some PurityRelative) [0] e)"
proof -
  obtain i where i: "find_program flt body = [i]" and w: "ws = toWatch i"
    using assms by (auto simp: getInputs_def split: list.splits if_splits)
  have "length body = 1" using arg_cong[OF i, of length] by (simp add: length_find_program)
  then obtain e where "body = [e]" by (cases body) auto
  then show ?thesis using i w by (simp add: find_program_def)
qed

lemma interp_empty_path:
  "interp_node H F Map.empty env p cr a = interp_node H F Map.empty env q cr a"
  using interp_unmarked(2)[of Map.empty p H F env cr a "env_inputs env" q] by (simp add: unmarked_def)

lemma run_statements_empty_path:
  "run_statements H F Map.empty env i v body = run_statements H F Map.empty env j v body"
proof (induction body arbitrary: i j v)
  case (Cons e es)
  have 1: "(\<lambda>v. run_statements H F Map.empty env (Suc i) v es) = (\<lambda>v. run_statements H F Map.empty env (Suc j) v es)"
    by (rule ext) (rule Cons.IH)
  have 2: "interp_node H F Map.empty env [i] NoCreate e = interp_node H F Map.empty env [j] NoCreate e"
    by (rule interp_empty_path)
  show ?case by (simp only: run_statements.simps interp_empty 1 2)
qed simp

lemma compile_direct:
  assumes e: "env_inputs env = None"
  shows "fn (compile H F flt body) env = run_statements H F Map.empty (body_env body env) 0 Undef body"
proof (cases "getInputs flt body")
  case (Some ws)
  then obtain a where b: "body = [a]"
    and w: "ws = toWatch (findConstantAndWatchExpressions flt (Some PurityRelative) [0] a)"
    using getInputs_Some by blast
  show ?thesis
    using interp_no_inputs(1)[OF marks_watch_ids[of ws "[0]", unfolded w] e, of H F "[0]"]
    using Some unfolding b w by (simp add: compile_def watches_of_def)
qed (simp add: compile_def watches_of_def)

lemma constant_statements:
  assumes "\<And>i. i < length body \<Longrightarrow>
    is_const (findConstantAndWatchExpressions flt (Some PurityRelative) [i + k] (body ! i))"
  shows "run_statements H F Map.empty env j v body = run_statements H F Map.empty env' j v body"
  using assms
proof (induction body arbitrary: j v k)
  case (Cons e es)
  have "is_const (findConstantAndWatchExpressions flt (Some PurityRelative) [k] e)"
    using Cons.prems[of 0] by simp
  then have "interp_node H F Map.empty env [j] NoCreate e = interp_node H F Map.empty env' [j] NoCreate e"
    by (rule constant_reads_no_env)
  moreover have "run_statements H F Map.empty env (Suc j) w es = run_statements H F Map.empty env' (Suc j) w es" for w
  proof (rule Cons.IH)
    fix i assume "i < length es"
    then show "is_const (findConstantAndWatchExpressions flt (Some PurityRelative) [i + Suc k] (es ! i))"
      using Cons.prems[of "Suc i"] by simp
  qed
  ultimately show ?case by simp
qed simp

lemma isConstant_nth:
  "isConstant flt body \<Longrightarrow> i < length body \<Longrightarrow>
     is_const (findConstantAndWatchExpressions flt (Some PurityRelative) [i] (body ! i))"
  by (force simp: isConstant_def find_program_def list_all_length)

lemma compiled_constant:
  assumes "isConstant flt body" "env_inputs env = None" "env_inputs env' = None"
  shows "fn (compile H F flt body) env = fn (compile H F flt body) env'"
  using constant_statements[of body flt 0] isConstant_nth[OF assms(1)] assms(2,3)
  by (simp add: compile_direct)

subsection \<open>Read-only expressions\<close>

text \<open>
  \<open>quiet\<close>: literals, names, members, operators and filters, without calls, assignments or object
  and array literals. \<open>pure_host\<close>: converting an object to a primitive does not write.
\<close>

fun quiet :: "ast \<Rightarrow> bool" where
  "quiet (Literal v) = True"
| "quiet (IdentifierE n) = True"
| "quiet (UnaryE op a) = quiet a"
| "quiet (BinaryE op l r) = (quiet l \<and> quiet r)"
| "quiet (LogicalE op l r) = (quiet l \<and> quiet r)"
| "quiet (ConditionalE t a b) = (quiet t \<and> quiet a \<and> quiet b)"
| "quiet (MemberE b n) = quiet b"
| "quiet (ComputedMemberE b k) = (quiet b \<and> quiet k)"
| "quiet (FilterE n args) = list_all quiet args"
| "quiet ThisE = True"
| "quiet LocalsE = True"
| "quiet NGValueParameter = True"
| "quiet _ = False"

definition keeps :: "'a js \<Rightarrow> bool" where
  "keeps m = (\<forall>h. snd (m h) = h)"

definition pure_host :: "host \<Rightarrow> filters \<Rightarrow> bool" where
  "pure_host H F = ((\<forall>hint a. keeps (to_prim H hint a)) \<and> (\<forall>n vs. keeps (F n vs)))"

lemma keeps_bind: "keeps m \<Longrightarrow> (\<And>a. keeps (f a)) \<Longrightarrow> keeps (bindJ m f)"
  by (auto simp: keeps_def bindJ_def split: prod.splits sum.splits) (metis snd_conv)+

lemma keeps_simps[simp]: "keeps (retJ x)" "keeps (throwJ e)" "keeps (getH f)"
  by (simp_all add: keeps_def js_simps)

lemma keeps_get_v: "keeps (get_v H v k)"
  by (cases v) (auto split: option.splits)

lemma keeps_has_v: "keeps (has_v v k)"
  by (cases v) auto

lemma keeps_to_primitive: "pure_host H F \<Longrightarrow> keeps (to_primitive H hint v)"
  by (cases v) (auto intro!: keeps_bind simp: pure_host_def split: val.splits)

lemma keeps_conversions:
  assumes "pure_host H F"
  shows "keeps (to_number H v)" "keeps (js_plus H v w)" "keeps (js_arith H f v w)"
    "keeps (js_eq H v w)" "keeps (js_compare H fs g v w)" "keeps (getStringValue H v)"
  using assms
  by (auto simp: to_number_def js_plus_def js_arith_def js_compare_def getStringValue_def
      intro!: keeps_bind keeps_to_primitive) (cases v; cases w; auto intro!: keeps_bind keeps_to_primitive simp del: to_primitive.simps)

lemma keeps_operators:
  assumes "pure_host H F"
  shows "keeps (unary_op H op v)" "keeps (binary_op H op v w)"
  using keeps_conversions[OF assms]
  by (auto simp: unary_op_def binary_op_def plusFn_def Let_def intro!: keeps_bind)

lemma keeps_interp:
  "keeps (interp_node H F W env p NoCreate a) \<Longrightarrow> keeps (interp H F W env p NoCreate a)"
  by (simp add: interp.simps split: option.splits)

lemma keeps_args:
  "(\<And>a p. a \<in> set es \<Longrightarrow> keeps (interp H F W env p NoCreate a)) \<Longrightarrow> keeps (interp_args H F W env p i es)"
  by (induction es arbitrary: i) (auto intro!: keeps_bind)

lemma quiet_keeps:
  assumes H: "pure_host H F"
  shows "quiet a \<Longrightarrow> keeps (interp_node H F W env p NoCreate a)"
proof (induction a arbitrary: p rule: quiet.induct)
  case (9 n args)
  then show ?case using H
    by (auto simp: list_all_iff pure_host_def intro!: keeps_bind keeps_args keeps_interp)
qed (use H in \<open>auto intro!: keeps_bind keeps_interp keeps_operators keeps_get_v keeps_has_v keeps_conversions
    simp: read_name_def name_base_def nonComputedMember_def computedMember_def val_of_def\<close>)

subsection \<open>Evaluating from the inputs\<close>

text \<open>\<open>inputs_at\<close>: each marked node has, among the inputs, the value it has in the heap \<open>h\<close>.\<close>

definition inputs_at ::
  "host \<Rightarrow> filters \<Rightarrow> watches \<Rightarrow> env \<Rightarrow> val list \<Rightarrow> heap \<Rightarrow> watch list \<Rightarrow> bool" where
  "inputs_at H F W env vs h ws = (\<forall>w\<in>set ws. \<exists>k. W (watch_path w) = Some k \<and>
     val_of (interp_node H F Map.empty (no_inputs env) [] NoCreate (watch_expr w)) h = (Inr (input_at vs k), h))"

lemma inputs_at_append[simp]:
  "inputs_at H F W env vs h (ws @ us) = (inputs_at H F W env vs h ws \<and> inputs_at H F W env vs h us)"
  by (auto simp: inputs_at_def)

lemma bind_val_cong:
  assumes "val_of m h = val_of m' h" and "keeps m" and "\<And>v. f v h = g v h"
  shows "bindJ m (\<lambda>r. f (ref_value r)) h = bindJ m' (\<lambda>r. g (ref_value r)) h"
proof -
  have k: "snd (m h) = h" using assms(2) by (simp add: keeps_def)
  show ?thesis
    using assms(1,3) k by (cases "m h"; cases "m' h") 
      (auto simp: val_of_def bindJ_def retJ_def split: sum.splits)
qed

lemma val_of_just: "val_of (bindJ m (\<lambda>r. bindJ (f r) (\<lambda>v. retJ (just v)))) = bindJ m f"
  by (auto simp: val_of_def bindJ_def retJ_def fun_eq_iff split: prod.splits sum.splits)

lemma val_of_just2:
  "val_of (bindJ m (\<lambda>r. bindJ (n r) (\<lambda>s. bindJ (f r s) (\<lambda>v. retJ (just v))))) = bindJ m (\<lambda>r. bindJ (n r) (f r))"
  by (auto simp: val_of_def bindJ_def retJ_def fun_eq_iff split: prod.splits sum.splits)

lemma interp_unmarked_step:
  "W p = None \<Longrightarrow> interp H F W env p cr a = interp_node H F W env p cr a"
  by (simp add: interp.simps)

lemma unmarked_here:
  assumes "marks W p ws" "below_from p 0 ws"
  shows "W p = None"
proof (rule ccontr)
  assume "W p \<noteq> None"
  then have "p \<in> watch_path ` set ws" using assms(1)[unfolded marks_def, rule_format, of "[]"] by simp
  then show False using assms(2) by (auto simp: below_from_def)
qed

lemma interp_self_input:
  assumes m: "marks W p (if c then [] else [watch_self p a pure])" and e: "env_inputs env = Some vs"
    and i: "inputs_at H F W env vs h (if c then [] else [watch_self p a pure])"
  shows "val_of (interp H F W env p NoCreate a) h = val_of (interp_node H F Map.empty (no_inputs env) q NoCreate a) h"
proof (cases c)
  case True
  then show ?thesis using m interp_unmarked(1)[of W p H F env NoCreate a None q]
    by (simp add: no_inputs_def)
next
  case False
  then obtain k where k: "W p = Some k"
    and v: "val_of (interp_node H F Map.empty (no_inputs env) [] NoCreate a) h = (Inr (input_at vs k), h)"
    using i by (auto simp: inputs_at_def watch_self_def)
  have "val_of (interp H F W env p NoCreate a) h = (Inr (input_at vs k), h)"
    using k e by (simp add: interp.simps val_of_def js_simps)
  then show ?thesis using v interp_empty_path[of H F _ "[]" NoCreate a q] by metis
qed

lemma interp_from_inputs:
  assumes H: "pure_host H F"
  shows "marks W p (toWatch (findConstantAndWatchExpressions flt parent p a)) \<Longrightarrow> env_inputs env = Some vs \<Longrightarrow>
     inputs_at H F W env vs h (toWatch (findConstantAndWatchExpressions flt parent p a)) \<Longrightarrow> quiet a \<Longrightarrow>
     val_of (interp H F W env p NoCreate a) h =
     val_of (interp_node H F Map.empty (no_inputs env) q NoCreate a) h"
  "find_key flt p k = find_key flt p k"
  "marks_from W p i (toWatch (find_args flt pure p i es)) \<Longrightarrow> env_inputs env = Some vs \<Longrightarrow>
     inputs_at H F W env vs h (toWatch (find_args flt pure p i es)) \<Longrightarrow> list_all quiet es \<Longrightarrow>
     interp_args H F W env p i es h = interp_args H F Map.empty (no_inputs env) q j es h"
  "find_props flt pure p i ps = find_props flt pure p i ps"
proof (induction flt parent p a and flt p k and flt pure p i es and flt pure p i ps
    arbitrary: q and q and q j and q j
    rule: findConstantAndWatchExpressions_find_key_find_args_find_props.induct)
  case (2 flt parent p op a)
  let ?w = "toWatch (findConstantAndWatchExpressions flt (Some (isPure (UnaryE op a) parent)) (p @ [0]) a)"
  have m: "marks W p ?w" using 2(2) by simp
  have W: "W p = None" by (rule unmarked_here[OF m]) (rule below_up(3)[OF find_below(1)], simp)
  have "val_of (interp H F W env (p @ [0]) NoCreate a) h =
      val_of (interp_node H F Map.empty (no_inputs env) (q @ [0]) NoCreate a) h"
    using 2(1)[OF marks_only[OF m find_below(1)] 2(3)] 2(4,5) by simp
  moreover have "keeps (interp H F W env (p @ [0]) NoCreate a)"
    using keeps_interp[OF quiet_keeps[OF H]] 2(5) by simp
  ultimately show ?case
    by (simp add: interp_unmarked_step[of W p, OF W] val_of_just) (rule bind_val_cong, simp_all)
next
  case (3 flt parent p op l r)
  let ?pure = "Some (isPure (BinaryE op l r) parent)"
  let ?l = "toWatch (findConstantAndWatchExpressions flt ?pure (p @ [0]) l)"
  let ?r = "toWatch (findConstantAndWatchExpressions flt ?pure (p @ [1]) r)"
  have all: "marks W p (?l @ ?r)" using 3(3) by (simp add: Let_def)
  note m = marks_child[OF this find_below(1) find_below(1)]
  have W: "W p = None"
    by (rule unmarked_here[OF all]) (simp add: below_up(3)[OF find_below(1)])
  have k: "keeps (interp H F W env (p @ [0]) NoCreate l)" "keeps (interp H F W env (p @ [1]) NoCreate r)"
    using keeps_interp[OF quiet_keeps[OF H]] 3(6) by simp_all
  have l: "val_of (interp H F W env (p @ [0]) NoCreate l) h =
      val_of (interp_node H F Map.empty (no_inputs env) (q @ [0]) NoCreate l) h"
    using 3(1)[OF refl m(1) 3(4)] 3(5,6) by (simp add: Let_def)
  have r: "val_of (interp H F W env (p @ [1]) NoCreate r) h =
      val_of (interp_node H F Map.empty (no_inputs env) (q @ [1]) NoCreate r) h"
    using 3(2)[OF refl refl m(2) 3(4)] 3(5,6) by (simp add: Let_def)
  show ?case
    by (simp add: interp_unmarked_step[of W p, OF W] val_of_just2)
      (rule bind_val_cong[OF l k(1)], rule bind_val_cong[OF r[simplified] k(2)[simplified]], simp)
next
  case (10 flt parent p n args)
  show ?case
  proof (cases "isStateless flt n")
    case True
    let ?w = "toWatch (find_args flt (isPure (FilterE n args) parent) p 0 args)"
    have m: "marks W p ?w" using 10(2) True by (simp add: Let_def)
    have W: "W p = None" by (rule unmarked_here[OF m find_below(3)])
    have "interp_args H F W env p 0 args h = interp_args H F Map.empty (no_inputs env) q 0 args h"
      using 10(1)[OF refl refl marks_from_0[OF m] 10(3)] 10(4,5) True by (simp add: Let_def)
    then show ?thesis
      by (simp add: interp_unmarked_step[of W p, OF W] val_of_just) (simp add: bindJ_def)
  next
    case False
    then show ?thesis using 10(2-5)
      by (simp add: Let_def interp_self_input[where c = False, simplified] del: interp_node.simps)
  qed
next
  case (21 flt pure p i e es)
  let ?e = "toWatch (findConstantAndWatchExpressions flt (Some pure) (p @ [i]) e)"
  let ?es = "toWatch (find_args flt pure p (Suc i) es)"
  have all: "marks_from W p i (?e @ ?es)" using 21(3) by (simp add: Let_def)
  note m = marks_from_step[OF this find_below(1) find_below(3)]
  have e: "val_of (interp H F W env (p @ [i]) NoCreate e) h =
      val_of (interp_node H F Map.empty (no_inputs env) (q @ [j]) NoCreate e) h"
    using 21(1)[OF m(1) 21(4)] 21(5,6) by (simp add: Let_def)
  have es: "interp_args H F W env p (Suc i) es h = interp_args H F Map.empty (no_inputs env) q (Suc j) es h"
    using 21(2)[OF refl m(2) 21(4)] 21(5,6) by (simp add: Let_def)
  have "keeps (interp H F W env (p @ [i]) NoCreate e)"
    using keeps_interp[OF quiet_keeps[OF H]] 21(6) by simp
  then have "bindJ (interp H F W env (p @ [i]) NoCreate e)
       (\<lambda>r. bindJ (interp_args H F W env p (Suc i) es) (\<lambda>vs. retJ (ref_value r # vs))) h =
     bindJ (interp_node H F Map.empty (no_inputs env) (q @ [j]) NoCreate e)
       (\<lambda>r. bindJ (interp_args H F Map.empty (no_inputs env) q (Suc j) es) (\<lambda>vs. retJ (ref_value r # vs))) h"
    by (rule bind_val_cong[OF e, where f = "\<lambda>x. bindJ _ (\<lambda>vs. retJ (x # vs))"
          and g = "\<lambda>x. bindJ _ (\<lambda>vs. retJ (x # vs))"]) (simp add: es bindJ_def)
  then show ?case by simp
next
  case (12 flt parent p es)
  then show ?case by simp
next
  case (13 flt parent p ps)
  then show ?case by simp
qed (auto simp: Let_def simp del: interp_node.simps marks_nil 
  intro: interp_self_input[where c = False, simplified] interp_self_input interp_self_input[where c = True, simplified])

end
