(* ===== verification/NgEval.thy ===== *)
theory NgEval
  imports NgParse
begin

section \<open>Expressions: reading and assigning paths\<close>

text \<open>
  Expressions that only read never fail, whatever is missing on the way; and assigning to a dotted
  path builds the objects that are missing, so that the path then reads back the value.
\<close>

subsection \<open>Reading\<close>

fun forgiving :: "ast \<Rightarrow> bool" where
  "forgiving (Literal v) = True"
| "forgiving (IdentifierE n) = True"
| "forgiving (UnaryE op a) = (op = J ''!'' \<and> forgiving a)"
| "forgiving (BinaryE op l r) = ((op = J ''==='' \<or> op = J ''!=='') \<and> forgiving l \<and> forgiving r)"
| "forgiving (LogicalE op l r) = (forgiving l \<and> forgiving r)"
| "forgiving (ConditionalE t a b) = (forgiving t \<and> forgiving a \<and> forgiving b)"
| "forgiving (MemberE b n) = forgiving b"
| "forgiving ThisE = True"
| "forgiving LocalsE = True"
| "forgiving _ = False"

definition plain_locals :: "val \<Rightarrow> bool" where
  "plain_locals v = (case v of Ref _ \<Rightarrow> True | _ \<Rightarrow> \<not> truthy v)"

definition reads :: "'a js \<Rightarrow> heap \<Rightarrow> bool" where
  "reads m h = (is_ok (fst (m h)) \<and> snd (m h) = h)"

lemma reads_simps[simp]: "reads (retJ x) h" "reads (getH f) h" "\<not> reads (throwJ e) h"
  by (simp_all add: reads_def js_simps)

lemma reads_bind:
  assumes "reads m h" "\<And>a. reads (f a) h"
  shows "reads (bindJ m f) h"
  using assms by (auto simp: reads_def bindJ_def is_ok_iff split: prod.splits sum.splits)

lemma reads_get_v: "\<not> is_nullish v \<Longrightarrow> reads (get_v H v k) h"
  by (cases v) (auto simp: is_nullish_def split: option.splits)

lemma truthy_not_nullish: "truthy v \<Longrightarrow> \<not> is_nullish v"
  by (cases v) (auto simp: is_nullish_def)

lemma reads_name_base: "plain_locals (env_locals env) \<Longrightarrow> reads (name_base env n) h"
  by (cases "env_locals env") (auto simp: name_base_def plain_locals_def intro!: reads_bind)

lemma reads_read_name: "plain_locals (env_locals env) \<Longrightarrow> reads (read_name H env NoCreate n) h"
  unfolding read_name_def
  by (auto intro!: reads_bind reads_name_base reads_get_v truthy_not_nullish)

lemma reads_member: "reads (nonComputedMember H NoCreate v n) h"
  unfolding nonComputedMember_def by (auto intro!: reads_bind reads_get_v)

lemma reads_operators:
  "reads (unary_op H (J ''!'') v) h" "reads (binary_op H (J ''==='') v w) h" "reads (binary_op H (J ''!=='') v w) h"
  by (simp_all add: unary_op_def binary_op_def)

lemma forgiving_reads:
  "forgiving a \<Longrightarrow> plain_locals (env_locals env) \<Longrightarrow> reads (interp_node H F Map.empty env p NoCreate a) h"
proof (induction a arbitrary: p)
  case (UnaryE op a)
  then have op: "op = J ''!''" and a: "forgiving a" by simp_all
  show ?case
    by (simp add: op reads_bind reads_operators UnaryE.IH[OF a UnaryE.prems(2)] del: J_Cons J_Nil)
next
  case (BinaryE op l r)
  then show ?case
    by (auto intro!: reads_bind reads_operators simp del: J_Cons J_Nil)
qed (auto intro!: reads_bind reads_read_name reads_member)

lemma reads_val_of: "reads m h \<Longrightarrow> reads (val_of m) h"
  by (simp add: val_of_def reads_bind)

lemma reads_result: "reads m h \<Longrightarrow> \<exists>v. m h = (Inr v, h)"
  by (cases "m h") (auto simp: reads_def is_ok_iff)

subsection \<open>Assigning\<close>

text \<open>The expression \<open>n0.n1.n2\<close>.\<close>

definition path_expr :: "jstring \<Rightarrow> jstring list \<Rightarrow> ast" where
  "path_expr n ns = foldl MemberE (IdentifierE n) ns"

lemma path_expr_simps[simp]:
  "path_expr n [] = IdentifierE n" "path_expr n (ns @ [m]) = MemberE (path_expr n ns) m"
  by (simp_all add: path_expr_def)

definition fresh_obj :: "host \<Rightarrow> (jstring \<times> val) list \<Rightarrow> jobj" where
  "fresh_obj H ps = \<lparr>cls = PlainObject, proto = object_proto H, props = ps, elems = []\<rparr>"

text \<open>
  \<open>no_inherited\<close>: the object prototype, at \<open>pr\<close>, has none of the names. \<open>built\<close>: the heap after
  the path has been created below \<open>sc\<close>, where the new objects have the addresses from \<open>a\<close>.
\<close>

definition no_inherited :: "host \<Rightarrow> heap \<Rightarrow> nat \<Rightarrow> jstring list \<Rightarrow> bool" where
  "no_inherited H h pr ns = (object_proto H = Some pr \<and> pr < next_addr h \<and>
     (\<exists>ob. store h pr = Some ob \<and> proto ob = None \<and> (\<forall>m\<in>set ns. own_prop ob m = None)))"

definition built :: "host \<Rightarrow> heap \<Rightarrow> nat \<Rightarrow> jobj \<Rightarrow> jstring \<Rightarrow> jstring list \<Rightarrow> heap \<Rightarrow> bool" where
  "built H h sc ob n ns h' = (let a = next_addr h; k = length ns in
     next_addr h' = Suc (a + k) \<and>
     store h' sc = Some (set_own ob n (Ref a)) \<and>
     (\<forall>i<k. store h' (a + i) = Some (fresh_obj H [(ns ! i, Ref (Suc (a + i)))])) \<and>
     store h' (a + k) = Some (fresh_obj H []) \<and>
     (\<forall>b<a. b \<noteq> sc \<longrightarrow> store h' b = store h b))"

definition scope_only :: "nat \<Rightarrow> val \<Rightarrow> env" where
  "scope_only sc v = \<lparr>env_scope = Ref sc, env_locals = Undef, env_assign = v, env_inputs = None\<rparr>"

lemma own_fresh[simp]: "own_prop (fresh_obj H ps) m = map_of ps m" "cls (fresh_obj H ps) = PlainObject"
  "proto (fresh_obj H ps) = object_proto H"
  by (simp_all add: fresh_obj_def own_prop_def)

lemma set_own_fresh: "set_own (fresh_obj H []) m w = fresh_obj H [(m, w)]"
  by (simp add: fresh_obj_def set_own_def)

lemma chain_val_own: "store h a = Some ob \<Longrightarrow> own_prop ob m = Some v \<Longrightarrow> chain_val h a m = v"
  by (simp add: chain_val_def obj_prop_own)

lemma chain_val_fresh:
  assumes "no_inherited H h pr ns" "m \<in> set ns" "store h a = Some (fresh_obj H [])"
  shows "chain_val h a m = Undef"
  using assms by (cases "next_addr h") (auto simp: chain_val_def obj_prop_def no_inherited_def)

lemma no_inherited_built:
  "built H h sc ob n ns h' \<Longrightarrow> no_inherited H h pr ms \<Longrightarrow> pr \<noteq> sc \<Longrightarrow> no_inherited H h' pr ms"
  by (auto simp: built_def no_inherited_def Let_def)

lemma read_name_scope:
  "read_name H (scope_only sc v) NoCreate n h = (Inr (Ref sc, n, chain_val h sc n), h)"
  "read_name H (scope_only sc v) CreateOne n h = (Inr (Ref sc, n, chain_val h sc n), h)"
  by (simp_all add: read_name_def name_base_def scope_only_def js_simps bindJ_def)

text \<open>Creating, with an object written over a missing property.\<close>

lemma create_in_missing:
  assumes "missing (chain_val h a m)" "store h a = Some ob" "cls ob \<noteq> ArrayObject" "a < next_addr h"
  shows "create_in H missing (Ref a) m h =
    (Inr (), h\<lparr>store := (store h)(next_addr h \<mapsto> fresh_obj H [], a \<mapsto> set_own ob m (Ref (next_addr h))),
       next_addr := Suc (next_addr h)\<rparr>)"
  using assms
  by (simp add: create_in_def new_object_def alloc_def put_obj_plain bindJ_def retJ_def getH_def fresh_obj_def fun_upd_def)

lemma create_path:
  assumes sc: "store h sc = Some ob" "cls ob \<noteq> ArrayObject" "sc < next_addr h"
    and n: "is_nullish (chain_val h sc n)" and pr: "no_inherited H h pr ns" "pr \<noteq> sc"
  shows "\<exists>h' r. interp_node H F Map.empty (scope_only sc v) p CreateTrue (path_expr n ns) h = (Inr r, h') \<and>
    ref_value r = Ref (next_addr h + length ns) \<and> built H h sc ob n ns h'"
  using pr
proof (induction ns arbitrary: p rule: rev_induct)
  case Nil
  let ?h = "h\<lparr>store := (store h)(next_addr h \<mapsto> fresh_obj H [], sc \<mapsto> set_own ob n (Ref (next_addr h))),
       next_addr := Suc (next_addr h)\<rparr>"
  have "chain_val ?h sc n = Ref (next_addr h)"
    using sc by (intro chain_val_own) (auto simp: own_prop_set_own)
  then have "interp_node H F Map.empty (scope_only sc v) p CreateTrue (path_expr n []) h =
      (Inr (Ref sc, n, Ref (next_addr h)), ?h)"
    using create_in_missing[of is_nullish h sc n ob H, OF n sc(1,2,3)]
    by (simp add: read_name_def name_base_def scope_only_def bindJ_def retJ_def getH_def)
  moreover have "built H h sc ob n [] ?h" using sc by (auto simp: built_def)
  ultimately show ?case by simp
next
  case (snoc m ns)
  have "no_inherited H h pr ns" using snoc.prems(1) by (auto simp: no_inherited_def)
  from snoc.IH[OF this snoc.prems(2)]
  obtain h1 r where e: "interp_node H F Map.empty (scope_only sc v) (p @ [0]) CreateTrue (path_expr n ns) h = (Inr r, h1)"
    and r: "ref_value r = Ref (next_addr h + length ns)" and b: "built H h sc ob n ns h1" by blast
  let ?a = "next_addr h + length ns"
  let ?h = "h1\<lparr>store := (store h1)(next_addr h1 \<mapsto> fresh_obj H [], ?a \<mapsto> set_own (fresh_obj H []) m (Ref (next_addr h1))),
       next_addr := Suc (next_addr h1)\<rparr>"
  have st: "store h1 ?a = Some (fresh_obj H [])" and na: "next_addr h1 = Suc ?a"
    using b by (simp_all add: built_def Let_def)
  have miss: "chain_val h1 ?a m = Undef"
    using chain_val_fresh[OF no_inherited_built[OF b snoc.prems] _ st] by simp
  then have c: "create_in H is_nullish (Ref ?a) m h1 = (Inr (), ?h)"
    using create_in_missing[of is_nullish h1 ?a m, OF _ st] na by (simp add: is_nullish_def)
  have "chain_val ?h ?a m = Ref (next_addr h1)"
    using na by (intro chain_val_own) (auto simp: own_prop_set_own)
  then have "nonComputedMember H CreateTrue (Ref ?a) m h1 = (Inr (Ref ?a, m, Ref (next_addr h1)), ?h)"
    using c by (simp add: nonComputedMember_def bindJ_def retJ_def getH_def is_nullish_def)
  then have "interp_node H F Map.empty (scope_only sc v) p CreateTrue (path_expr n (ns @ [m])) h =
      (Inr (Ref ?a, m, Ref (next_addr h1)), ?h)"
    using e r by (simp add: bindJ_Inr)
  moreover have "built H h sc ob n (ns @ [m]) ?h"
    using b na sc(3) by (auto simp: built_def Let_def nth_append set_own_fresh less_Suc_eq)
  ultimately show ?case using na by simp
qed

text \<open>Reading along the chain that was built.\<close>

lemma read_path:
  assumes "store h' sc = Some ob'" "own_prop ob' n = Some (Ref a)"
    and "\<And>i. i < length ns \<Longrightarrow> \<exists>o'. store h' (a + i) = Some o' \<and> own_prop o' (ns ! i) = Some (if Suc i = length ns then w else Ref (Suc (a + i)))"
    and "ns \<noteq> []"
  shows "\<exists>r. interp_node H F Map.empty (scope_only sc v) p NoCreate (path_expr n ns) h' = (Inr r, h') \<and> ref_value r = w"
proof -
  have part: "\<exists>r. interp_node H F Map.empty (scope_only sc v) p NoCreate (path_expr n (take j ns)) h' = (Inr r, h') \<and>
      ref_value r = (if j = length ns then w else Ref (a + j))" if "j \<le> length ns" for j p
    using that
  proof (induction j arbitrary: p)
    case 0
    then show ?case using assms(1,2,4) by (simp add: read_name_scope chain_val_own)
  next
    case (Suc j)
    then obtain r where r: "interp_node H F Map.empty (scope_only sc v) (p @ [0]) NoCreate (path_expr n (take j ns)) h' = (Inr r, h')"
      "ref_value r = Ref (a + j)" by (metis Suc_leD Suc_n_not_le_n)
    obtain o' where o': "store h' (a + j) = Some o'"
      "own_prop o' (ns ! j) = Some (if Suc j = length ns then w else Ref (Suc (a + j)))"
      using assms(3)[of j] Suc.prems by auto
    have "take (Suc j) ns = take j ns @ [ns ! j]" using Suc.prems by (simp add: take_Suc_conv_app_nth)
    then show ?case
      using r chain_val_own[OF o']
      by (simp add: bindJ_Inr nonComputedMember_def bindJ_def retJ_def getH_def is_nullish_def)
  qed
  show ?thesis using part[of "length ns" p] by simp
qed

lemma assign_then_read:
  assumes sc: "store h sc = Some ob" "cls ob \<noteq> ArrayObject" "sc < next_addr h"
    and n: "is_nullish (chain_val h sc n)" and pr: "no_inherited H h pr ns" "pr \<noteq> sc" and ns: "ns \<noteq> []"
  shows "\<exists>h' r r'. interp_node H F Map.empty (scope_only sc w) p NoCreate (AssignmentE (path_expr n ns) NGValueParameter) h
      = (Inr r, h') \<and> ref_value r = w \<and>
    interp_node H F Map.empty (scope_only sc u) q NoCreate (path_expr n ns) h' = (Inr r', h') \<and> ref_value r' = w"
proof -
  obtain ms m where nm: "ns = ms @ [m]" using ns rev_exhaust by blast
  have "no_inherited H h pr ms" using pr nm by (auto simp: no_inherited_def)
  from create_path[OF sc n this pr(2), of F w "(p @ [0]) @ [0]"]
  obtain h1 r where e: "interp_node H F Map.empty (scope_only sc w) ((p @ [0]) @ [0]) CreateTrue (path_expr n ms) h = (Inr r, h1)"
    and r: "ref_value r = Ref (next_addr h + length ms)" and b: "built H h sc ob n ms h1" by blast
  let ?a = "next_addr h + length ms"
  have st: "store h1 ?a = Some (fresh_obj H [])" using b by (simp add: built_def Let_def)
  let ?h = "h1\<lparr>store := (store h1)(?a \<mapsto> fresh_obj H [(m, w)])\<rparr>"
  have l: "interp_node H F Map.empty (scope_only sc w) (p @ [0]) CreateOne (path_expr n ns) h = (Inr (Ref ?a, m, chain_val h1 ?a m), h1)"
    using e r by (simp add: nm bindJ_Inr nonComputedMember_def bindJ_def retJ_def getH_def is_nullish_def)
  have "interp_node H F Map.empty (scope_only sc w) p NoCreate (AssignmentE (path_expr n ns) NGValueParameter) h = (Inr (just w), ?h)"
    using l put_obj_plain[OF st, of m w]
    by (simp add: bindJ_Inr js_simps set_own_fresh scope_only_def bindJ_def)
  moreover have "\<exists>r. interp_node H F Map.empty (scope_only sc u) q NoCreate (path_expr n ns) ?h = (Inr r, ?h) \<and> ref_value r = w"
  proof (rule read_path)
    show "store ?h sc = Some (set_own ob n (Ref (next_addr h)))" using b sc(3) by (simp add: built_def Let_def)
    show "own_prop (set_own ob n (Ref (next_addr h))) n = Some (Ref (next_addr h))"
      using sc(2) by (simp add: own_prop_set_own)
    fix i assume "i < length ns"
    then show "\<exists>o'. store ?h (next_addr h + i) = Some o' \<and>
        own_prop o' (ns ! i) = Some (if Suc i = length ns then w else Ref (Suc (next_addr h + i)))"
      using b nm by (cases "i = length ms") (auto simp: built_def Let_def nth_append less_Suc_eq)
  qed (rule ns)
  ultimately show ?thesis by (metis ref_value_simps(2))
qed

subsection \<open>The inputs of an expression\<close>

lemma below_disjoint:
  "below (p @ [i]) ws \<Longrightarrow> below_from p (Suc i) vs \<Longrightarrow> watch_path ` set ws \<inter> watch_path ` set vs = {}"
  "below (p @ [i]) ws \<Longrightarrow> below (p @ [j]) vs \<Longrightarrow> i \<noteq> j \<Longrightarrow> watch_path ` set ws \<inter> watch_path ` set vs = {}"
  by (fastforce simp: below_def below_from_def)+

lemma watch_paths_distinct:
  "distinct (map watch_path (toWatch (findConstantAndWatchExpressions flt parent p a)))"
  "distinct (map watch_path (toWatch (find_key flt p k)))"
  "distinct (map watch_path (toWatch (find_args flt pure p i es)))"
  "distinct (map watch_path (toWatch (find_props flt pure p i ps)))"
proof (induction flt parent p a and flt p k and flt pure p i es and flt pure p i ps
    rule: findConstantAndWatchExpressions_find_key_find_args_find_props.induct)
  case (3 flt parent p op l r)
  have "i \<noteq> j \<Longrightarrow> watch_path ` set (toWatch (findConstantAndWatchExpressions flt pu (p @ [i]) l)) \<inter>
      watch_path ` set (toWatch (findConstantAndWatchExpressions flt pu (p @ [j]) r)) = {}" for i j pu
    by (rule below_disjoint(2)) (rule find_below)+
  then show ?case using 3 by (simp add: Let_def)
next
  case (21 flt pure p i e es)
  have "watch_path ` set (toWatch (findConstantAndWatchExpressions flt (Some pure) (p @ [i]) e)) \<inter>
      watch_path ` set (toWatch (find_args flt pure p (Suc i) es)) = {}"
    by (rule below_disjoint(1)) (rule find_below)+
  then show ?case using 21 by (simp add: Let_def)
next
  case (23 flt pure p i k e ps)
  have r: "below_from p (Suc (Suc (2 * i))) (toWatch (find_props flt pure p (Suc i) ps))"
    using find_below(4)[of p "Suc i" flt pure ps] by simp
  have "watch_path ` set (toWatch (findConstantAndWatchExpressions flt (Some pure) (p @ [2 * i]) e)) \<inter>
      watch_path ` set (toWatch (find_key flt (p @ [2 * i + 1]) k)) = {}"
    by (rule below_disjoint(2)) (rule find_below, rule find_below, simp)
  moreover have "watch_path ` set (toWatch (find_key flt (p @ [Suc (2 * i)]) k)) \<inter>
      watch_path ` set (toWatch (find_props flt pure p (Suc i) ps)) = {}"
    by (rule below_disjoint(1)[OF _ r]) (rule find_below)
  moreover have "watch_path ` set (toWatch (findConstantAndWatchExpressions flt (Some pure) (p @ [2 * i]) e)) \<inter>
      watch_path ` set (toWatch (find_props flt pure p (Suc i) ps)) = {}"
    by (rule below_disjoint(1)[OF find_below(1)]) (rule below_up(4)[OF r], simp)
  ultimately show ?case using 23 by (simp add: Let_def Int_Un_distrib)
qed (auto simp: Let_def)

lemma watch_ids_nth:
  "distinct (map watch_path ws) \<Longrightarrow> k < length ws \<Longrightarrow> watch_ids ws (watch_path (ws ! k)) = Some k"
  unfolding watch_ids_def by (rule map_of_is_SomeI) (auto simp: in_set_zip intro!: exI[of _ k])

text \<open>
  Running the compiled expression on the values of its inputs gives the value it has when it runs
  without them.
\<close>

lemma run_on_inputs:
  assumes i: "getInputs flt [a] = Some ws" and q: "quiet a" and H: "pure_host H F"
    and vs: "length vs = length ws" "env_inputs env = Some vs"
    and v: "\<And>k. k < length ws \<Longrightarrow>
      val_of (interp_node H F Map.empty (no_inputs env) [] NoCreate (watch_expr (ws ! k))) h = (Inr (vs ! k), h)"
  shows "fn (compile H F flt [a]) env h = fn (compile H F flt [a]) (no_inputs env) h"
proof -
  have w: "ws = toWatch (findConstantAndWatchExpressions flt (Some PurityRelative) [0] a)"
    using getInputs_Some[OF i] by simp
  have d: "distinct (map watch_path ws)" unfolding w by (rule watch_paths_distinct)
  have "inputs_at H F (watch_ids ws) env vs h ws"
    unfolding inputs_at_def
  proof
    fix x assume "x \<in> set ws"
    then obtain k where k: "k < length ws" "x = ws ! k" by (metis in_set_conv_nth)
    then show "\<exists>k. watch_ids ws (watch_path x) = Some k \<and>
        val_of (interp_node H F Map.empty (no_inputs env) [] NoCreate (watch_expr x)) h = (Inr (input_at vs k), h)"
      using watch_ids_nth[OF d k(1)] v[OF k(1)] vs(1) by (auto simp: input_at_def)
  qed
  then have "val_of (interp H F (watch_ids ws) env [0] NoCreate a) h =
      val_of (interp_node H F Map.empty (no_inputs env) [0] NoCreate a) h"
    using interp_from_inputs(1)[OF H marks_watch_ids[of ws "[0]", unfolded w] vs(2), of h "[0]"] q
    by (simp add: w)
  then show ?thesis
    using compile_direct[of "no_inputs env" H F flt "[a]"]
    by (simp add: no_inputs_def) (simp add: compile_def watches_of_def i bindJ_def)
qed

end
