(* ===== verification/NgQ.thy ===== *)
theory NgQ
  imports Prelude
begin

section \<open>Promises: the service $q\<close>

text \<open>
  \<open>qFactory\<close>. Promises, the arrays of pending callbacks (which are shared, so they have
  identities), the closures with a \<open>done\<close> flag that \<open>$$resolve\<close> makes, and the results collected
  by \<open>all\<close> are kept in lists and named by their position. \<open>nextTick\<close> appends to the list of tasks.
  A callback is data: a function of the user, or one of the closures of the code. What a user's
  function does is the parameter \<open>user\<close>: the calls it makes on the service, and how it ends. A
  value with a foreign \<open>then\<close> carries the calls that method makes on the functions it is given.
  References cannot dangle in the program; an operation on a position that names nothing does
  nothing here.
\<close>

datatype qval =
  Undefined
| Plain nat
| PromiseV nat
| ResultsV nat
| CycleError
| BadThen qval
| Thenable "tcall list" "qval option"
and tcall = DoResolve qval | DoReject qval | DoNotify qval

datatype status = Unsettled | Waiting | Fulfilled | Rejected

datatype callback =
  NoCallback
| NotFunction
| UserCallback nat
| ResolverDoResolve nat
| ResolverDoReject nat
| ResolverDoNotify nat
| FinallyCallback bool callback
| ReturnSettled bool qval
| RejectCallback
| AllFulfilled nat nat
| AllRejected nat
| DeferredResolve nat
| DeferredReject nat

definition isFunction :: "callback \<Rightarrow> bool" where
  "isFunction cb = (cb \<noteq> NoCallback \<and> cb \<noteq> NotFunction)"

type_synonym pending_entry = "nat \<times> callback \<times> callback \<times> callback"

record pstate =
  status :: status
  pvalue :: qval
  pending :: "nat option"
  processScheduled :: bool
  pur :: bool

datatype task = ProcessQueue nat | NotifyPending nat qval | ProcessChecks

datatype report = Unhandled qval | Passed qval | NotifyFailed qval

record all_state =
  all_result :: nat
  counter :: nat
  results :: "qval list"

record qstate =
  proms :: "pstate list"
  arrays :: "pending_entry list list"
  resolvers :: "(nat \<times> bool) list"
  alls :: "all_state list"
  tasks :: "task list"
  queueSize :: nat
  checkQueue :: "nat list"
  handled :: "report list"

definition new_pstate :: pstate where
  "new_pstate = \<lparr>status = Unsettled, pvalue = Undefined, pending = None, processScheduled = False, pur = False\<rparr>"

definition q_init :: qstate where
  "q_init = \<lparr>proms = [], arrays = [], resolvers = [], alls = [], tasks = [], queueSize = 0,
     checkQueue = [], handled = []\<rparr>"

definition settled :: "status \<Rightarrow> bool" where
  "settled st = (st = Fulfilled \<or> st = Rejected)"

subsection \<open>State access\<close>

definition new_promise :: "qstate \<Rightarrow> nat \<times> qstate" where
  "new_promise s = (length (proms s), s\<lparr>proms := proms s @ [new_pstate]\<rparr>)"

definition upd :: "nat \<Rightarrow> (pstate \<Rightarrow> pstate) \<Rightarrow> qstate \<Rightarrow> qstate" where
  "upd p f s = s\<lparr>proms := (proms s)[p := f (proms s ! p)]\<rparr>"

definition nextTick :: "task \<Rightarrow> qstate \<Rightarrow> qstate" where
  "nextTick t s = s\<lparr>tasks := tasks s @ [t]\<rparr>"

definition markQStateExceptionHandled :: "nat \<Rightarrow> qstate \<Rightarrow> qstate" where
  "markQStateExceptionHandled p = upd p (\<lambda>ps. ps\<lparr>pur := True\<rparr>)"

definition exceptionHandler :: "report \<Rightarrow> qstate \<Rightarrow> qstate" where
  "exceptionHandler r s = s\<lparr>handled := handled s @ [r]\<rparr>"

subsection \<open>Scheduling and settling\<close>

definition check_rejection :: "bool \<Rightarrow> nat \<Rightarrow> qstate \<Rightarrow> qstate" where
  "check_rejection errorOnUnhandled p s =
     (let ps = proms s ! p in
      if errorOnUnhandled \<and> pending ps = None \<and> status ps = Rejected \<and> \<not> pur ps then
        (let s' = (if queueSize s = 0 \<and> checkQueue s = [] then nextTick ProcessChecks s else s)
         in s'\<lparr>checkQueue := checkQueue s' @ [p]\<rparr>)
      else s)"

definition scheduleProcessQueue :: "bool \<Rightarrow> nat \<Rightarrow> qstate \<Rightarrow> qstate" where
  "scheduleProcessQueue eu p s =
     (let s' = check_rejection eu p s; ps = proms s' ! p in
      if processScheduled ps \<or> pending ps = None then s'
      else nextTick (ProcessQueue p)
             ((upd p (\<lambda>ps. ps\<lparr>processScheduled := True\<rparr>) s')\<lparr>queueSize := Suc (queueSize s')\<rparr>))"

definition settle :: "bool \<Rightarrow> status \<Rightarrow> nat \<Rightarrow> qval \<Rightarrow> qstate \<Rightarrow> qstate" where
  "settle eu st p v s = scheduleProcessQueue eu p (upd p (\<lambda>ps. ps\<lparr>pvalue := v, status := st\<rparr>) s)"

definition rejectPromise :: "bool \<Rightarrow> nat \<Rightarrow> qval \<Rightarrow> qstate \<Rightarrow> qstate" where
  "rejectPromise eu p reason s =
     (if p \<ge> length (proms s) \<or> status (proms s ! p) \<noteq> Unsettled then s
      else settle eu Rejected p reason s)"

definition notifyPromise :: "nat \<Rightarrow> qval \<Rightarrow> qstate \<Rightarrow> qstate" where
  "notifyPromise p progress s =
     (if p \<ge> length (proms s) then s
      else case pending (proms s ! p) of
        Some a \<Rightarrow>
          if \<not> settled (status (proms s ! p)) \<and> arrays s ! a \<noteq> []
          then nextTick (NotifyPending a progress) s else s
      | None \<Rightarrow> s)"

subsection \<open>then\<close>

definition push_pending :: "nat \<Rightarrow> pending_entry \<Rightarrow> qstate \<Rightarrow> qstate" where
  "push_pending p e s =
     (case pending (proms s ! p) of
        Some a \<Rightarrow> s\<lparr>arrays := (arrays s)[a := arrays s ! a @ [e]]\<rparr>
      | None \<Rightarrow> (upd p (\<lambda>ps. ps\<lparr>pending := Some (length (arrays s))\<rparr>) s)\<lparr>arrays := arrays s @ [[e]]\<rparr>)"

definition promise_then :: "bool \<Rightarrow> nat \<Rightarrow> callback \<Rightarrow> callback \<Rightarrow> callback \<Rightarrow> qstate \<Rightarrow> nat \<times> qstate" where
  "promise_then eu p onFulfilled onRejected progressBack s =
     (if p \<ge> length (proms s) \<or>
         onFulfilled = NoCallback \<and> onRejected = NoCallback \<and> progressBack = NoCallback then (p, s)
      else
        (let (result, s1) = new_promise s;
             s2 = push_pending p (result, onFulfilled, onRejected, progressBack) s1
         in (result, if settled (status (proms s2 ! p)) then scheduleProcessQueue eu p s2 else s2)))"

subsection \<open>Resolution\<close>

definition new_resolver :: "nat \<Rightarrow> qstate \<Rightarrow> nat \<times> qstate" where
  "new_resolver p s = (length (resolvers s), s\<lparr>resolvers := resolvers s @ [(p, False)]\<rparr>)"

definition set_done :: "nat \<Rightarrow> qstate \<Rightarrow> qstate" where
  "set_done r s = s\<lparr>resolvers := (resolvers s)[r := (fst (resolvers s ! r), True)]\<rparr>"

text \<open>The inner \<open>doReject\<close> of a resolution.\<close>

definition doReject :: "bool \<Rightarrow> nat \<Rightarrow> qval \<Rightarrow> qstate \<Rightarrow> qstate" where
  "doReject eu r v s =
     (if snd (resolvers s ! r) then s
      else settle eu Rejected (fst (resolvers s ! r)) v (set_done r s))"

definition doNotify :: "nat \<Rightarrow> qval \<Rightarrow> qstate \<Rightarrow> qstate" where
  "doNotify r v s = notifyPromise (fst (resolvers s ! r)) v s"

text \<open>
  \<open>resolve_value\<close> is \<open>$$resolve\<close>; \<open>run_then\<close> runs the calls a foreign \<open>then\<close> makes. A value that is
  a promise of the service has the \<open>then\<close> above, which returns before any of its callbacks runs.
\<close>

fun resolve_value :: "bool \<Rightarrow> nat \<Rightarrow> qval \<Rightarrow> qstate \<Rightarrow> qstate"
and run_then :: "bool \<Rightarrow> nat \<Rightarrow> tcall list \<Rightarrow> qstate \<Rightarrow> qstate" where
  "resolve_value eu p (PromiseV q) s =
     (let (r, s1) = new_resolver p s;
          s2 = upd p (\<lambda>ps. ps\<lparr>status := Waiting\<rparr>) s1
      in snd (promise_then eu q (ResolverDoResolve r) (ResolverDoReject r) (ResolverDoNotify r) s2))"
| "resolve_value eu p (Thenable calls thrown) s =
     (let (r, s1) = new_resolver p s;
          s2 = run_then eu r calls (upd p (\<lambda>ps. ps\<lparr>status := Waiting\<rparr>) s1)
      in case thrown of Some e \<Rightarrow> doReject eu r e s2 | None \<Rightarrow> s2)"
| "resolve_value eu p (BadThen e) s =
     (let (r, s1) = new_resolver p s in doReject eu r e s1)"
| "resolve_value eu p v s = settle eu Fulfilled p v s"
| "run_then eu r [] s = s"
| "run_then eu r (DoResolve v # cs) s =
     run_then eu r cs
       (if snd (resolvers s ! r) then s else resolve_value eu (fst (resolvers s ! r)) v (set_done r s))"
| "run_then eu r (DoReject v # cs) s = run_then eu r cs (doReject eu r v s)"
| "run_then eu r (DoNotify v # cs) s = run_then eu r cs (doNotify r v s)"

definition doResolve :: "bool \<Rightarrow> nat \<Rightarrow> qval \<Rightarrow> qstate \<Rightarrow> qstate" where
  "doResolve eu r v s =
     (if snd (resolvers s ! r) then s else resolve_value eu (fst (resolvers s ! r)) v (set_done r s))"

definition resolvePromise :: "bool \<Rightarrow> nat \<Rightarrow> qval \<Rightarrow> qstate \<Rightarrow> qstate" where
  "resolvePromise eu p v s =
     (if p \<ge> length (proms s) \<or> status (proms s ! p) \<noteq> Unsettled then s
      else if v = PromiseV p then settle eu Rejected p CycleError s
      else resolve_value eu p v s)"

subsection \<open>The public operations\<close>

definition reject_value :: "bool \<Rightarrow> qval \<Rightarrow> qstate \<Rightarrow> nat \<times> qstate" where
  "reject_value eu reason s =
     (let (result, s1) = new_promise s in (result, rejectPromise eu result reason s1))"

definition when_value ::
  "bool \<Rightarrow> qval \<Rightarrow> callback \<Rightarrow> callback \<Rightarrow> callback \<Rightarrow> qstate \<Rightarrow> nat \<times> qstate" where
  "when_value eu v callback errback progressBack s =
     (let (result, s1) = new_promise s
      in promise_then eu result callback errback progressBack (resolvePromise eu result v s1))"

definition promise_catch :: "bool \<Rightarrow> nat \<Rightarrow> callback \<Rightarrow> qstate \<Rightarrow> nat \<times> qstate" where
  "promise_catch eu p callback s = promise_then eu p NotFunction callback NoCallback s"

definition promise_finally :: "bool \<Rightarrow> nat \<Rightarrow> callback \<Rightarrow> callback \<Rightarrow> qstate \<Rightarrow> nat \<times> qstate" where
  "promise_finally eu p callback progressBack s =
     promise_then eu p (FinallyCallback True callback) (FinallyCallback False callback) progressBack s"

text \<open>\<open>resolver(value)\<close> with \<open>resolve\<close> (the flag is set) or \<open>reject\<close>.\<close>

definition settle_with :: "bool \<Rightarrow> bool \<Rightarrow> qval \<Rightarrow> qstate \<Rightarrow> nat \<times> qstate" where
  "settle_with eu resolver v s =
     (if resolver then when_value eu v NoCallback NoCallback NoCallback s else reject_value eu v s)"

text \<open>\<open>all\<close> and \<open>race\<close> over an array.\<close>

fun all_loop :: "bool \<Rightarrow> nat \<Rightarrow> nat \<Rightarrow> qval list \<Rightarrow> qstate \<Rightarrow> qstate" where
  "all_loop eu k i [] s = s"
| "all_loop eu k i (v # vs) s =
     (let s1 = s\<lparr>alls := (alls s)[k := (alls s ! k)\<lparr>counter := Suc (counter (alls s ! k))\<rparr>]\<rparr>;
          (q, s2) = when_value eu v NoCallback NoCallback NoCallback s1
      in all_loop eu k (Suc i) vs (snd (promise_then eu q (AllFulfilled k i) (AllRejected k) NoCallback s2)))"

definition all_promises :: "bool \<Rightarrow> qval list \<Rightarrow> qstate \<Rightarrow> nat \<times> qstate" where
  "all_promises eu vs s =
     (let (result, s1) = new_promise s;
          k = length (alls s1);
          s2 = s1\<lparr>alls := alls s1 @ [\<lparr>all_result = result, counter = 0, results = replicate (length vs) Undefined\<rparr>]\<rparr>;
          s3 = all_loop eu k 0 vs s2
      in (result, if counter (alls s3 ! k) = 0 then resolvePromise eu result (ResultsV k) s3 else s3))"

fun race_loop :: "bool \<Rightarrow> nat \<Rightarrow> qval list \<Rightarrow> qstate \<Rightarrow> qstate" where
  "race_loop eu d [] s = s"
| "race_loop eu d (v # vs) s =
     (let (q, s1) = when_value eu v NoCallback NoCallback NoCallback s
      in race_loop eu d vs (snd (promise_then eu q (DeferredResolve d) (DeferredReject d) NoCallback s1)))"

definition race :: "bool \<Rightarrow> qval list \<Rightarrow> qstate \<Rightarrow> nat \<times> qstate" where
  "race eu vs s = (let (d, s1) = new_promise s in (d, race_loop eu d vs s1))"

datatype api =
  ApiDefer
| ApiResolve nat qval
| ApiReject nat qval
| ApiNotify nat qval
| ApiThen nat callback callback callback
| ApiCatch nat callback
| ApiFinally nat callback callback
| ApiWhen qval callback callback callback
| ApiRejectValue qval
| ApiAll "qval list"
| ApiRace "qval list"

fun run_api :: "bool \<Rightarrow> api \<Rightarrow> qstate \<Rightarrow> qstate" where
  "run_api eu ApiDefer s = snd (new_promise s)"
| "run_api eu (ApiResolve p v) s = resolvePromise eu p v s"
| "run_api eu (ApiReject p v) s = rejectPromise eu p v s"
| "run_api eu (ApiNotify p v) s = notifyPromise p v s"
| "run_api eu (ApiThen p a b c) s = snd (promise_then eu p a b c s)"
| "run_api eu (ApiCatch p a) s = snd (promise_catch eu p a s)"
| "run_api eu (ApiFinally p a b) s = snd (promise_finally eu p a b s)"
| "run_api eu (ApiWhen v a b c) s = snd (when_value eu v a b c s)"
| "run_api eu (ApiRejectValue v) s = snd (reject_value eu v s)"
| "run_api eu (ApiAll vs) s = snd (all_promises eu vs s)"
| "run_api eu (ApiRace vs) s = snd (race eu vs s)"

subsection \<open>Running callbacks\<close>

type_synonym outcome = "qval + qval"
type_synonym user_code = "nat \<Rightarrow> qval \<Rightarrow> qstate \<Rightarrow> api list \<times> outcome"

text \<open>\<open>callbackOutput.then(function() { return resolver(value); }, reject)\<close>\<close>

fun run_foreign :: "bool \<Rightarrow> bool \<Rightarrow> qval \<Rightarrow> tcall list \<Rightarrow> qstate \<Rightarrow> qstate" where
  "run_foreign eu resolver v [] s = s"
| "run_foreign eu resolver v (DoResolve w # cs) s = run_foreign eu resolver v cs (snd (settle_with eu resolver v s))"
| "run_foreign eu resolver v (DoReject e # cs) s = run_foreign eu resolver v cs (snd (reject_value eu e s))"
| "run_foreign eu resolver v (DoNotify w # cs) s = run_foreign eu resolver v cs s"

definition after_callback :: "bool \<Rightarrow> bool \<Rightarrow> qval \<Rightarrow> qval \<Rightarrow> qstate \<Rightarrow> outcome \<times> qstate" where
  "after_callback eu resolver v out s =
     (case out of
        PromiseV q \<Rightarrow>
          (let (r, s') = promise_then eu q (ReturnSettled resolver v) RejectCallback NoCallback s
           in (Inr (PromiseV r), s'))
      | Thenable calls thrown \<Rightarrow>
          (case thrown of
             Some e \<Rightarrow> (Inl e, run_foreign eu resolver v calls s)
           | None \<Rightarrow> (Inr Undefined, run_foreign eu resolver v calls s))
      | BadThen e \<Rightarrow> (Inl e, s)
      | _ \<Rightarrow> (let (r, s') = settle_with eu resolver v s in (Inr (PromiseV r), s')))"

definition all_fulfilled :: "bool \<Rightarrow> nat \<Rightarrow> nat \<Rightarrow> qval \<Rightarrow> qstate \<Rightarrow> qstate" where
  "all_fulfilled eu k i v s =
     (if k \<ge> length (alls s) then s
      else
        (let a = alls s ! k;
             a' = a\<lparr>results := (results a)[i := v], counter := counter a - 1\<rparr>;
             s' = s\<lparr>alls := (alls s)[k := a']\<rparr>
         in if counter a' = 0 then resolvePromise eu (all_result a') (ResultsV k) s' else s'))"

definition all_rejected :: "bool \<Rightarrow> nat \<Rightarrow> qval \<Rightarrow> qstate \<Rightarrow> qstate" where
  "all_rejected eu k v s =
     (if k \<ge> length (alls s) then s else rejectPromise eu (all_result (alls s ! k)) v s)"

text \<open>\<open>handleCallback\<close> is the case of \<open>FinallyCallback\<close>.\<close>

fun call_callback :: "user_code \<Rightarrow> bool \<Rightarrow> callback \<Rightarrow> qval \<Rightarrow> qstate \<Rightarrow> outcome \<times> qstate" where
  "call_callback user eu (UserCallback n) v s = (let (ops, r) = user n v s in (r, fold (run_api eu) ops s))"
| "call_callback user eu (ResolverDoResolve r) v s =
     (Inr Undefined, if r < length (resolvers s) then doResolve eu r v s else s)"
| "call_callback user eu (ResolverDoReject r) v s =
     (Inr Undefined, if r < length (resolvers s) then doReject eu r v s else s)"
| "call_callback user eu (ResolverDoNotify r) v s =
     (Inr Undefined, if r < length (resolvers s) then doNotify r v s else s)"
| "call_callback user eu (FinallyCallback ok cb) v s =
     (if isFunction cb then
        (case call_callback user eu cb Undefined s of
           (Inl e, s1) \<Rightarrow> (let (r, s2) = reject_value eu e s1 in (Inr (PromiseV r), s2))
         | (Inr out, s1) \<Rightarrow> after_callback eu ok v out s1)
      else after_callback eu ok v Undefined s)"
| "call_callback user eu (ReturnSettled ok w) v s =
     (let (r, s') = settle_with eu ok w s in (Inr (PromiseV r), s'))"
| "call_callback user eu RejectCallback v s = (let (r, s') = reject_value eu v s in (Inr (PromiseV r), s'))"
| "call_callback user eu (AllFulfilled k i) v s = (Inr Undefined, all_fulfilled eu k i v s)"
| "call_callback user eu (AllRejected k) v s = (Inr Undefined, all_rejected eu k v s)"
| "call_callback user eu (DeferredResolve p) v s = (Inr Undefined, resolvePromise eu p v s)"
| "call_callback user eu (DeferredReject p) v s = (Inr Undefined, rejectPromise eu p v s)"
| "call_callback user eu _ v s = (Inl Undefined, s)"

text \<open>\<open>fn = pending[i][state.status]\<close>: the entry 0 is the result promise, not a function.\<close>

definition selected :: "status \<Rightarrow> pending_entry \<Rightarrow> callback" where
  "selected st e = (case e of (_, f, r, _) \<Rightarrow>
     (case st of Fulfilled \<Rightarrow> f | Rejected \<Rightarrow> r | _ \<Rightarrow> NotFunction))"

definition process_entry ::
  "user_code \<Rightarrow> (qval \<Rightarrow> bool) \<Rightarrow> bool \<Rightarrow> nat \<Rightarrow> pending_entry \<Rightarrow> qstate \<Rightarrow> qstate" where
  "process_entry user passed eu p e s =
     (let s0 = markQStateExceptionHandled p s;
          ps = proms s0 ! p;
          promise = fst e;
          f = selected (status ps) e
      in if isFunction f then
           (case call_callback user eu f (pvalue ps) s0 of
              (Inr v, s1) \<Rightarrow> resolvePromise eu promise v s1
            | (Inl x, s1) \<Rightarrow>
                (let s2 = rejectPromise eu promise x s1
                 in if passed x then exceptionHandler (Passed x) s2 else s2))
         else if status ps = Fulfilled then resolvePromise eu promise (pvalue ps) s0
         else rejectPromise eu promise (pvalue ps) s0)"

definition processQueue :: "user_code \<Rightarrow> (qval \<Rightarrow> bool) \<Rightarrow> bool \<Rightarrow> nat \<Rightarrow> qstate \<Rightarrow> qstate" where
  "processQueue user passed eu p s =
     (let entries = (case pending (proms s ! p) of Some a \<Rightarrow> arrays s ! a | None \<Rightarrow> []);
          s1 = upd p (\<lambda>ps. ps\<lparr>processScheduled := False, pending := None\<rparr>) s;
          s2 = fold (process_entry user passed eu p) entries s1;
          s3 = s2\<lparr>queueSize := queueSize s2 - 1\<rparr>
      in if eu \<and> queueSize s3 = 0 then nextTick ProcessChecks s3 else s3)"

fun check_loop :: "nat list \<Rightarrow> qstate \<Rightarrow> qstate" where
  "check_loop [] s = s"
| "check_loop (p # ps) s =
     (let s' = s\<lparr>checkQueue := ps\<rparr> in
      check_loop ps
        (if pur (proms s' ! p) then s'
         else exceptionHandler (Unhandled (pvalue (proms s' ! p))) (markQStateExceptionHandled p s')))"

definition processChecks :: "qstate \<Rightarrow> qstate" where
  "processChecks s = (if queueSize s = 0 then check_loop (checkQueue s) s else s)"

text \<open>The task of \<open>notifyPromise\<close>: an error of a callback goes to the exception handler.\<close>

definition notify_entry :: "user_code \<Rightarrow> bool \<Rightarrow> qval \<Rightarrow> pending_entry \<Rightarrow> qstate \<Rightarrow> qstate" where
  "notify_entry user eu progress e s =
     (case e of (result, _, _, callback) \<Rightarrow>
        if isFunction callback then
          (case call_callback user eu callback progress s of
             (Inr v, s1) \<Rightarrow> notifyPromise result v s1
           | (Inl x, s1) \<Rightarrow> exceptionHandler (NotifyFailed x) s1)
        else notifyPromise result progress s)"

fun run_task :: "user_code \<Rightarrow> (qval \<Rightarrow> bool) \<Rightarrow> bool \<Rightarrow> task \<Rightarrow> qstate \<Rightarrow> qstate" where
  "run_task user passed eu (ProcessQueue p) s = processQueue user passed eu p s"
| "run_task user passed eu (NotifyPending a v) s = fold (notify_entry user eu v) (arrays s ! a) s"
| "run_task user passed eu ProcessChecks s = processChecks s"

text \<open>A step of the system: a call from outside, or the next task.\<close>

datatype q_step = External api | Tick

fun q_next :: "user_code \<Rightarrow> (qval \<Rightarrow> bool) \<Rightarrow> bool \<Rightarrow> q_step \<Rightarrow> qstate \<Rightarrow> qstate" where
  "q_next user passed eu (External a) s = run_api eu a s"
| "q_next user passed eu Tick s =
     (case tasks s of
        [] \<Rightarrow> s
      | t # ts \<Rightarrow> run_task user passed eu t (s\<lparr>tasks := ts\<rparr>))"

end
