(* ===== verification/NgQInv.thy ===== *)
theory NgQInv
  imports NgQ
begin

section \<open>Promises settle once, and no settled promise is forgotten\<close>

text \<open>
  \<open>resolvers_ok\<close>: an unused resolver belongs to a waiting promise, and to no other unused one.
  \<open>sched_ok\<close>: a settled promise with callbacks has its task queued. Both hold in every state the
  service reaches, and no operation changes the status or the value of a settled promise.
\<close>

definition live :: "qstate \<Rightarrow> nat \<Rightarrow> nat \<Rightarrow> bool" where
  "live s r p = (r < length (resolvers s) \<and> resolvers s ! r = (p, False))"

definition resolvers_ok :: "qstate \<Rightarrow> bool" where
  "resolvers_ok s = ((\<forall>r<length (resolvers s). fst (resolvers s ! r) < length (proms s)) \<and>
     (\<forall>r p. live s r p \<longrightarrow> status (proms s ! p) = Waiting) \<and>
     (\<forall>r r' p. live s r p \<longrightarrow> live s r' p \<longrightarrow> r = r'))"

definition sched_at :: "qstate \<Rightarrow> nat \<Rightarrow> bool" where
  "sched_at s p = ((settled (status (proms s ! p)) \<and> pending (proms s ! p) \<noteq> None \<longrightarrow> processScheduled (proms s ! p)) \<and>
     (processScheduled (proms s ! p) \<longrightarrow> ProcessQueue p \<in> set (tasks s)))"

definition q_ok :: "qstate \<Rightarrow> bool" where
  "q_ok s = (resolvers_ok s \<and> (\<forall>p<length (proms s). sched_at s p))"

definition keeps_settled :: "qstate \<Rightarrow> qstate \<Rightarrow> bool" where
  "keeps_settled s s' = (length (proms s) \<le> length (proms s') \<and> length (resolvers s) \<le> length (resolvers s') \<and>
     (\<forall>p<length (proms s). settled (status (proms s ! p)) \<longrightarrow>
        status (proms s' ! p) = status (proms s ! p) \<and> pvalue (proms s' ! p) = pvalue (proms s ! p)))"

text \<open>An operation is safe when it keeps the invariant and every settled promise.\<close>

definition safe :: "qstate \<Rightarrow> qstate \<Rightarrow> bool" where
  "safe s s' = (q_ok s' \<and> keeps_settled s s')"

named_theorems q_intros

lemma keeps_settled_trans: "keeps_settled s t \<Longrightarrow> keeps_settled t u \<Longrightarrow> keeps_settled s u"
  unfolding keeps_settled_def by (metis le_trans less_le_trans)

lemma safe_refl: "q_ok s \<Longrightarrow> safe s s"
  by (simp add: safe_def keeps_settled_def)

lemma safe_trans: "safe s t \<Longrightarrow> (q_ok t \<Longrightarrow> safe t u) \<Longrightarrow> safe s u"
  unfolding safe_def using keeps_settled_trans by blast

lemma safe_ok: "safe s t \<Longrightarrow> q_ok t"
  by (simp add: safe_def)

text \<open>Changes outside the promises and the resolvers.\<close>

definition same_core :: "qstate \<Rightarrow> qstate \<Rightarrow> bool" where
  "same_core s s' = (length (proms s') = length (proms s) \<and> resolvers s' = resolvers s \<and>
     (\<forall>p<length (proms s). status (proms s' ! p) = status (proms s ! p) \<and> pvalue (proms s' ! p) = pvalue (proms s ! p)))"

lemma same_core_resolvers: "same_core s s' \<Longrightarrow> resolvers_ok s \<Longrightarrow> resolvers_ok s'"
  unfolding same_core_def resolvers_ok_def live_def by (metis fst_conv)

lemma same_core_keeps: "same_core s s' \<Longrightarrow> keeps_settled s s'"
  by (auto simp: same_core_def keeps_settled_def)

lemma same_core_trans: "same_core s t \<Longrightarrow> same_core t u \<Longrightarrow> same_core s u"
  by (auto simp: same_core_def)

lemma safe_same_core:
  assumes "q_ok s" "same_core s s'" "\<And>p. p < length (proms s) \<Longrightarrow> sched_at s' p"
  shows "safe s s'"
  using assms same_core_resolvers same_core_keeps unfolding safe_def q_ok_def
  by (metis same_core_def)

lemma length_upd[simp]: "length (proms (upd p f s)) = length (proms s)"
  by (simp add: upd_def)

lemma upd_simps[simp]:
  "resolvers (upd p f s) = resolvers s" "tasks (upd p f s) = tasks s" "arrays (upd p f s) = arrays s"
  "queueSize (upd p f s) = queueSize s" "checkQueue (upd p f s) = checkQueue s" "alls (upd p f s) = alls s"
  by (simp_all add: upd_def)

lemma proms_upd: "p < length (proms s) \<Longrightarrow> proms (upd p f s) ! q = (if q = p then f (proms s ! p) else proms s ! q)"
  by (simp add: upd_def nth_list_update)

lemma nth_upd:
  "proms (upd p f s) ! q = (if q = p \<and> p < length (proms s) then f (proms s ! p) else proms s ! q)"
  by (cases "p < length (proms s)") (auto simp: upd_def nth_list_update list_update_beyond)

lemma proms_upd_oob: "\<not> p < length (proms s) \<Longrightarrow> proms (upd p f s) = proms s"
  by (simp add: upd_def list_update_beyond)

lemma nextTick_simps[simp]:
  "proms (nextTick t s) = proms s" "resolvers (nextTick t s) = resolvers s" "tasks (nextTick t s) = tasks s @ [t]"
  "checkQueue (nextTick t s) = checkQueue s" "queueSize (nextTick t s) = queueSize s" "arrays (nextTick t s) = arrays s"
  by (simp_all add: nextTick_def)

lemma sched_at_more_tasks:
  "sched_at s p \<Longrightarrow> proms s' ! p = proms s ! p \<Longrightarrow> set (tasks s) \<subseteq> set (tasks s') \<Longrightarrow> sched_at s' p"
  by (auto simp: sched_at_def)

text \<open>Fields that play no part in the invariant, and more tasks.\<close>

lemma safe_frame:
  assumes "q_ok s" "proms s' = proms s" "resolvers s' = resolvers s" "set (tasks s) \<subseteq> set (tasks s')"
  shows "safe s s'"
  by (rule safe_same_core) (use assms in \<open>auto simp: same_core_def q_ok_def intro: sched_at_more_tasks\<close>)

subsection \<open>Scheduling\<close>

lemma check_rejection_frame:
  "proms (check_rejection eu p s) = proms s" "resolvers (check_rejection eu p s) = resolvers s"
  "set (tasks s) \<subseteq> set (tasks (check_rejection eu p s))" "alls (check_rejection eu p s) = alls s"
  by (auto simp: check_rejection_def Let_def nextTick_def)

text \<open>Scheduling a promise repairs the invariant at it.\<close>

lemma schedule_core: "same_core s (scheduleProcessQueue eu p s)"
proof (cases "p < length (proms s)")
  case True
  then show ?thesis
    by (auto simp: scheduleProcessQueue_def Let_def same_core_def check_rejection_frame proms_upd)
qed (auto simp: scheduleProcessQueue_def Let_def same_core_def check_rejection_frame proms_upd_oob)

lemma schedule_sched:
  assumes "\<And>q. q < length (proms s) \<Longrightarrow> q \<noteq> p \<Longrightarrow> sched_at s q"
    and "p < length (proms s) \<Longrightarrow> processScheduled (proms s ! p) \<Longrightarrow> ProcessQueue p \<in> set (tasks s)"
    and "q < length (proms s)"
  shows "sched_at (scheduleProcessQueue eu p s) q"
proof (cases "q = p")
  case True
  then show ?thesis using assms(2,3) check_rejection_frame(3)[of s eu p]
    by (auto simp: scheduleProcessQueue_def Let_def sched_at_def check_rejection_frame(1) proms_upd
        intro: subsetD[OF check_rejection_frame(3)])
next
  case False
  then have "sched_at s q" using assms by blast
  moreover have "proms (scheduleProcessQueue eu p s) ! q = proms s ! q"
    using False by (cases "p < length (proms s)")
      (auto simp: scheduleProcessQueue_def Let_def check_rejection_frame proms_upd proms_upd_oob)
  moreover have "set (tasks s) \<subseteq> set (tasks (scheduleProcessQueue eu p s))"
    using check_rejection_frame(3)[of s eu p] by (auto simp: scheduleProcessQueue_def Let_def)
  ultimately show ?thesis by (rule sched_at_more_tasks)
qed

lemma schedule_safe: "q_ok s \<Longrightarrow> safe s (scheduleProcessQueue eu p s)"
  by (rule safe_same_core[OF _ schedule_core schedule_sched]) (auto simp: q_ok_def sched_at_def)

subsection \<open>Settling\<close>

definition free :: "qstate \<Rightarrow> nat \<Rightarrow> bool" where
  "free s p = (p < length (proms s) \<and> \<not> settled (status (proms s ! p)) \<and> (\<forall>r. \<not> live s r p))"

lemma unsettled_free: "q_ok s \<Longrightarrow> p < length (proms s) \<Longrightarrow> status (proms s ! p) = Unsettled \<Longrightarrow> free s p"
  by (auto simp: free_def q_ok_def resolvers_ok_def settled_def)

lemma settle_safe:
  assumes ok: "q_ok s" and f: "free s p"
  shows "safe s (settle eu st p v s)"
proof -
  let ?t = "upd p (\<lambda>ps. ps\<lparr>pvalue := v, status := st\<rparr>) s"
  have p: "p < length (proms s)" using f by (simp add: free_def)
  have k: "keeps_settled s ?t" using f p by (auto simp: keeps_settled_def free_def proms_upd)
  have r: "resolvers_ok ?t"
    using ok f p unfolding q_ok_def resolvers_ok_def free_def
    by (auto simp: live_def proms_upd)
  have c: "same_core ?t (settle eu st p v s)" unfolding settle_def by (rule schedule_core)
  have "sched_at (settle eu st p v s) q" if "q < length (proms s)" for q
    unfolding settle_def
    using ok p that by (intro schedule_sched) (auto simp: q_ok_def sched_at_def proms_upd)
  then show ?thesis
    using same_core_resolvers[OF c r] keeps_settled_trans[OF k same_core_keeps[OF c]] c
    by (auto simp: safe_def q_ok_def same_core_def)
qed

lemma rejectPromise_safe: "q_ok s \<Longrightarrow> safe s (rejectPromise eu p v s)"
  by (simp add: rejectPromise_def safe_refl settle_safe unsettled_free)

lemma notifyPromise_safe: "q_ok s \<Longrightarrow> safe s (notifyPromise p v s)"
  by (auto simp: notifyPromise_def safe_refl intro: safe_frame split: option.splits)

subsection \<open>then\<close>

lemma new_promise_safe: "q_ok s \<Longrightarrow> safe s (snd (new_promise s))"
  unfolding safe_def q_ok_def resolvers_ok_def keeps_settled_def new_promise_def live_def sched_at_def
  by (auto simp: nth_append new_pstate_def settled_def less_Suc_eq)

lemma push_pending_core: "same_core s (push_pending p e s)"
  by (cases "p < length (proms s)")
    (auto simp: push_pending_def same_core_def proms_upd proms_upd_oob split: option.splits)

lemma push_pending_sched:
  "tasks (push_pending p e s) = tasks s"
  "q \<noteq> p \<Longrightarrow> proms (push_pending p e s) ! q = proms s ! q"
  "processScheduled (proms (push_pending p e s) ! p) = processScheduled (proms s ! p)"
  by (auto simp: push_pending_def nth_upd split: option.splits)

lemma promise_then_safe:
  assumes ok: "q_ok s"
  shows "safe s (snd (promise_then eu p a b c s))"
proof (cases "p \<ge> length (proms s) \<or> a = NoCallback \<and> b = NoCallback \<and> c = NoCallback")
  case True
  then show ?thesis using ok by (simp add: promise_then_def safe_refl)
next
  case False
  define s1 where "s1 = snd (new_promise s)"
  define s2 where "s2 = push_pending p (fst (new_promise s), a, b, c) s1"
  have s1: "safe s s1" using new_promise_safe[OF ok] by (simp add: s1_def)
  have p: "p < length (proms s1)" using False by (simp add: s1_def new_promise_def)
  have c: "same_core s1 s2" unfolding s2_def by (rule push_pending_core)
  have ps: "\<And>q. q < length (proms s1) \<Longrightarrow> sched_at s1 q" using safe_ok[OF s1] by (simp add: q_ok_def)
  have len: "length (proms s2) = length (proms s1)" using c by (simp add: same_core_def)
  have other: "sched_at s2 q" if "q < length (proms s1)" "q \<noteq> p" for q
    by (rule sched_at_more_tasks[OF ps[OF that(1)]]) (simp_all add: s2_def push_pending_sched that)
  have here: "processScheduled (proms s2 ! p) \<Longrightarrow> ProcessQueue p \<in> set (tasks s2)"
    using ps[OF p] by (simp add: s2_def push_pending_sched sched_at_def)
  have s2: "snd (promise_then eu p a b c s) =
      (if settled (status (proms s2 ! p)) then scheduleProcessQueue eu p s2 else s2)"
    using False by (simp add: promise_then_def s1_def s2_def split_beta Let_def) blast
  have "safe s1 (if settled (status (proms s2 ! p)) then scheduleProcessQueue eu p s2 else s2)"
  proof (rule safe_same_core[OF safe_ok[OF s1]])
    show "same_core s1 (if settled (status (proms s2 ! p)) then scheduleProcessQueue eu p s2 else s2)"
      using c schedule_core same_core_trans by auto
    fix q assume q: "q < length (proms s1)"
    show "sched_at (if settled (status (proms s2 ! p)) then scheduleProcessQueue eu p s2 else s2) q"
    proof (cases "settled (status (proms s2 ! p))")
      case True
      then show ?thesis using schedule_sched[of s2 p q eu] other here q len by simp
    next
      case False
      then show ?thesis using other[OF q] here by (cases "q = p") (auto simp: sched_at_def)
    qed
  qed
  then show ?thesis unfolding s2 using s1 by (blast intro: safe_trans)
qed

subsection \<open>Resolution\<close>

lemma set_done_safe:
  assumes ok: "q_ok s" and r: "r < length (resolvers s)" and l: "\<not> snd (resolvers s ! r)"
  shows "safe s (set_done r s)" "free (set_done r s) (fst (resolvers s ! r))"
proof -
  have 1: "live (set_done r s) r' p \<Longrightarrow> live s r' p \<and> r' \<noteq> r" for r' p
    using r by (auto simp: live_def set_done_def nth_list_update split: if_splits)
  have lv: "live s r (fst (resolvers s ! r))" using r l by (simp add: live_def prod_eq_iff)
  have ro: "resolvers_ok s" and sa: "\<forall>p<length (proms s). sched_at s p" using ok by (simp_all add: q_ok_def)
  have "resolvers_ok (set_done r s)"
    unfolding resolvers_ok_def
  proof (intro conjI allI impI)
    fix i assume "i < length (resolvers (set_done r s))"
    then show "fst (resolvers (set_done r s) ! i) < length (proms (set_done r s))"
      using ro r by (simp add: resolvers_ok_def set_done_def nth_list_update)
  next
    fix i p assume "live (set_done r s) i p"
    then show "status (proms (set_done r s) ! p) = Waiting"
      using 1 ro by (simp add: resolvers_ok_def set_done_def) blast
  next
    fix i i' p assume "live (set_done r s) i p" "live (set_done r s) i' p"
    then show "i = i'" using 1 ro by (simp add: resolvers_ok_def) blast
  qed
  moreover have "sched_at (set_done r s) p" if "p < length (proms s)" for p
    using sa that by (simp add: set_done_def sched_at_def)
  ultimately show "safe s (set_done r s)"
    by (simp add: safe_def q_ok_def keeps_settled_def set_done_def)
  show "free (set_done r s) (fst (resolvers s ! r))"
    unfolding free_def
  proof (intro conjI allI notI)
    show "fst (resolvers s ! r) < length (proms (set_done r s))"
      using ro r by (simp add: resolvers_ok_def set_done_def)
    show False if "settled (status (proms (set_done r s) ! fst (resolvers s ! r)))"
      using that lv ro by (auto simp: resolvers_ok_def set_done_def settled_def)
    show False if "live (set_done r s) r' (fst (resolvers s ! r))" for r'
      using 1[OF that] lv ro by (auto simp: resolvers_ok_def)
  qed
qed

lemma doReject_safe: "q_ok s \<Longrightarrow> r < length (resolvers s) \<Longrightarrow> safe s (doReject eu r v s)"
  unfolding doReject_def
  by (auto simp: safe_refl intro: safe_trans[OF set_done_safe(1)] settle_safe set_done_safe(2))

lemma keeps_resolvers: "safe s s' \<Longrightarrow> r < length (resolvers s) \<Longrightarrow> r < length (resolvers s')"
  by (auto simp: safe_def keeps_settled_def)

text \<open>The promise is now waiting on a fresh resolver.\<close>

lemma wait_safe:
  assumes ok: "q_ok s" and f: "free s p"
  shows "safe s (upd p (\<lambda>ps. ps\<lparr>status := Waiting\<rparr>) (snd (new_resolver p s)))"
    (is "safe s ?t")
proof -
  have p: "p < length (proms s)" using f by (simp add: free_def)
  have 1: "live ?t r q \<Longrightarrow> r = length (resolvers s) \<and> q = p \<or> live s r q" for r q
    by (auto simp: live_def new_resolver_def nth_append split: if_splits)
  have ro: "resolvers_ok s" and sa: "\<forall>p<length (proms s). sched_at s p" using ok by (simp_all add: q_ok_def)
  have "resolvers_ok ?t"
    unfolding resolvers_ok_def
  proof (intro conjI allI impI)
    fix i assume "i < length (resolvers ?t)"
    then show "fst (resolvers ?t ! i) < length (proms ?t)"
      using ro p by (auto simp: resolvers_ok_def new_resolver_def nth_append less_Suc_eq)
  next
    fix i q assume "live ?t i q"
    then show "status (proms ?t ! q) = Waiting"
      using 1 ro p by (fastforce simp: resolvers_ok_def new_resolver_def nth_upd)
  next
    fix i i' q assume "live ?t i q" "live ?t i' q"
    then show "i = i'" using 1[of i q] 1[of i' q] ro f by (auto simp: resolvers_ok_def free_def)
  qed
  moreover have "sched_at ?t q" if "q < length (proms s)" for q
    using sa that p f by (auto simp: sched_at_def nth_upd new_resolver_def settled_def)
  ultimately show ?thesis
    using f by (auto simp: safe_def q_ok_def keeps_settled_def new_resolver_def nth_upd free_def)
qed

lemma bad_then_safe:
  assumes ok: "q_ok s" and f: "free s p"
  shows "safe s (settle eu Rejected p e (set_done (length (resolvers s)) (snd (new_resolver p s))))"
    (is "safe s (settle _ _ _ _ ?t)")
proof -
  have t: "?t = s\<lparr>resolvers := resolvers s @ [(p, True)]\<rparr>"
    by (simp add: set_done_def new_resolver_def)
  have live: "live ?t r q = live s r q" for r q
    unfolding t by (auto simp: live_def nth_append)
  have "safe s ?t"
    using ok f unfolding safe_def q_ok_def resolvers_ok_def live
    by (auto simp: t keeps_settled_def nth_append less_Suc_eq free_def sched_at_def)
  moreover have "free ?t p" using f unfolding free_def live by (simp add: t)
  ultimately show ?thesis using safe_trans settle_safe by blast
qed

lemma resolve_value_safe:
  "q_ok s \<Longrightarrow> free s p \<Longrightarrow> safe s (resolve_value eu p v s)"
  "q_ok s \<Longrightarrow> r < length (resolvers s) \<Longrightarrow> safe s (run_then eu r cs s)"
proof (induction eu p v s and eu r cs s rule: resolve_value_run_then.induct)
  case (1 eu p q s)
  show ?case using wait_safe[OF 1]
    by (auto simp: new_resolver_def intro: safe_trans promise_then_safe)
next
  case (2 eu p calls thrown s)
  let ?r = "length (resolvers s)" and ?t = "upd p (\<lambda>ps. ps\<lparr>status := Waiting\<rparr>) (snd (new_resolver p s))"
  have t: "safe s ?t" by (rule wait_safe[OF 2(2,3)])
  have r: "?r < length (resolvers ?t)" by (simp add: new_resolver_def)
  have u: "safe ?t (run_then eu ?r calls ?t)"
    using 2(1)[OF refl, of ?r "snd (new_resolver p s)"] safe_ok[OF t] r by (simp add: new_resolver_def)
  have "safe (run_then eu ?r calls ?t) (doReject eu ?r e (run_then eu ?r calls ?t))" for e
    by (rule doReject_safe[OF safe_ok[OF u] keeps_resolvers[OF u r]])
  then show ?case
    using safe_trans[OF t u]
    by (auto simp: new_resolver_def Let_def split: option.splits intro: safe_trans)
next
  case (3 eu p e s)
  show ?case using bad_then_safe[OF 3] by (simp add: doReject_def new_resolver_def)
next
  case (6 eu r v cs s)
  let ?s = "if snd (resolvers s ! r) then s else resolve_value eu (fst (resolvers s ! r)) v (set_done r s)"
  have s: "safe s ?s"
    using 6(1) set_done_safe[OF 6(3,4)] 6(3) by (auto simp: safe_refl intro: safe_trans dest: safe_ok)
  show ?case using safe_trans[OF s] 6(2)[OF _ keeps_resolvers[OF s 6(4)]] by simp
next
  case (7 eu r v cs s)
  let ?t = "doReject eu r v s"
  have t: "safe s ?t" by (rule doReject_safe[OF 7(2,3)])
  show ?case using safe_trans[OF t] 7(1)[OF safe_ok[OF t] keeps_resolvers[OF t 7(3)]] by simp
next
  case (8 eu r v cs s)
  have "safe s (doNotify r v s)" unfolding doNotify_def by (rule notifyPromise_safe[OF 8(2)])
  then show ?case using safe_trans 8(1,3) keeps_resolvers by simp
qed (auto intro: settle_safe safe_refl)

lemma doResolve_safe: "q_ok s \<Longrightarrow> r < length (resolvers s) \<Longrightarrow> safe s (doResolve eu r v s)"
  unfolding doResolve_def
  by (auto simp: safe_refl intro: safe_trans[OF set_done_safe(1)] resolve_value_safe(1) set_done_safe(2))

lemma resolvePromise_safe: "q_ok s \<Longrightarrow> safe s (resolvePromise eu p v s)"
  by (auto simp: resolvePromise_def safe_refl settle_safe unsettled_free resolve_value_safe(1))

subsection \<open>The public operations\<close>

lemma reject_value_safe: "q_ok s \<Longrightarrow> safe s (snd (reject_value eu v s))"
  using safe_trans[OF new_promise_safe rejectPromise_safe]
  by (auto simp: reject_value_def split_beta)

lemma when_value_safe: "q_ok s \<Longrightarrow> safe s (snd (when_value eu v a b c s))"
  unfolding when_value_def split_beta Let_def
  by (intro safe_trans[OF safe_trans[OF new_promise_safe resolvePromise_safe] promise_then_safe])

lemma settle_with_safe: "q_ok s \<Longrightarrow> safe s (snd (settle_with eu ok v s))"
  by (simp add: settle_with_def when_value_safe reject_value_safe)

lemma alls_safe: "q_ok s \<Longrightarrow> safe s (s\<lparr>alls := x\<rparr>)"
  by (rule safe_frame) auto

lemma all_loop_safe: "q_ok s \<Longrightarrow> safe s (all_loop eu k i vs s)"
proof (induction vs arbitrary: i s)
  case (Cons v vs)
  show ?case
    unfolding all_loop.simps Let_def split_beta
    by (rule safe_trans[OF safe_trans[OF safe_trans[OF alls_safe when_value_safe] promise_then_safe] Cons.IH])
      (use Cons.prems in simp)
qed (simp add: safe_refl)

lemma resolve_if_safe: "q_ok t \<Longrightarrow> safe t (if b then resolvePromise eu p w t else t)"
  by (simp add: resolvePromise_safe safe_refl)

lemma all_promises_safe:
  assumes "q_ok s"
  shows "safe s (snd (all_promises eu vs s))"
proof -
  define s2 where "s2 = (snd (new_promise s))\<lparr>alls := alls (snd (new_promise s)) @
    [\<lparr>all_result = fst (new_promise s), counter = 0, results = replicate (length vs) Undefined\<rparr>]\<rparr>"
  have s2: "safe s s2" unfolding s2_def by (rule safe_trans[OF new_promise_safe[OF assms] alls_safe])
  show ?thesis
    unfolding all_promises_def split_beta Let_def s2_def[symmetric] snd_conv
    by (rule safe_trans[OF safe_trans[OF s2 all_loop_safe] resolve_if_safe])
qed

lemma race_loop_safe: "q_ok s \<Longrightarrow> safe s (race_loop eu d vs s)"
proof (induction vs arbitrary: s)
  case (Cons v vs)
  show ?case
    unfolding race_loop.simps split_beta Let_def
    by (rule safe_trans[OF safe_trans[OF when_value_safe promise_then_safe] Cons.IH])
      (use Cons.prems in simp)
qed (simp add: safe_refl)

lemma run_api_safe: "q_ok s \<Longrightarrow> safe s (run_api eu a s)"
proof (cases a)
  case (ApiRace vs)
  then show "q_ok s \<Longrightarrow> ?thesis"
    using safe_trans[OF new_promise_safe race_loop_safe] by (simp add: race_def split_beta)
qed (simp_all add: new_promise_safe resolvePromise_safe rejectPromise_safe notifyPromise_safe promise_then_safe
    promise_catch_def promise_finally_def when_value_safe reject_value_safe all_promises_safe)

lemma run_apis_safe: "q_ok s \<Longrightarrow> safe s (fold (run_api eu) ops s)"
  by (induction ops arbitrary: s) (auto simp: safe_refl intro: safe_trans run_api_safe)

subsection \<open>Callbacks and tasks\<close>

lemma run_foreign_safe: "q_ok s \<Longrightarrow> safe s (run_foreign eu ok v cs s)"
  by (induction eu ok v cs s rule: run_foreign.induct)
    (auto simp: safe_refl intro: safe_trans settle_with_safe reject_value_safe dest: safe_ok)

lemma after_callback_safe: "q_ok s \<Longrightarrow> safe s (snd (after_callback eu ok v out s))"
  using settle_with_safe[of s eu ok v] promise_then_safe[of s eu]
  by (auto simp: after_callback_def split_beta safe_refl run_foreign_safe split: qval.splits option.splits)

lemma all_fulfilled_safe: "q_ok s \<Longrightarrow> safe s (all_fulfilled eu k i v s)"
  unfolding all_fulfilled_def Let_def
  by (auto simp only: safe_refl alls_safe safe_trans[OF alls_safe resolvePromise_safe] split: if_splits)

lemma call_callback_safe: "q_ok s \<Longrightarrow> safe s (snd (call_callback user eu cb v s))"
proof (induction user eu cb v s rule: call_callback.induct)
  case (5 user eu ok cb v s)
  show ?case
  proof (cases "isFunction cb")
    case True
    have c: "safe s (snd (call_callback user eu cb Undefined s))" using 5 True by blast
    then show ?thesis
      using True safe_trans[OF c reject_value_safe] safe_trans[OF c after_callback_safe]
      by (auto simp: split_beta split: sum.splits prod.splits)
  qed (use 5 after_callback_safe in auto)
qed (auto simp: split_beta safe_refl run_apis_safe doResolve_safe doReject_safe doNotify_def notifyPromise_safe
    settle_with_safe reject_value_safe all_fulfilled_safe all_rejected_def resolvePromise_safe rejectPromise_safe)

lemma handler_safe: "q_ok s \<Longrightarrow> safe s (exceptionHandler r s)"
  by (rule safe_frame) (auto simp: exceptionHandler_def)

lemma mark_safe: "q_ok s \<Longrightarrow> safe s (markQStateExceptionHandled p s)"
  by (rule safe_same_core)
    (auto simp: markQStateExceptionHandled_def same_core_def nth_upd q_ok_def sched_at_def)

lemma process_entry_safe:
  assumes "q_ok s"
  shows "safe s (process_entry user passed eu p e s)"
proof -
  define t where "t = markQStateExceptionHandled p s"
  have t: "safe s t" unfolding t_def by (rule mark_safe[OF assms])
  note ok = safe_ok[OF t]
  have c: "safe t (snd (call_callback user eu f v t))" for f v by (rule call_callback_safe[OF ok])
  have r: "safe t (resolvePromise eu q w (snd (call_callback user eu f v t)))" for q w f v
    by (rule safe_trans[OF c resolvePromise_safe])
  have j: "safe t (rejectPromise eu q w (snd (call_callback user eu f v t)))" for q w f v
    by (rule safe_trans[OF c rejectPromise_safe])
  have h: "safe t (exceptionHandler x (rejectPromise eu q w (snd (call_callback user eu f v t))))" for x q w f v
    by (rule safe_trans[OF j handler_safe])
  have "safe t (process_entry user passed eu p e s)"
  proof (cases "isFunction (selected (status (proms t ! p)) e)")
    case True
    obtain o' u where cb: "call_callback user eu (selected (status (proms t ! p)) e) (pvalue (proms t ! p)) t = (o', u)"
      by fastforce
    show ?thesis
      using True r[of _ _ "selected (status (proms t ! p)) e" "pvalue (proms t ! p)"]
        j[of _ _ "selected (status (proms t ! p)) e" "pvalue (proms t ! p)"]
        h[of _ _ _ "selected (status (proms t ! p)) e" "pvalue (proms t ! p)"]
      by (cases o') (simp_all add: process_entry_def Let_def t_def[symmetric] cb)
  next
    case False
    then show ?thesis
      by (simp add: process_entry_def Let_def t_def[symmetric] resolvePromise_safe[OF ok] rejectPromise_safe[OF ok])
  qed
  then show ?thesis using t safe_trans by blast
qed

lemma process_entries_safe: "q_ok s \<Longrightarrow> safe s (fold (process_entry user passed eu p) es s)"
  by (induction es arbitrary: s) (auto simp: safe_refl intro: safe_trans process_entry_safe)

text \<open>The task of \<open>p\<close> has been taken off the list.\<close>

lemma processQueue_safe:
  assumes r: "resolvers_ok s" and o: "\<And>q. q < length (proms s) \<Longrightarrow> q \<noteq> p \<Longrightarrow> sched_at s q"
  shows "safe s (processQueue user passed eu p s)"
proof -
  define s1 where "s1 = upd p (\<lambda>ps. ps\<lparr>processScheduled := False, pending := None\<rparr>) s"
  have c: "same_core s s1" by (auto simp: s1_def same_core_def nth_upd)
  have "sched_at s1 q" if "q < length (proms s)" for q
    using o[OF that] that by (cases "q = p") (auto simp: s1_def sched_at_def nth_upd)
  then have s1: "safe s s1"
    using same_core_resolvers[OF c r] same_core_keeps[OF c] c by (simp add: safe_def q_ok_def same_core_def)
  have fin: "safe t (let u = t\<lparr>queueSize := n\<rparr> in if eu \<and> queueSize u = 0 then nextTick ProcessChecks u else u)"
    if "q_ok t" for t n
    using that by (intro safe_frame) (auto simp: Let_def)
  show ?thesis
    unfolding processQueue_def Let_def s1_def[symmetric]
    using safe_trans[OF safe_trans[OF s1 process_entries_safe] fin[unfolded Let_def]] by blast
qed

lemma check_loop_safe: "q_ok s \<Longrightarrow> safe s (check_loop ps s)"
proof (induction ps arbitrary: s)
  case (Cons p ps)
  have "safe s (s\<lparr>checkQueue := ps\<rparr>)" by (rule safe_frame[OF Cons.prems]) auto
  from safe_trans[OF this safe_trans[OF mark_safe safe_trans[OF handler_safe Cons.IH]]] safe_trans[OF this Cons.IH]
  show ?case by (simp add: Let_def)
qed (simp add: safe_refl)

lemma notify_entry_safe: "q_ok s \<Longrightarrow> safe s (notify_entry user eu v e s)"
  using safe_trans[OF call_callback_safe notifyPromise_safe] safe_trans[OF call_callback_safe handler_safe]
  by (auto simp: notify_entry_def notifyPromise_safe split: prod.splits sum.splits) (metis snd_conv)+

lemma notify_entries_safe: "q_ok s \<Longrightarrow> safe s (fold (notify_entry user eu v) es s)"
  by (induction es arbitrary: s) (auto simp: safe_refl intro: safe_trans notify_entry_safe)

lemma pop_safe:
  assumes "q_ok s" "tasks s = t # ts"
  shows "resolvers_ok (s\<lparr>tasks := ts\<rparr>)"
    "\<And>q. q < length (proms s) \<Longrightarrow> t \<noteq> ProcessQueue q \<Longrightarrow> sched_at (s\<lparr>tasks := ts\<rparr>) q"
    "keeps_settled s (s\<lparr>tasks := ts\<rparr>)"
  using assms by (auto simp: q_ok_def resolvers_ok_def live_def sched_at_def keeps_settled_def)

lemma q_next_safe:
  assumes ok: "q_ok s"
  shows "safe s (q_next user passed eu step s)"
proof (cases step)
  case Tick
  show ?thesis
  proof (cases "tasks s")
    case (Cons t ts)
    let ?s = "s\<lparr>tasks := ts\<rparr>"
    have "safe ?s (run_task user passed eu t ?s)"
    proof (cases "\<exists>p. t = ProcessQueue p")
      case True
      then obtain p where "t = ProcessQueue p" by blast
      then show ?thesis using pop_safe(1,2)[OF ok Cons] by (auto intro!: processQueue_safe)
    next
      case False
      then have "q_ok ?s" using pop_safe(1,2)[OF ok Cons] by (auto simp: q_ok_def)
      then show ?thesis using False
        by (cases t) (auto simp: notify_entries_safe processChecks_def check_loop_safe safe_refl)
    qed
    then show ?thesis using Tick Cons pop_safe(3)[OF ok Cons] keeps_settled_trans
      by (auto simp: safe_def)
  qed (use Tick ok in \<open>simp add: safe_refl\<close>)
qed (use ok in \<open>simp add: run_api_safe\<close>)

lemma q_init_ok: "q_ok q_init"
  by (simp add: q_ok_def resolvers_ok_def live_def q_init_def)

text \<open>Everything the service does from its initial state keeps the invariant.\<close>

interpretation q_inv: step_invariant "q_next user passed eu" q_ok
  by unfold_locales (rule safe_ok[OF q_next_safe])

lemma q_run_keeps: "q_ok s \<Longrightarrow> keeps_settled s (fold (q_next user passed eu) steps s)"
proof (induction steps arbitrary: s)
  case (Cons a steps)
  have a: "safe s (q_next user passed eu a s)" by (rule q_next_safe[OF Cons.prems])
  then have "keeps_settled s (q_next user passed eu a s)" by (simp add: safe_def)
  from keeps_settled_trans[OF this Cons.IH[OF safe_ok[OF a]]] show ?case by simp
qed (simp add: keeps_settled_def)

end
