(* ===== verification/NgProps.thy ===== *)
theory NgProps
  imports NgEval NgQInv
begin

section \<open>Expressions and promises: properties\<close>

text \<open>
  What the expression engine of the console's page and its promises guarantee: from the text to the
  tokens, from the tokens to the tree, from the tree to a value, and what happens to the value of a
  promise and to its callbacks.
\<close>

subsection \<open>From text to tree\<close>

text \<open>
  C11. The tokens of a text tile it: each token covers the characters from its index on (verbatim for
  names and operators, up to case for numbers, whose value is that of their text), the tokens come
  in the order of the text, and only white space lies between them and at the ends.
\<close>

theorem tokens_tile_text:
  assumes "lex opts t = Inr toks"
  shows "tiles t 0 toks"
  using lex_loop_tiles[of opts t 0 "[]" toks] assms by (auto simp: lex_def)

theorem tokens_tile_text_witness:
  "tiles (J ''a+'') 0
     [\<lparr>tindex = 0, tok_text = J ''a'', kind = Identifier\<rparr>,
      \<lparr>tindex = 1, tok_text = J ''+'', kind = Operator\<rparr>]"
  by (rule tokens_tile_text[of default_options])
    (simp add: lex_def lex_loop.simps[of _ _ 0] lex_loop.simps[of _ _ "Suc 0"] lex_loop.simps[of _ _ "Suc (Suc 0)"]
      lex_step_def Let_def isNumber_def peekMultichar_def charAt_def lex_peek_def isIdentifierStart_def
      isIdentifierContinue_def default_options_def isValidIdentifierStart_def isValidIdentifierContinue_def
      readIdent_def ident_loop.simps[of _ _ "Suc 0"] lex_is_def PUNCTUATION_def isWhitespace_def OPERATORS_def opt_str_def)

text \<open>
  C12. Parsing terminates on every text: with one unit of fuel per token the parser never stops for
  lack of fuel, so every text gives a tree or one of the errors the code throws.
\<close>

theorem parser_total: "ast_of opts t \<noteq> Inl OutOfFuel"
  by (rule ast_of_not_fuel)

subsection \<open>Evaluation\<close>

definition demo_host :: host where
  "demo_host = \<lparr>call = (\<lambda>_ _ _. retJ Undef), to_prim = (\<lambda>_ _. retJ (Str [])), object_proto = Some 0,
     array_proto = Some 0, string_proto = 0, number_proto = 0, boolean_proto = 0\<rparr>"

definition demo_filters :: filters where
  "demo_filters = (\<lambda>_ _. retJ Undef)"

text \<open>The object prototype at 0 and an empty scope at 1.\<close>

definition demo_heap :: heap where
  "demo_heap = \<lparr>store = [0 \<mapsto> \<lparr>cls = PlainObject, proto = None, props = [], elems = []\<rparr>,
       1 \<mapsto> \<lparr>cls = PlainObject, proto = Some 0, props = [], elems = []\<rparr>], next_addr = 2\<rparr>"

text \<open>
  An expression that the decoration calls constant does not depend on the scope, the locals or
  the value being assigned: compiled, it is the same action on the heap in every environment (so the
  delegate that evaluates it once and stops watching it loses nothing).
\<close>

theorem constant_ignores_environment:
  assumes "isConstant flt body" and "env_inputs env = None" and "env_inputs env' = None"
  shows "fn (compile H F flt body) env = fn (compile H F flt body) env'"
  by (rule compiled_constant[OF assms])

theorem constant_ignores_environment_witness:
  "fn (compile demo_host demo_filters (\<lambda>_. Stateless) [BinaryE (J ''+'') (Literal (Num (Fin 1))) (Literal (Num (Fin 2)))])
      (scope_env (Ref 1)) =
   fn (compile demo_host demo_filters (\<lambda>_. Stateless) [BinaryE (J ''+'') (Literal (Num (Fin 1))) (Literal (Num (Fin 2)))])
      (scope_env Null)"
  by (rule constant_ignores_environment) (simp_all add: isConstant_def find_program_def scope_env_def Let_def)

text \<open>
  C13. Watching the inputs is enough: for an expression without calls, assignments and literals of
  objects or arrays, on a host whose conversions and filters do not write, running the compiled
  expression on the current values of the inputs that \<open>getInputs\<close> selects gives the same result,
  error or heap as running it without them.
\<close>

theorem inputs_determine_value:
  assumes "getInputs flt [a] = Some ws" and "quiet a" and "pure_host H F"
    and "length vs = length ws" and "env_inputs env = Some vs"
    and "\<And>k. k < length ws \<Longrightarrow>
      val_of (interp H F Map.empty (no_inputs env) [] NoCreate (watch_expr (ws ! k))) h = (Inr (vs ! k), h)"
  shows "fn (compile H F flt [a]) env h = fn (compile H F flt [a]) (no_inputs env) h"
  using assms by (intro run_on_inputs) simp_all

theorem inputs_determine_value_witness:
  "fn (compile demo_host demo_filters (\<lambda>_. Stateless) [UnaryE (J ''!'') (IdentifierE (J ''x''))])
      ((scope_env (Ref 1))\<lparr>env_inputs := Some [Undef]\<rparr>) demo_heap =
   fn (compile demo_host demo_filters (\<lambda>_. Stateless) [UnaryE (J ''!'') (IdentifierE (J ''x''))])
      (no_inputs ((scope_env (Ref 1))\<lparr>env_inputs := Some [Undef]\<rparr>)) demo_heap"
proof (rule inputs_determine_value)
  show "getInputs (\<lambda>_. Stateless) [UnaryE (J ''!'') (IdentifierE (J ''x''))] =
      Some [watch_self [0, 0] (IdentifierE (J ''x'')) PurityAbsolute]"
    by (simp add: getInputs_def find_program_def isPure_def watch_self_def)
  show "pure_host demo_host demo_filters"
    by (simp add: pure_host_def demo_host_def demo_filters_def)
  fix k assume "k < length [watch_self [0, 0] (IdentifierE (J ''x'')) PurityAbsolute]"
  then show "val_of (interp demo_host demo_filters Map.empty (no_inputs ((scope_env (Ref 1))\<lparr>env_inputs := Some [Undef]\<rparr>)) []
      NoCreate (watch_expr ([watch_self [0, 0] (IdentifierE (J ''x'')) PurityAbsolute] ! k))) demo_heap =
      (Inr ([Undef] ! k), demo_heap)"
    by (simp add: val_of_def watch_self_def read_name_def name_base_def no_inputs_def scope_env_def bindJ_def retJ_def
        getH_def chain_val_def obj_prop_def demo_heap_def own_prop_def numeral_2_eq_2)
qed simp_all

text \<open>
  Reading never fails: an expression of literals, names, dotted members, \<open>!\<close>, \<open>===\<close>, \<open>!==\<close>,
  \<open>&&\<close>, \<open>||\<close> and \<open>?:\<close> has a value in every scope and heap, whatever is missing on the way, and
  leaves the heap as it was.
\<close>

theorem reading_never_fails:
  assumes "forgiving a" and "plain_locals (env_locals env)" and "env_inputs env = None"
  shows "\<exists>v. fn (compile H F flt [a]) env h = (Inr v, h)"
proof -
  have "reads (val_of (interp_node H F Map.empty env [0] NoCreate a)) h"
    using reads_val_of[OF forgiving_reads[OF assms(1,2)]] .
  then obtain v where "val_of (interp_node H F Map.empty env [0] NoCreate a) h = (Inr v, h)"
    using reads_result by blast
  then show ?thesis
    by (simp add: compile_direct[OF assms(3)] bindJ_Inr retJ_def)
qed

theorem reading_never_fails_witness:
  "\<exists>v. fn (compile demo_host demo_filters (\<lambda>_. Stateful) [MemberE (MemberE (IdentifierE (J ''a'')) (J ''b'')) (J ''c'')])
     (scope_env Undef) demo_heap = (Inr v, demo_heap)"
  by (rule reading_never_fails) (simp_all add: scope_env_def plain_locals_def)

text \<open>
  C14. Assigning to a dotted path of which nothing exists yet creates the objects in between: the
  assignment returns the value assigned, and reading the path afterwards gives it, without a further
  change. The scope is any object but an array, and the object prototype has none of the names.
\<close>

theorem assign_creates_path:
  assumes "store h sc = Some ob" and "cls ob \<noteq> ArrayObject" and "sc < next_addr h"
    and "is_nullish (chain_val h sc n)" and "no_inherited H h pr ns" and "pr \<noteq> sc" and "ns \<noteq> []"
  shows "\<exists>g h'. compile_assign H F [path_expr n ns] = Some g \<and> g (Ref sc) w Undef h = (Inr w, h') \<and>
     fn (compile H F flt [path_expr n ns]) (scope_env (Ref sc)) h' = (Inr w, h')"
proof -
  obtain ms m where nm: "ns = ms @ [m]" using assms(7) rev_exhaust by blast
  obtain h' r r' where
    e: "interp_node H F Map.empty (scope_only sc w) [] NoCreate (AssignmentE (path_expr n ns) NGValueParameter) h = (Inr r, h')"
    "ref_value r = w"
    "interp_node H F Map.empty (scope_only sc Undef) [0] NoCreate (path_expr n ns) h' = (Inr r', h')" "ref_value r' = w"
    using assign_then_read[OF assms, of F w "[]" Undef "[0]"] by blast
  show ?thesis
    using e
    by (auto simp: compile_assign_def assignableAST_def isAssignable_def nm scope_only_def scope_env_def
        val_of_def compile_direct bindJ_Inr retJ_def simp del: interp_node.simps)
qed

theorem assign_creates_path_witness:
  "\<exists>g h'. compile_assign demo_host demo_filters [path_expr (J ''a'') [J ''b'', J ''c'']] = Some g \<and>
     g (Ref 1) (Boolean True) Undef demo_heap = (Inr (Boolean True), h') \<and>
     fn (compile demo_host demo_filters (\<lambda>_. Stateful) [path_expr (J ''a'') [J ''b'', J ''c'']]) (scope_env (Ref 1)) h' =
       (Inr (Boolean True), h')"
  by (rule assign_creates_path[where pr = 0])
    (auto simp: demo_heap_def chain_val_def obj_prop_def own_prop_def is_nullish_def no_inherited_def demo_host_def
      numeral_2_eq_2)

subsection \<open>Promises\<close>

definition demo_user :: user_code where
  "demo_user = (\<lambda>_ v _. ([], Inr v))"

definition demo_steps :: "q_step list" where
  "demo_steps = [External ApiDefer, External (ApiThen 0 (UserCallback 0) NoCallback NoCallback),
     External (ApiResolve 0 (Plain 7)), Tick]"

text \<open>
  C15. A promise settles at most once: whatever calls are made from outside and whatever tasks run
  after a promise has been fulfilled or rejected, its status and its value stay the same.
\<close>

theorem promise_settles_once:
  fixes user passed eu
  defines "run \<equiv> fold (q_next user passed eu)"
  assumes "p < length (proms (run before q_init))" and "settled (status (proms (run before q_init) ! p))"
  shows "status (proms (run after (run before q_init)) ! p) = status (proms (run before q_init) ! p) \<and>
    pvalue (proms (run after (run before q_init)) ! p) = pvalue (proms (run before q_init) ! p)"
proof -
  have "keeps_settled (run before q_init) (run after (run before q_init))"
    unfolding run_def by (rule q_run_keeps[OF q_inv.run_inv[OF q_init_ok]])
  then show ?thesis using assms(2,3) by (simp add: keeps_settled_def)
qed

theorem promise_settles_once_witness:
  "pvalue (proms (fold (q_next demo_user (\<lambda>_. False) False) [External (ApiReject 0 Undefined), Tick]
     (fold (q_next demo_user (\<lambda>_. False) False) demo_steps q_init)) ! 0) = Plain 7"
proof -
  let ?s = "fold (q_next demo_user (\<lambda>_. False) False) demo_steps q_init"
  have "0 < length (proms ?s)" "status (proms ?s ! 0) = Fulfilled" "pvalue (proms ?s ! 0) = Plain 7"
    by code_simp+
  then show ?thesis
    using promise_settles_once[of 0 demo_user "\<lambda>_. False" False demo_steps "[External (ApiReject 0 Undefined), Tick]"]
    by (simp add: settled_def)
qed

text \<open>
  C16. No callback is forgotten: when the service has run all its tasks, a settled promise has no
  callbacks left to call.
\<close>

theorem no_callback_forgotten:
  assumes "tasks (fold (q_next user passed eu) steps q_init) = []"
    and "p < length (proms (fold (q_next user passed eu) steps q_init))"
    and "settled (status (proms (fold (q_next user passed eu) steps q_init) ! p))"
  shows "pending (proms (fold (q_next user passed eu) steps q_init) ! p) = None"
  using q_inv.run_inv[OF q_init_ok, of user passed eu steps] assms by (auto simp: q_ok_def sched_at_def)

theorem no_callback_forgotten_witness:
  "pending (proms (fold (q_next demo_user (\<lambda>_. False) False) demo_steps q_init) ! 0) = None"
  by (rule no_callback_forgotten) code_simp+

end
