(* ===== verification/Links.thy ===== *)
theory Links
  imports Prelude
begin

section \<open>Doubly linked lists\<close>

text \<open>
  Lists threaded through two link functions \<open>n\<close> (next) and \<open>p\<close> (previous) on objects named by
  numbers: \<open>seg n p pr es nx\<close> says that \<open>es\<close> is a segment of such a list, with \<open>pr\<close> before it and
  \<open>nx\<close> after it. The caches and the tree of scopes are built on them.
\<close>

fun seg :: "(nat \<Rightarrow> nat option) \<Rightarrow> (nat \<Rightarrow> nat option) \<Rightarrow> nat option \<Rightarrow> nat list \<Rightarrow> nat option \<Rightarrow> bool" where
  "seg n p pr [] nx = True"
| "seg n p pr (e # es) nx =
     (p e = pr \<and> n e = (case es of [] \<Rightarrow> nx | f # _ \<Rightarrow> Some f) \<and> seg n p (Some e) es nx)"

definition first_of :: "nat list \<Rightarrow> nat option \<Rightarrow> nat option" where
  "first_of es d = (case es of [] \<Rightarrow> d | e # _ \<Rightarrow> Some e)"

definition last_of :: "nat list \<Rightarrow> nat option \<Rightarrow> nat option" where
  "last_of es d = (if es = [] then d else Some (last es))"

lemma ends_simps[simp]:
  "first_of [] d = d" "first_of (e # es) d = Some e" "last_of [] d = d" "last_of (es @ [e]) d = Some e"
  "last_of [e] d = Some e" "last_of (e # f # es) d = last_of (f # es) d"
  by (simp_all add: first_of_def last_of_def)

lemma last_of_Cons: "last_of (e # es) d = last_of es (Some e)"
  by (simp add: last_of_def)

lemma first_of_append: "first_of (xs @ ys) d = first_of xs (first_of ys d)"
  by (cases xs) (auto simp: first_of_def)

lemma last_of_append: "last_of (xs @ ys) d = last_of ys (last_of xs d)"
  by (simp add: last_of_def)

lemma seg_Cons: "seg n p pr (e # es) nx = (p e = pr \<and> n e = first_of es nx \<and> seg n p (Some e) es nx)"
  by (simp add: first_of_def)

lemma seg_append:
  "seg n p pr (xs @ ys) nx = (seg n p pr xs (first_of ys nx) \<and> seg n p (last_of xs pr) ys nx)"
  by (induction xs arbitrary: pr) (auto simp: seg_Cons first_of_append last_of_Cons simp del: seg.simps(2))

lemma seg_n_other [simp]: "e \<notin> set es \<Longrightarrow> seg (n(e := x)) p pr es nx = seg n p pr es nx"
  by (induction es arbitrary: pr) auto

lemma seg_p_other [simp]: "e \<notin> set es \<Longrightarrow> seg n (p(e := x)) pr es nx = seg n p pr es nx"
  by (induction es arbitrary: pr) auto

lemmas seg_simps = seg_Cons seg_append

lemma first_last_set:
  "first_of es None = Some e \<Longrightarrow> e \<in> set es" "last_of es None = Some e \<Longrightarrow> e \<in> set es"
  by (auto simp: first_of_def last_of_def split: list.splits if_splits)

text \<open>Unlinking an element: its neighbours are linked to each other.\<close>

definition relink :: "nat option \<Rightarrow> nat option \<Rightarrow> (nat \<Rightarrow> nat option) \<Rightarrow> nat \<Rightarrow> nat option" where
  "relink target x f = (case target of Some j \<Rightarrow> f(j := x) | None \<Rightarrow> f)"

lemma relink_simps [simp]: "relink None x f = f" "relink (Some j) x f = f(j := x)"
  by (simp_all add: relink_def)

lemma seg_relink_n [simp]: "(\<forall>j. t = Some j \<longrightarrow> j \<notin> set es) \<Longrightarrow> seg (relink t x n) p pr es nx = seg n p pr es nx"
  by (cases t) auto

lemma seg_relink_p [simp]: "(\<forall>j. t = Some j \<longrightarrow> j \<notin> set es) \<Longrightarrow> seg n (relink t x p) pr es nx = seg n p pr es nx"
  by (cases t) auto

lemma seg_at:
  "seg n p pr (xs @ e # ys) nx \<Longrightarrow> p e = last_of xs pr \<and> n e = first_of ys nx"
  by (simp add: seg_simps del: seg.simps(2))

lemma seg_unlink:
  assumes "distinct (xs @ e # ys)" and "seg n p None (xs @ e # ys) None"
  shows "seg (relink (p e) (n e) n) (relink (n e) (p e) p) None (xs @ ys) None"
proof (cases xs rule: rev_cases)
  case Nil
  then show ?thesis using assms by (cases ys) (auto simp: seg_simps simp del: seg.simps(2))
next
  case (snoc xs' x)
  then show ?thesis using assms by (cases ys) (auto simp: seg_simps simp del: seg.simps(2))
qed

text \<open>Linking a new element after the last one.\<close>

lemma seg_snoc:
  assumes "distinct es" and "e \<notin> set es" and "seg n p None es None"
  shows "seg ((relink (last_of es None) (Some e) n)(e := None)) (p(e := last_of es None)) None (es @ [e]) None"
  using assms by (cases es rule: rev_cases) (auto simp: seg_simps simp del: seg.simps(2))

end
