(* ===== verification/NgCache.thy ===== *)
theory NgCache
  imports Links "HOL-Library.AList"
begin

section \<open>Caches: $cacheFactory\<close>

text \<open>
  One cache object of \<open>$cacheFactory\<close>. With a capacity, the entries form a doubly linked list from
  \<open>staleEnd\<close> to \<open>freshEnd\<close>; an entry is an object, named by a number, with the links \<open>n\<close> (next) and
  \<open>p\<close> (previous), where \<open>None\<close> is \<open>null\<close> or \<open>undefined\<close>. Without one (\<open>capacity = None\<close>) only the data
  is kept. The refinement shows that the list is the order of last use.
\<close>

record 'v cache =
  data :: "jstring \<Rightarrow> 'v option"
  size_field :: nat
  capacity :: "nat option"
  lruHash :: "jstring \<Rightarrow> nat option"
  entry_key :: "nat \<Rightarrow> jstring"
  n_link :: "nat \<Rightarrow> nat option"
  p_link :: "nat \<Rightarrow> nat option"
  freshEnd :: "nat option"
  staleEnd :: "nat option"
  next_entry :: nat

text \<open>A capacity of 0 is \<open>falsy\<close>: the cache is then unbounded.\<close>

definition cacheFactory :: "nat option \<Rightarrow> 'v cache" where
  "cacheFactory cap =
     \<lparr>data = Map.empty, size_field = 0, capacity = (case cap of Some (Suc c) \<Rightarrow> Some (Suc c) | _ \<Rightarrow> None),
      lruHash = Map.empty, entry_key = (\<lambda>_. []), n_link = Map.empty, p_link = Map.empty,
      freshEnd = None, staleEnd = None, next_entry = 0\<rparr>"

text \<open>\<open>link(nextEntry, prevEntry)\<close>\<close>

definition link :: "nat option \<Rightarrow> nat option \<Rightarrow> 'v cache \<Rightarrow> 'v cache" where
  "link nextEntry prevEntry c =
     (if nextEntry \<noteq> prevEntry then
        (let c1 = (case nextEntry of Some e \<Rightarrow> c\<lparr>p_link := (p_link c)(e := prevEntry)\<rparr> | None \<Rightarrow> c)
         in case prevEntry of Some e \<Rightarrow> c1\<lparr>n_link := (n_link c1)(e := nextEntry)\<rparr> | None \<Rightarrow> c1)
      else c)"

definition refresh :: "nat \<Rightarrow> 'v cache \<Rightarrow> 'v cache" where
  "refresh e c =
     (if Some e \<noteq> freshEnd c then
        (let c1 = (if staleEnd c = None then c\<lparr>staleEnd := Some e\<rparr>
                   else if staleEnd c = Some e then c\<lparr>staleEnd := n_link c e\<rparr> else c);
             c2 = link (n_link c1 e) (p_link c1 e) c1;
             c3 = link (Some e) (freshEnd c2) c2
         in c3\<lparr>freshEnd := Some e, n_link := (n_link c3)(e := None)\<rparr>)
      else c)"

definition cache_remove :: "jstring \<Rightarrow> 'v cache \<Rightarrow> 'v cache" where
  "cache_remove key c =
     (let drop_data = (\<lambda>d. if data d key = None then d
            else d\<lparr>data := (data d)(key := None), size_field := size_field d - 1\<rparr>)
      in if capacity c \<noteq> None then
           (case lruHash c key of
              None \<Rightarrow> c
            | Some e \<Rightarrow>
                (let c1 = (if Some e = freshEnd c then c\<lparr>freshEnd := p_link c e\<rparr> else c);
                     c2 = (if Some e = staleEnd c1 then c1\<lparr>staleEnd := n_link c1 e\<rparr> else c1);
                     c3 = link (n_link c2 e) (p_link c2 e) c2
                 in drop_data (c3\<lparr>lruHash := (lruHash c3)(key := None)\<rparr>)))
         else drop_data c)"

text \<open>The entry of a key, made when there is none.\<close>

definition entry_for :: "jstring \<Rightarrow> 'v cache \<Rightarrow> nat \<times> 'v cache" where
  "entry_for key c =
     (case lruHash c key of
        Some e \<Rightarrow> (e, c)
      | None \<Rightarrow>
          (let e = next_entry c
           in (e, c\<lparr>lruHash := (lruHash c)(key := Some e), entry_key := (entry_key c)(e := key),
                n_link := (n_link c)(e := None), p_link := (p_link c)(e := None), next_entry := Suc e\<rparr>)))"

text \<open>\<open>put\<close>; \<open>None\<close> as the value is \<open>undefined\<close>.\<close>

definition cache_put :: "jstring \<Rightarrow> 'v option \<Rightarrow> 'v cache \<Rightarrow> 'v cache" where
  "cache_put key value c =
     (case value of
        None \<Rightarrow> c
      | Some v \<Rightarrow>
          (let c1 = (if capacity c \<noteq> None then (let (e, c') = entry_for key c in refresh e c') else c);
               c2 = (if data c1 key = None then c1\<lparr>size_field := Suc (size_field c1)\<rparr> else c1);
               c3 = c2\<lparr>data := (data c2)(key := Some v)\<rparr>
           in case capacity c3 of
                Some cap \<Rightarrow>
                  if size_field c3 > cap then
                    (case staleEnd c3 of Some e \<Rightarrow> cache_remove (entry_key c3 e) c3 | None \<Rightarrow> c3)
                  else c3
              | None \<Rightarrow> c3))"

definition cache_get :: "jstring \<Rightarrow> 'v cache \<Rightarrow> 'v option \<times> 'v cache" where
  "cache_get key c =
     (if capacity c \<noteq> None then
        (case lruHash c key of
           None \<Rightarrow> (None, c)
         | Some e \<Rightarrow> (let c' = refresh e c in (data c' key, c')))
      else (data c key, c))"

definition cache_removeAll :: "'v cache \<Rightarrow> 'v cache" where
  "cache_removeAll c =
     c\<lparr>data := Map.empty, size_field := 0, lruHash := Map.empty, freshEnd := None, staleEnd := None\<rparr>"

subsection \<open>The links\<close>

lemma link_same [simp]: "link a a c = c"
  by (simp add: link_def)

lemma link_links:
  "n_link (link a b c) = (if a \<noteq> b then relink b a (n_link c) else n_link c)"
  "p_link (link a b c) = (if a \<noteq> b then relink a b (p_link c) else p_link c)"
  by (auto simp: link_def relink_def split: option.splits)

text \<open>Taking an entry out of the list: its neighbours are linked to each other.\<close>

lemma link_fields [simp]:
  "data (link a b c) = data c" "size_field (link a b c) = size_field c" "capacity (link a b c) = capacity c"
  "lruHash (link a b c) = lruHash c" "entry_key (link a b c) = entry_key c"
  "freshEnd (link a b c) = freshEnd c" "staleEnd (link a b c) = staleEnd c"
  "next_entry (link a b c) = next_entry c"
  by (simp_all add: link_def Let_def split: option.splits)

lemma link_unlinks:
  assumes "distinct (xs @ e # ys)" and "seg (n_link c) (p_link c) None (xs @ e # ys) None"
  shows "seg (n_link (link (n_link c e) (p_link c e) c)) (p_link (link (n_link c e) (p_link c e) c)) None (xs @ ys) None"
proof (cases "n_link c e = p_link c e")
  case True
  then have "n_link c e = None" "p_link c e = None"
    using seg_at [OF assms(2)] assms(1) first_last_set [of ys] first_last_set [of xs]
    by (cases "last_of xs None"; auto)+
  then show ?thesis
    using seg_unlink [OF assms] by simp
next
  case False
  then show ?thesis
    using seg_unlink [OF assms] by (simp add: link_links)
qed

text \<open>Appending an entry at the fresh end.\<close>

lemma link_appends:
  assumes "distinct es" and "e \<notin> set es" and "seg (n_link c) (p_link c) None es None"
  shows "seg ((n_link (link (Some e) (last_of es None) c))(e := None)) (p_link (link (Some e) (last_of es None) c)) None (es @ [e]) None"
  using seg_snoc [OF assms] assms(2) first_last_set(2) [of es e] by (auto simp: link_links)

subsection \<open>The invariant\<close>

definition cache_ok :: "'v cache \<Rightarrow> nat list \<Rightarrow> bool" where
  "cache_ok c es \<longleftrightarrow>
     (\<exists>cap. capacity c = Some (Suc cap)) \<and> distinct es \<and> seg (n_link c) (p_link c) None es None \<and>
     freshEnd c = last_of es None \<and> staleEnd c = first_of es None \<and>
     distinct (map (entry_key c) es) \<and> lruHash c = map_of (map (\<lambda>e. (entry_key c e, e)) es) \<and>
     (\<forall>e \<in> set es. e < next_entry c)"

lemma map_of_entries:
  "distinct (map f es) \<Longrightarrow> (map_of (map (\<lambda>e. (f e, e)) es) k = Some e) = (e \<in> set es \<and> f e = k)"
  by (induction es) (auto simp: image_iff split: if_splits)

lemma map_of_entries_None: "(map_of (map (\<lambda>e. (f e, e)) es) k = None) = (k \<notin> f ` set es)"
  by (induction es) auto

text \<open>\<open>move_last e es\<close> puts \<open>e\<close> at the end of the list.\<close>

definition move_last :: "'a \<Rightarrow> 'a list \<Rightarrow> 'a list" where
  "move_last e es = removeAll e es @ [e]"

lemma removeAll_split: "distinct (xs @ e # ys) \<Longrightarrow> removeAll e (xs @ e # ys) = xs @ ys"
  by (induction xs) auto

lemma map_of_entries_perm:
  assumes "distinct (map f es)" and "distinct (map f fs)" and "set es = set fs"
  shows "map_of (map (\<lambda>e. (f e, e)) es) = map_of (map (\<lambda>e. (f e, e)) fs)"
proof
  fix k
  show "map_of (map (\<lambda>e. (f e, e)) es) k = map_of (map (\<lambda>e. (f e, e)) fs) k"
    using assms map_of_entries [of f es k] map_of_entries [of f fs k]
    by (cases "map_of (map (\<lambda>e. (f e, e)) es) k"; cases "map_of (map (\<lambda>e. (f e, e)) fs) k") auto
qed

text \<open>What \<open>refresh\<close> does to the list, for an entry that is in it and for a new one.\<close>

lemma refresh_fields [simp]:
  "data (refresh e c) = data c" "size_field (refresh e c) = size_field c" "capacity (refresh e c) = capacity c"
  "lruHash (refresh e c) = lruHash c" "entry_key (refresh e c) = entry_key c"
  "next_entry (refresh e c) = next_entry c"
  by (simp_all add: refresh_def Let_def)

lemma refresh_present:
  assumes "cache_ok c es" and "e \<in> set es"
  shows "cache_ok (refresh e c) (move_last e es)"
proof -
  obtain xs ys where es: "es = xs @ e # ys"
    using assms(2) by (meson split_list)
  have d: "distinct (xs @ e # ys)" and k: "distinct (map (entry_key c) (xs @ e # ys))"
    using assms(1) by (simp_all add: cache_ok_def es)
  have m: "move_last e es = (xs @ ys) @ [e]"
    using removeAll_split [OF d] by (simp add: move_last_def es)
  show ?thesis
  proof (cases "ys = []")
    case True
    then show ?thesis
      using assms(1) m by (simp add: refresh_def es cache_ok_def)
  next
    case False
    define c1 where "c1 = (if staleEnd c = Some e then c\<lparr>staleEnd := n_link c e\<rparr> else c)"
    define c2 where "c2 = link (n_link c1 e) (p_link c1 e) c1"
    have fresh: "freshEnd c = last_of (xs @ ys) None" "freshEnd c \<noteq> Some e" "staleEnd c = first_of es None"
      using assms(1) d False by (auto simp: cache_ok_def es last_of_def)
    have seg2: "seg (n_link c2) (p_link c2) None (xs @ ys) None"
      using link_unlinks [OF d, of c1] assms(1) by (simp add: c2_def c1_def cache_ok_def es split: if_splits)
    have f2: "freshEnd c2 = last_of (xs @ ys) None"
      by (simp add: c2_def c1_def fresh(1))
    have stale: "staleEnd c2 = first_of (xs @ ys) None"
      using assms(1) fresh d False
      by (cases xs) (auto simp: c2_def c1_def es cache_ok_def seg_simps first_of_append simp del: seg.simps(2) split: list.splits)
    have "staleEnd c \<noteq> None"
      using fresh by (cases xs) (simp_all add: es)
    then obtain y where "staleEnd c = Some y"
      by blast
    moreover have "Some e \<noteq> freshEnd c"
      using fresh(2) by metis
    ultimately have r: "refresh e c = (let c3 = link (Some e) (freshEnd c2) c2
        in c3\<lparr>freshEnd := Some e, n_link := (n_link c3)(e := None)\<rparr>)"
      by (simp add: refresh_def c1_def c2_def Let_def)
    have "seg ((n_link (link (Some e) (freshEnd c2) c2))(e := None)) (p_link (link (Some e) (freshEnd c2) c2)) None ((xs @ ys) @ [e]) None"
      using link_appends [of "xs @ ys" e c2] d seg2 unfolding f2 by simp
    moreover have "first_of ((xs @ ys) @ [e]) None = staleEnd c2"
      using False stale by (cases xs; cases ys) simp_all
    moreover have "map_of (map (\<lambda>e. (entry_key c e, e)) ((xs @ ys) @ [e])) = lruHash c"
      using assms(1) k map_of_entries_perm [of "entry_key c" "(xs @ ys) @ [e]" es] by (auto simp: cache_ok_def es)
    ultimately show ?thesis
      using assms(1) d k unfolding m r by (auto simp: cache_ok_def es last_of_append c2_def c1_def Let_def)
  qed
qed

lemma refresh_new:
  assumes "cache_ok c es" and "lruHash c key = None" and "entry_for key c = (e, c')"
  shows "cache_ok (refresh e c') (es @ [e])" and "e \<notin> set es" and "entry_key c' e = key"
    and "\<forall>f \<in> set es. entry_key c' f = entry_key c f"
proof -
  have e: "e = next_entry c" and c': "c' = c\<lparr>lruHash := (lruHash c)(key := Some e), entry_key := (entry_key c)(e := key),
      n_link := (n_link c)(e := None), p_link := (p_link c)(e := None), next_entry := Suc e\<rparr>"
    using assms(2,3) by (auto simp: entry_for_def Let_def)
  show new: "e \<notin> set es"
    using assms(1) e by (auto simp: cache_ok_def)
  show "entry_key c' e = key" and keys: "\<forall>f \<in> set es. entry_key c' f = entry_key c f"
    using new by (auto simp: c')
  have seg: "seg (n_link c') (p_link c') None es None" and ends: "freshEnd c' = last_of es None" "staleEnd c' = first_of es None"
    using assms(1) new by (auto simp: c' cache_ok_def)
  define c1 where "c1 = (if staleEnd c' = None then c'\<lparr>staleEnd := Some e\<rparr> else c')"
  have "freshEnd c' \<noteq> Some e" "staleEnd c' \<noteq> Some e"
    using ends new by (auto simp: first_of_def last_of_def split: list.splits)
  moreover have "n_link c' e = None" "p_link c' e = None"
    by (simp_all add: c')
  ultimately have r: "refresh e c' = (let c3 = link (Some e) (freshEnd c') c1
      in c3\<lparr>freshEnd := Some e, n_link := (n_link c3)(e := None)\<rparr>)"
    unfolding refresh_def c1_def Let_def by (cases "staleEnd c'") simp_all
  have "seg ((n_link (link (Some e) (freshEnd c') c1))(e := None)) (p_link (link (Some e) (freshEnd c') c1)) None (es @ [e]) None"
    using link_appends [of es e c1] assms(1) new seg ends by (simp add: c1_def cache_ok_def)
  moreover have "first_of (es @ [e]) None = staleEnd c1"
    using ends by (cases es) (simp_all add: c1_def)
  moreover have "map_of (map (\<lambda>f. (entry_key c' f, f)) (es @ [e])) = lruHash c'"
  proof -
    have "map_of (map (\<lambda>f. (entry_key c' f, f)) es) = lruHash c"
      using assms(1) keys by (auto simp: cache_ok_def intro!: arg_cong [where f = map_of])
    moreover have "key \<notin> dom (lruHash c)"
      using assms(2) by auto
    ultimately show ?thesis
      by (auto simp: c' fun_eq_iff map_add_def split: option.splits)
  qed
  moreover have "key \<notin> entry_key c ` set es"
    using assms(1,2) by (auto simp: cache_ok_def map_of_entries_None)
  moreover have "map (entry_key c') es = map (entry_key c) es" "\<forall>f \<in> set es. f < Suc e"
    using keys assms(1) e by (auto simp: cache_ok_def less_Suc_eq)
  ultimately show "cache_ok (refresh e c') (es @ [e])"
    using assms(1) new unfolding r by (auto simp: cache_ok_def c1_def c' Let_def)
qed

subsection \<open>The order of last use\<close>

text \<open>
  What a bounded cache promises: it is the list of its pairs in the order of last use, the stale end
  first. Using a key moves it to the end, and a \<open>put\<close> over the capacity drops the first pair.
\<close>

type_synonym 'v uses = "(jstring \<times> 'v) list"

definition use_key :: "jstring \<Rightarrow> 'v uses \<Rightarrow> 'v uses" where
  "use_key k l = (case map_of l k of Some v \<Rightarrow> AList.delete k l @ [(k, v)] | None \<Rightarrow> l)"

definition uses_put :: "nat \<Rightarrow> jstring \<Rightarrow> 'v \<Rightarrow> 'v uses \<Rightarrow> 'v uses" where
  "uses_put cap k v l = (let l' = AList.delete k l @ [(k, v)] in if length l' > cap then tl l' else l')"

definition cache_repr :: "'v cache \<Rightarrow> nat list \<Rightarrow> 'v uses \<Rightarrow> bool" where
  "cache_repr c es l \<longleftrightarrow>
     cache_ok c es \<and> data c = map_of l \<and> map fst l = map (entry_key c) es \<and> size_field c = length l"

lemma repr_distinct: "cache_repr c es l \<Longrightarrow> distinct (map fst l)"
  by (simp add: cache_repr_def cache_ok_def)

lemma repr_lookup:
  assumes "cache_repr c es l"
  shows "(lruHash c k = None) = (map_of l k = None)"
proof -
  have "fst ` set l = entry_key c ` set es"
    using assms by (metis cache_repr_def list.set_map)
  then show ?thesis
    using assms by (simp add: cache_repr_def cache_ok_def image_image map_of_eq_None_iff)
qed

lemma delete_keys: "map fst (AList.delete k l) = removeAll k (map fst l)"
  by (induction l) auto

lemma removeAll_map:
  assumes "distinct (map f es)" and "e \<in> set es"
  shows "removeAll (f e) (map f es) = map f (removeAll e es)"
proof -
  have "x \<in> set es \<Longrightarrow> (f e \<noteq> f x) = (e \<noteq> x)" for x
    using assms by (auto simp: distinct_map inj_on_eq_iff)
  then show ?thesis
    by (simp add: removeAll_filter_not_eq filter_map comp_def cong: filter_cong)
qed

lemma move_last_length: "distinct es \<Longrightarrow> e \<in> set es \<Longrightarrow> length (move_last e es) = length es"
  by (auto simp: move_last_def removeAll_split dest!: split_list)

lemma repr_entry:
  assumes "cache_repr c es l" and "lruHash c k = Some e"
  shows "e \<in> set es" and "entry_key c e = k"
  using assms map_of_entries [of "entry_key c" es k e] by (auto simp: cache_repr_def cache_ok_def)

theorem refresh_uses:
  assumes "cache_repr c es l" and "lruHash c k = Some e"
  shows "cache_repr (refresh e c) (move_last e es) (use_key k l)"
proof -
  have e: "e \<in> set es" "entry_key c e = k"
    using repr_entry [OF assms] by auto
  obtain v where v: "map_of l k = Some v"
    using repr_lookup [OF assms(1), of k] assms(2) by auto
  have d: "distinct (map fst l)"
    using assms(1) by (rule repr_distinct)
  have u: "use_key k l = AList.delete k l @ [(k, v)]"
    by (simp add: use_key_def v)
  have "map_of (use_key k l) = map_of l"
    using v by (auto simp: u fun_eq_iff map_add_def AList.delete_conv' split: option.splits)
  moreover have keys: "map fst (use_key k l) = map (entry_key c) (move_last e es)"
    using assms(1) e removeAll_map [of "entry_key c" es e]
    by (simp add: u delete_keys move_last_def cache_repr_def cache_ok_def)
  moreover have "length (use_key k l) = length l"
    using arg_cong [OF keys, of length] assms(1) e move_last_length [of es e]
    by (simp add: cache_repr_def cache_ok_def) (metis length_map)
  ultimately show ?thesis
    using assms(1) refresh_present [of c es e] e by (simp add: cache_repr_def)
qed


text \<open>Removing an entry.\<close>

lemma map_of_entries_drop:
  "distinct (map f (xs @ e # ys)) \<Longrightarrow>
   map_of (map (\<lambda>e. (f e, e)) (xs @ ys)) = (map_of (map (\<lambda>e. (f e, e)) (xs @ e # ys)))(f e := None)"
proof (induction xs)
  case Nil
  then have "map_of (map (\<lambda>e. (f e, e)) ys) (f e) = None"
    by (simp add: map_of_entries_None)
  then show ?case
    by (auto simp: fun_eq_iff)
next
  case (Cons x xs)
  then show ?case
    by (auto simp: fun_upd_twist)
qed

lemma cache_remove_ok:
  assumes "cache_ok c es" and "lruHash c k = Some e"
  shows "cache_ok (cache_remove k c) (removeAll e es)"
proof -
  have e: "e \<in> set es" "entry_key c e = k"
    using assms map_of_entries [of "entry_key c" es k e] by (auto simp: cache_ok_def)
  then obtain xs ys where es: "es = xs @ e # ys"
    by (meson split_list)
  have d: "distinct (xs @ e # ys)" and dk: "distinct (map (entry_key c) (xs @ e # ys))"
    using assms(1) by (simp_all add: cache_ok_def es)
  define c1 where "c1 = (if Some e = freshEnd c then c\<lparr>freshEnd := p_link c e\<rparr> else c)"
  define c2 where "c2 = (if Some e = staleEnd c1 then c1\<lparr>staleEnd := n_link c1 e\<rparr> else c1)"
  define c3 where "c3 = link (n_link c2 e) (p_link c2 e) c2"
  have links: "n_link c2 = n_link c" "p_link c2 = p_link c"
    by (auto simp: c2_def c1_def)
  have ends: "p_link c e = last_of xs None" "n_link c e = first_of ys None"
    using assms(1) by (auto simp: cache_ok_def es seg_simps simp del: seg.simps(2))
  have "freshEnd c1 = last_of (xs @ ys) None"
    using assms(1) d ends by (cases ys rule: rev_cases) (auto simp: c1_def cache_ok_def es last_of_append last_of_Cons)
  moreover have "staleEnd c2 = first_of (xs @ ys) None"
    using assms(1) d ends by (cases xs) (auto simp: c2_def c1_def cache_ok_def es)
  moreover have "seg (n_link c3) (p_link c3) None (xs @ ys) None"
    unfolding c3_def using link_unlinks [OF d, of c2] assms(1) by (simp add: links cache_ok_def es)
  moreover have "map_of (map (\<lambda>e. (entry_key c e, e)) (xs @ ys)) = (lruHash c)(k := None)"
    using assms(1) map_of_entries_drop [OF dk] e by (simp add: cache_ok_def es)
  moreover have "cache_remove k c = (let c' = c3\<lparr>lruHash := (lruHash c3)(k := None)\<rparr>
     in if data c' k = None then c' else c'\<lparr>data := (data c')(k := None), size_field := size_field c' - 1\<rparr>)"
    using assms by (auto simp: cache_remove_def c3_def c2_def c1_def Let_def cache_ok_def)
  ultimately show ?thesis
    using assms(1) d dk by (auto simp: cache_ok_def es removeAll_split c3_def c2_def c1_def Let_def)
qed

lemma cache_remove_fields:
  assumes "capacity c \<noteq> None" and "lruHash c k \<noteq> None"
  shows "data (cache_remove k c) = (data c)(k := None)"
    and "size_field (cache_remove k c) = (if data c k = None then size_field c else size_field c - 1)"
    and "entry_key (cache_remove k c) = entry_key c" and "capacity (cache_remove k c) = capacity c"
  using assms by (auto simp: cache_remove_def Let_def split: option.splits)

lemma delete_length:
  "distinct (map fst l) \<Longrightarrow> map_of l k \<noteq> None \<Longrightarrow> length (AList.delete k l) = length l - 1"
proof -
  assume "distinct (map fst l)" "map_of l k \<noteq> None"
  moreover have "k \<in> fst ` set l"
    using calculation(2) by (simp add: map_of_eq_None_iff)
  moreover have "length (AList.delete k l) = length (removeAll k (map fst l))"
    using arg_cong [OF delete_keys [of k l], of length] by simp
  ultimately show ?thesis
    by (simp add: length_remove1 flip: distinct_remove1_removeAll)
qed

theorem remove_uses:
  assumes "cache_repr c es l"
  shows "\<exists>es'. cache_repr (cache_remove k c) es' (AList.delete k l)"
proof (cases "lruHash c k")
  case None
  then have "map_of l k = None" "cache_remove k c = c"
    using repr_lookup [OF assms, of k] assms by (auto simp: cache_remove_def cache_repr_def cache_ok_def)
  moreover have "AList.delete k l = l"
    using calculation(1) by (simp add: delete_id map_of_eq_None_iff)
  ultimately show ?thesis
    using assms by auto
next
  case (Some e)
  have e: "e \<in> set es" "entry_key c e = k"
    using repr_entry [OF assms Some] by auto
  have "capacity c \<noteq> None" "map_of l k \<noteq> None"
    using assms repr_lookup [OF assms, of k] Some by (auto simp: cache_repr_def cache_ok_def)
  then have "cache_repr (cache_remove k c) (removeAll e es) (AList.delete k l)"
    using assms Some e cache_remove_ok [of c es k e] cache_remove_fields [of c k] repr_distinct [OF assms]
      removeAll_map [of "entry_key c" es e]
    by (auto simp: cache_repr_def delete_keys delete_length AList.delete_conv' cache_ok_def)
  then show ?thesis
    by blast
qed

text \<open>Storing a value: the part of \<open>put\<close> before the capacity is enforced.\<close>

lemma store_uses:
  assumes "cache_repr c es l" and "entry_for k c = (e, c')"
  shows "\<exists>es'. cache_repr ((refresh e c')\<lparr>size_field := (if data c k = None then Suc (size_field c) else size_field c),
      data := (data c)(k := Some v)\<rparr>) es' (AList.delete k l @ [(k, v)])"
proof -
  have m: "map_of (AList.delete k l @ [(k, v)]) = (map_of l)(k := Some v)"
    by (auto simp: fun_eq_iff map_add_def AList.delete_conv' split: option.splits)
  have ok: "cache_ok c es" and data: "data c = map_of l" and len: "size_field c = length l"
    and keys: "map fst l = map (entry_key c) es"
    using assms(1) by (simp_all add: cache_repr_def)
  show ?thesis
  proof (cases "lruHash c k")
    case None
    then have l: "AList.delete k l = l" "data c k = None"
      using repr_lookup [OF assms(1), of k] data by (simp_all add: delete_id map_of_eq_None_iff)
    have "map (entry_key c') (es @ [e]) = map fst (l @ [(k, v)])"
      using refresh_new (3,4) [OF ok None assms(2)] keys by simp
    then have "cache_repr ((refresh e c')\<lparr>size_field := Suc (size_field c), data := (data c)(k := Some v)\<rparr>) (es @ [e]) (l @ [(k, v)])"
      using refresh_new(1) [OF ok None assms(2)] l m data len by (simp add: cache_repr_def cache_ok_def)
    then show ?thesis
      using l by auto
  next
    case (Some f)
    then have f: "e = f" "c' = c"
      using assms(2) by (simp_all add: entry_for_def)
    have d: "data c k \<noteq> None"
      using repr_lookup [OF assms(1), of k] data Some by simp
    have r: "cache_repr (refresh f c) (move_last f es) (use_key k l)"
      by (rule refresh_uses [OF assms(1) Some])
    have "map fst (use_key k l) = map fst (AList.delete k l @ [(k, v)])"
      using d data by (auto simp: use_key_def)
    moreover from this have "length (use_key k l) = length (AList.delete k l @ [(k, v)])"
      by (metis length_map)
    ultimately have "cache_repr ((refresh f c)\<lparr>size_field := size_field c, data := (data c)(k := Some v)\<rparr>)
        (move_last f es) (AList.delete k l @ [(k, v)])"
      using r m data by (simp add: cache_repr_def cache_ok_def)
    then show ?thesis
      using d f by auto
  qed
qed

lemma put_uses:
  assumes "cache_repr c es l" and "capacity c = Some cap"
  shows "\<exists>es'. cache_repr (cache_put k (Some v) c) es' (uses_put cap k v l)"
proof -
  obtain e c' where e: "entry_for k c = (e, c')"
    by (cases "entry_for k c")
  have f: "data c' = data c" "size_field c' = size_field c" "capacity c' = capacity c"
    using e by (auto simp: entry_for_def Let_def split: option.splits)
  define l' where "l' = AList.delete k l @ [(k, v)]"
  define c3 where "c3 = (refresh e c')\<lparr>size_field := (if data c k = None then Suc (size_field c) else size_field c),
      data := (data c)(k := Some v)\<rparr>"
  obtain es' where r: "cache_repr c3 es' l'"
    using store_uses [OF assms(1) e] by (auto simp: c3_def l'_def)
  have put: "cache_put k (Some v) c =
      (if size_field c3 > cap then (case staleEnd c3 of Some e \<Rightarrow> cache_remove (entry_key c3 e) c3 | None \<Rightarrow> c3) else c3)"
  proof (cases "data c k")
    case None
    then have "c3 = (refresh e c')\<lparr>size_field := Suc (size_field c), data := (data c)(k := Some v)\<rparr>"
      by (simp add: c3_def)
    then show ?thesis
      using assms(2) by (simp add: cache_put_def e f None Let_def split: option.split)
  next
    case (Some w)
    then have "c3 = (refresh e c')\<lparr>data := (data c)(k := Some v)\<rparr>"
      by (intro cache.equality) (simp_all add: c3_def f)
    then show ?thesis
      using assms(2) by (simp add: cache_put_def e f Some Let_def split: option.split)
  qed
  obtain p ps where l': "l' = p # ps"
    by (cases l') (auto simp: l'_def)
  then obtain g gs where g: "es' = g # gs" "entry_key c3 g = fst p"
    using r by (cases es') (auto simp: cache_repr_def)
  have "fst p \<notin> fst ` set ps"
    using repr_distinct [OF r] by (simp add: l')
  then have "AList.delete (fst p) l' = tl l'"
    by (simp add: l' delete_id)
  moreover have "staleEnd c3 = Some g" "size_field c3 = length l'"
    using r g by (auto simp: cache_repr_def cache_ok_def)
  ultimately show ?thesis
    using remove_uses [OF r, of "fst p"] r g unfolding put uses_put_def
    by (auto simp: Let_def simp flip: l'_def)
qed

lemma removeAll_uses:
  "cache_repr c es l \<Longrightarrow> cache_repr (cache_removeAll c) [] []"
  by (auto simp: cache_repr_def cache_ok_def cache_removeAll_def)

lemma get_uses:
  assumes "cache_repr c es l"
  shows "fst (cache_get k c) = map_of l k \<and> (\<exists>es'. cache_repr (snd (cache_get k c)) es' (use_key k l))"
proof (cases "lruHash c k")
  case None
  then show ?thesis
    using assms repr_lookup [OF assms, of k] by (auto simp: cache_get_def cache_repr_def cache_ok_def use_key_def)
next
  case (Some e)
  then show ?thesis
    using assms refresh_uses [OF assms Some] by (auto simp: cache_get_def cache_repr_def cache_ok_def Let_def)
qed

subsection \<open>Sequences of operations\<close>

datatype 'v cache_op = Put jstring "'v option" | Get jstring | Remove jstring | RemoveAll

fun cache_step :: "'v cache_op \<Rightarrow> 'v cache \<Rightarrow> 'v option \<times> 'v cache" where
  "cache_step (Put k v) c = (v, cache_put k v c)"
| "cache_step (Get k) c = cache_get k c"
| "cache_step (Remove k) c = (None, cache_remove k c)"
| "cache_step RemoveAll c = (None, cache_removeAll c)"

fun uses_step :: "nat \<Rightarrow> 'v cache_op \<Rightarrow> 'v uses \<Rightarrow> 'v option \<times> 'v uses" where
  "uses_step cap (Put k v) l = (v, case v of Some w \<Rightarrow> uses_put cap k w l | None \<Rightarrow> l)"
| "uses_step cap (Get k) l = (map_of l k, use_key k l)"
| "uses_step cap (Remove k) l = (None, AList.delete k l)"
| "uses_step cap RemoveAll l = (None, [])"

definition lru_repr :: "nat \<Rightarrow> 'v cache \<Rightarrow> 'v uses \<Rightarrow> bool" where
  "lru_repr cap c l \<longleftrightarrow> capacity c = Some cap \<and> (\<exists>es. cache_repr c es l)"

lemma capacity_kept [simp]:
  "capacity (cache_remove k c) = capacity c" "capacity (cache_put k v c) = capacity c"
  "capacity (snd (cache_get k c)) = capacity c" "capacity (cache_removeAll c) = capacity c"
proof -
  show r: "capacity (cache_remove k c) = capacity c" for k c
    by (auto simp: cache_remove_def Let_def split: option.splits)
  show "capacity (cache_put k v c) = capacity c"
    by (auto simp: cache_put_def entry_for_def Let_def r split: option.splits prod.splits)
qed (auto simp: cache_get_def cache_removeAll_def Let_def split: option.splits)

interpretation lru: simulation cache_step "uses_step cap" "lru_repr cap" for cap
proof
  fix c :: "'v cache" and l op
  assume "lru_repr cap c l"
  then obtain es where r: "capacity c = Some cap" "cache_repr c es l"
    by (auto simp: lru_repr_def)
  show "fst (cache_step op c) = fst (uses_step cap op l) \<and> lru_repr cap (snd (cache_step op c)) (snd (uses_step cap op l))"
  proof (cases op)
    case (Put k v)
    show ?thesis
    proof (cases v)
      case None
      then show ?thesis
        using r Put by (auto simp: lru_repr_def cache_put_def)
    next
      case (Some w)
      then show ?thesis
        using r Put put_uses [OF r(2,1), of k w] by (simp add: lru_repr_def)
    qed
  next
    case (Get k)
    then show ?thesis
      using r get_uses [OF r(2), of k] by (auto simp: lru_repr_def)
  next
    case (Remove k)
    then show ?thesis
      using r remove_uses [OF r(2), of k] by (auto simp: lru_repr_def)
  next
    case RemoveAll
    then show ?thesis
      using r removeAll_uses [OF r(2)] by (auto simp: lru_repr_def)
  qed
qed

lemma lru_init: "lru_repr (Suc n) (cacheFactory (Some (Suc n))) []"
  by (auto simp: lru_repr_def cache_repr_def cache_ok_def cacheFactory_def intro!: exI [of _ "[]"])

text \<open>The list of uses never exceeds the capacity.\<close>

lemma uses_bound: "length l \<le> cap \<Longrightarrow> length (snd (uses_step cap op l)) \<le> cap"
proof (cases op)
  case (Put k v)
  assume "length l \<le> cap"
  moreover have "length (AList.delete k l) \<le> length l"
    by (rule length_delete_le)
  ultimately show ?thesis
    by (auto simp: Put uses_put_def Let_def split: option.splits)
next
  case (Get k)
  assume b: "length l \<le> cap"
  show ?thesis
  proof (cases "map_of l k")
    case (Some v)
    then have "k \<in> fst ` set l"
      by (metis domI dom_map_of_conv_image_fst)
    then have "length (AList.delete k l) < length l"
      by (induction l) (auto simp: less_Suc_eq_le length_delete_le image_iff Bex_def intro: Suc_leI)
    then show ?thesis
      using b Some by (simp add: Get use_key_def)
  qed (use b Get in \<open>simp add: use_key_def\<close>)
qed (use length_delete_le [of _ l] in \<open>auto intro: le_trans\<close>)

lemma uses_run_bound: "length l \<le> cap \<Longrightarrow> length (snd (run_ops (uses_step cap) ops l)) \<le> cap"
proof (induction ops arbitrary: l)
  case (Cons op ops)
  then show ?case
    using uses_bound [of l cap op] by (simp add: case_prod_beta Let_def)
qed simp

subsection \<open>The property\<close>

text \<open>
  C17. A bounded cache is exactly its list of pairs in the order of last use: under every sequence of
  \<open>put\<close>, \<open>get\<close>, \<open>remove\<close> and \<open>removeAll\<close> it returns what the list returns, it holds the pairs of
  the list, a \<open>put\<close> over the capacity drops the least recently used pair, and the size it
  reports is the number of pairs and never exceeds the capacity.
\<close>

theorem cache_is_lru:
  "let (out, c) = run_ops cache_step ops (cacheFactory (Some (Suc n)));
       (out', l) = run_ops (uses_step (Suc n)) ops []
   in out = out' \<and> data c = map_of l \<and> distinct (map fst l) \<and> size_field c = length l \<and> length l \<le> Suc n"
proof -
  have "fst (run_ops cache_step ops (cacheFactory (Some (Suc n)))) = fst (run_ops (uses_step (Suc n)) ops []) \<and>
      lru_repr (Suc n) (snd (run_ops cache_step ops (cacheFactory (Some (Suc n))))) (snd (run_ops (uses_step (Suc n)) ops []))"
    by (rule lru.run_sim [OF lru_init])
  then show ?thesis
    using uses_run_bound [of "[]" "Suc n" ops] repr_distinct
    by (auto simp: case_prod_beta Let_def lru_repr_def cache_repr_def)
qed

end
