(* ===== verification/NgScope.thy ===== *)
theory NgScope
  imports JsValue
begin

section \<open>Scopes: the service $rootScope\<close>

text \<open>
  \<open>$RootScopeProvider\<close>. Scopes, arrays of watchers, watchers, arrays of listeners, registrations and
  events are objects with identities, so they are kept in stores and named by numbers; \<open>None\<close> is
  \<open>null\<close>. A child scope inherits from the scope that made it; parents and prototypes are older than
  their children, which is what makes the recursions along them total.

  What user code does is the parameter \<open>client\<close>: a watch expression yields a value or throws, any
  other function changes the data of the application, makes calls on the service (a list of
  \<open>action\<close>s) and returns or throws. \<open>equals\<close> and \<open>copy\<close>, used for watches by value, are fields of
  it too. Calls nest to any depth (a listener may broadcast an event whose listeners digest), so the
  interpreter of the calls, \<open>exec\<close>, has fuel, and each loop that user code can prolong has fuel too;
  \<open>None\<close> as a result is running out of it. An exception that reaches a \<open>null\<close> dereference is
  \<open>NullError\<close>. Left out: the log of watches in the message of \<open>infdig\<close>, the calls that watch the
  URL of the browser, \<open>$root\<close>, which no operation reads, and the branch for Internet Explorer 9.
\<close>

datatype listener = UserListener nat | DestroyChildScope

record scope =
  s_parent :: "nat option"
  s_next :: "nat option"
  s_prev :: "nat option"
  s_head :: "nat option"
  s_tail :: "nat option"
  s_proto :: "nat option"
  s_watchers :: "nat option"
  s_watchersCount :: int
  s_listeners :: "jstring \<Rightarrow> nat option"
  s_listenerCount :: "(jstring \<times> int option) list"
  s_destroyed :: "bool option"
  s_disabled :: bool

text \<open>
  A count of listeners is \<open>NaN\<close> (the inner \<open>None\<close>) when a listener of a destroyed scope is removed.
  \<open>w_last = None\<close> is the function \<open>initWatchVal\<close>, which equals no value.
\<close>

record watcher =
  w_scope :: nat
  w_array :: nat
  w_get :: nat
  w_fn :: nat
  w_last :: "val option"
  w_eq :: bool

record registration =
  r_scope :: nat
  r_name :: jstring
  r_array :: nat
  r_listener :: listener

record event =
  e_name :: jstring
  e_target :: nat
  e_current :: "nat option"
  e_stopped :: bool
  e_prevented :: bool

datatype phase = Digesting | Applying

datatype serror = InProgress phase | InfDig nat | NullError | UserError val

datatype deferred = FlushAsync | ApplyFlush

record 'u sstate =
  scopes :: "nat \<Rightarrow> scope"
  next_scope :: nat
  w_arrays :: "nat \<Rightarrow> nat list"
  digestIndex :: "nat \<Rightarrow> int"
  next_array :: nat
  watches :: "nat \<Rightarrow> watcher"
  next_watch :: nat
  l_arrays :: "nat \<Rightarrow> listener option list"
  next_larray :: nat
  regs :: "nat \<Rightarrow> registration"
  next_reg :: nat
  events :: "nat \<Rightarrow> event"
  next_event :: nat
  phase_of :: "phase option"
  lastDirtyWatch :: "nat option"
  asyncQueue :: "(nat \<times> nat) list"
  postDigestQueue :: "nat list"
  postDigestPos :: nat
  applyAsyncQueue :: "(nat \<times> nat) list"
  applyAsyncId :: "nat option"
  deferreds :: "(nat \<times> deferred) list"
  next_deferred :: nat
  handled_errors :: "serror list"
  udata :: 'u

text \<open>The functions of the user, and the calls they make.\<close>

datatype ucall =
  ListenerCall nat val val nat
| AsyncCall nat nat
| PostCall nat
| EventCall nat nat
| ExprCall nat nat

datatype action =
  ANew bool "nat option" nat
| ADestroy nat
| AWatch nat nat nat bool
| AUnwatch nat
| AEvalAsync nat nat
| APostDigest nat
| AOn nat jstring nat
| AOff nat
| AEmit nat jstring
| ABroadcast nat jstring
| AStop nat
| APrevent nat
| ADigest nat
| AApply nat nat
| AApplyAsync nat "nat option"
| ADeferred nat

record 'u client =
  c_get :: "nat \<Rightarrow> nat \<Rightarrow> 'u \<Rightarrow> (val + val) \<times> 'u"
  c_run :: "ucall \<Rightarrow> 'u \<Rightarrow> 'u \<times> action list \<times> val option"
  c_equals :: "'u \<Rightarrow> val \<Rightarrow> val \<Rightarrow> bool"
  c_copy :: "val \<Rightarrow> 'u \<Rightarrow> val \<times> 'u"

type_synonym ('u, 'a) sm = "'u sstate \<Rightarrow> (serror + 'a) option \<times> 'u sstate"

definition s_ret :: "'a \<Rightarrow> ('u, 'a) sm" where
  "s_ret x = (\<lambda>s. (Some (Inr x), s))"

definition s_raise :: "serror \<Rightarrow> ('u, 'a) sm" where
  "s_raise e = (\<lambda>s. (Some (Inl e), s))"

definition s_bind :: "('u, 'a) sm \<Rightarrow> ('a \<Rightarrow> ('u, 'b) sm) \<Rightarrow> ('u, 'b) sm" where
  "s_bind m f = (\<lambda>s. case m s of
      (None, s') \<Rightarrow> (None, s')
    | (Some (Inl e), s') \<Rightarrow> (Some (Inl e), s')
    | (Some (Inr x), s') \<Rightarrow> f x s')"

definition s_mod :: "('u sstate \<Rightarrow> 'u sstate) \<Rightarrow> ('u, unit) sm" where
  "s_mod f = (\<lambda>s. (Some (Inr ()), f s))"

text \<open>\<open>try { m } catch (e) { $exceptionHandler(e) }\<close>\<close>

definition exceptionHandler :: "serror \<Rightarrow> 'u sstate \<Rightarrow> 'u sstate" where
  "exceptionHandler e s = s\<lparr>handled_errors := handled_errors s @ [e]\<rparr>"

definition s_try :: "'a \<Rightarrow> ('u, 'a) sm \<Rightarrow> ('u, 'a) sm" where
  "s_try d m = (\<lambda>s. case m s of
      (Some (Inl e), s') \<Rightarrow> (Some (Inr d), exceptionHandler e s')
    | r \<Rightarrow> r)"

definition upd_scope :: "nat \<Rightarrow> (scope \<Rightarrow> scope) \<Rightarrow> 'u sstate \<Rightarrow> 'u sstate" where
  "upd_scope i f s = s\<lparr>scopes := (scopes s)(i := f (scopes s i))\<rparr>"

subsection \<open>New scopes\<close>

text \<open>\<open>Scope()\<close>, and the constructor \<open>createChildScopeClass\<close> makes for a parent.\<close>

definition Scope :: scope where
  "Scope = \<lparr>s_parent = None, s_next = None, s_prev = None, s_head = None, s_tail = None, s_proto = None,
     s_watchers = None, s_watchersCount = 0, s_listeners = Map.empty, s_listenerCount = [],
     s_destroyed = Some False, s_disabled = False\<rparr>"

definition ChildScope :: "nat \<Rightarrow> scope" where
  "ChildScope parent = \<lparr>s_parent = None, s_next = None, s_prev = None, s_head = None, s_tail = None, s_proto = Some parent,
     s_watchers = None, s_watchersCount = 0, s_listeners = Map.empty, s_listenerCount = [],
     s_destroyed = None, s_disabled = False\<rparr>"

abbreviation rootScope :: nat where
  "rootScope \<equiv> 0"

definition s_init :: "'u \<Rightarrow> 'u sstate" where
  "s_init u = \<lparr>scopes = (\<lambda>_. Scope), next_scope = 1, w_arrays = (\<lambda>_. []), digestIndex = (\<lambda>_. 0), next_array = 0,
     watches = (\<lambda>_. \<lparr>w_scope = 0, w_array = 0, w_get = 0, w_fn = 0, w_last = None, w_eq = False\<rparr>), next_watch = 0,
     l_arrays = (\<lambda>_. []), next_larray = 0,
     regs = (\<lambda>_. \<lparr>r_scope = 0, r_name = [], r_array = 0, r_listener = DestroyChildScope\<rparr>), next_reg = 0,
     events = (\<lambda>_. \<lparr>e_name = [], e_target = 0, e_current = None, e_stopped = False, e_prevented = False\<rparr>),
     next_event = 0, phase_of = None, lastDirtyWatch = None, asyncQueue = [], postDigestQueue = [],
     postDigestPos = 0, applyAsyncQueue = [], applyAsyncId = None, deferreds = [], next_deferred = 0,
     handled_errors = [], udata = u\<rparr>"

text \<open>Properties read along the prototypes: \<open>$$destroyed\<close>, and the methods a destroyed scope replaces.\<close>

function destroyed_of :: "'u sstate \<Rightarrow> nat \<Rightarrow> bool" where
  "destroyed_of s i =
     (case s_destroyed (scopes s i) of
        Some b \<Rightarrow> b
      | None \<Rightarrow> (case s_proto (scopes s i) of Some j \<Rightarrow> if j < i then destroyed_of s j else False | None \<Rightarrow> False))"
  by pat_completeness auto
termination by (relation "measure snd") auto

function disabled :: "'u sstate \<Rightarrow> nat \<Rightarrow> bool" where
  "disabled s i =
     (s_disabled (scopes s i) \<or>
      (case s_proto (scopes s i) of Some j \<Rightarrow> if j < i then disabled s j else False | None \<Rightarrow> False))"
  by pat_completeness auto
termination by (relation "measure snd") auto

text \<open>The scopes of \<open>do { ... } while ((current = current.$parent))\<close>.\<close>

function ancestors :: "'u sstate \<Rightarrow> nat \<Rightarrow> nat list" where
  "ancestors s i = i # (case s_parent (scopes s i) of Some j \<Rightarrow> if j < i then ancestors s j else [] | None \<Rightarrow> [])"
  by pat_completeness auto
termination by (relation "measure snd") auto

declare destroyed_of.simps [simp del] disabled.simps [simp del] ancestors.simps [simp del]

definition incrementWatchersCount :: "nat \<Rightarrow> int \<Rightarrow> 'u sstate \<Rightarrow> 'u sstate" where
  "incrementWatchersCount i count s =
     fold (\<lambda>j. upd_scope j (\<lambda>sc. sc\<lparr>s_watchersCount := s_watchersCount sc + count\<rparr>)) (ancestors s i) s"

subsection \<open>Listeners\<close>

definition falsy_count :: "int option option \<Rightarrow> bool" where
  "falsy_count c \<longleftrightarrow> c = None \<or> c = Some None \<or> c = Some (Some 0)"

definition count_up :: "jstring \<Rightarrow> scope \<Rightarrow> scope" where
  "count_up name sc =
     (let c = map_of (s_listenerCount sc) name;
          c' = (if falsy_count c then Some 0 else the c)
      in sc\<lparr>s_listenerCount := AList.update name (map_option (\<lambda>k. k + 1) c') (s_listenerCount sc)\<rparr>)"

definition count_down :: "int option \<Rightarrow> jstring \<Rightarrow> scope \<Rightarrow> scope" where
  "count_down count name sc =
     (let c = (case (map_of (s_listenerCount sc) name, count) of (Some (Some m), Some k) \<Rightarrow> Some (m - k) | _ \<Rightarrow> None)
      in if c = Some 0 then sc\<lparr>s_listenerCount := AList.delete name (s_listenerCount sc)\<rparr>
         else sc\<lparr>s_listenerCount := AList.update name c (s_listenerCount sc)\<rparr>)"

definition decrementListenerCount :: "nat \<Rightarrow> int option \<Rightarrow> jstring \<Rightarrow> 'u sstate \<Rightarrow> 'u sstate" where
  "decrementListenerCount i count name s = fold (\<lambda>j. upd_scope j (count_down count name)) (ancestors s i) s"

definition scope_on :: "nat \<Rightarrow> jstring \<Rightarrow> listener \<Rightarrow> 'u sstate \<Rightarrow> 'u sstate" where
  "scope_on i name l s =
     (if disabled s i then s
      else
        let (a, s1) = (case s_listeners (scopes s i) name of
              Some a \<Rightarrow> (a, s)
            | None \<Rightarrow> (next_larray s,
                (upd_scope i (\<lambda>sc. sc\<lparr>s_listeners := (s_listeners sc)(name := Some (next_larray s))\<rparr>) s)
                  \<lparr>l_arrays := (l_arrays s)(next_larray s := []), next_larray := Suc (next_larray s)\<rparr>));
            s2 = s1\<lparr>l_arrays := (l_arrays s1)(a := l_arrays s1 a @ [Some l])\<rparr>;
            s3 = fold (\<lambda>j. upd_scope j (count_up name)) (ancestors s2 i) s2
        in s3\<lparr>regs := (regs s3)(next_reg s3 := \<lparr>r_scope = i, r_name = name, r_array = a, r_listener = l\<rparr>),
              next_reg := Suc (next_reg s3)\<rparr>)"

fun index_of :: "'a \<Rightarrow> 'a list \<Rightarrow> nat option" where
  "index_of x [] = None"
| "index_of x (y # ys) = (if x = y then Some 0 else map_option Suc (index_of x ys))"

definition scope_off :: "nat \<Rightarrow> 'u sstate \<Rightarrow> 'u sstate" where
  "scope_off r s =
     (let reg = regs s r; arr = l_arrays s (r_array reg)
      in case index_of (Some (r_listener reg)) arr of
           None \<Rightarrow> s
         | Some k \<Rightarrow> decrementListenerCount (r_scope reg) (Some 1) (r_name reg)
             (s\<lparr>l_arrays := (l_arrays s)(r_array reg := arr[k := None])\<rparr>))"

text \<open>\<open>$new(isolate, parent)\<close>\<close>

definition scope_new :: "bool \<Rightarrow> nat option \<Rightarrow> nat \<Rightarrow> ('u, nat) sm" where
  "scope_new isolate parent_arg this = (\<lambda>s.
     let parent = (case parent_arg of Some p \<Rightarrow> p | None \<Rightarrow> this);
         child = next_scope s;
         obj = (if isolate then Scope else ChildScope this);
         s1 = s\<lparr>scopes := (scopes s)(child := obj\<lparr>s_parent := Some parent, s_prev := s_tail (scopes s parent)\<rparr>),
                next_scope := Suc child\<rparr>;
         finish = (\<lambda>s2. (Some (Inr child),
           if isolate \<or> parent \<noteq> this then scope_on child (J ''$destroy'') DestroyChildScope s2 else s2))
     in case s_head (scopes s1 parent) of
          Some _ \<Rightarrow>
            (case s_tail (scopes s1 parent) of
               Some t \<Rightarrow> finish (upd_scope parent (\<lambda>sc. sc\<lparr>s_tail := Some child\<rparr>)
                           (upd_scope t (\<lambda>sc. sc\<lparr>s_next := Some child\<rparr>) s1))
             | None \<Rightarrow> (Some (Inl NullError), s1))
        | None \<Rightarrow> finish (upd_scope parent (\<lambda>sc. sc\<lparr>s_head := Some child, s_tail := Some child\<rparr>) s1))"

subsection \<open>Watchers\<close>

text \<open>\<open>$watch\<close>, for a watch expression without a \<open>$$watchDelegate\<close>, and the function it returns.\<close>

definition scope_watch :: "nat \<Rightarrow> nat \<Rightarrow> nat \<Rightarrow> bool \<Rightarrow> 'u sstate \<Rightarrow> 'u sstate" where
  "scope_watch i get fn objectEquality s =
     (if disabled s i then s
      else
        let w = next_watch s;
            s0 = s\<lparr>lastDirtyWatch := None\<rparr>;
            (a, s1) = (case s_watchers (scopes s0 i) of
              Some a \<Rightarrow> (a, s0)
            | None \<Rightarrow> (next_array s0, (upd_scope i (\<lambda>sc. sc\<lparr>s_watchers := Some (next_array s0)\<rparr>) s0)
                \<lparr>w_arrays := (w_arrays s0)(next_array s0 := []), digestIndex := (digestIndex s0)(next_array s0 := -1),
                 next_array := Suc (next_array s0)\<rparr>));
            s2 = s1\<lparr>watches := (watches s1)(w :=
                     \<lparr>w_scope = i, w_array = a, w_get = get, w_fn = fn, w_last = None, w_eq = objectEquality\<rparr>),
                   next_watch := Suc w, w_arrays := (w_arrays s1)(a := w # w_arrays s1 a),
                   digestIndex := (digestIndex s1)(a := digestIndex s1 a + 1)\<rparr>
        in incrementWatchersCount i 1 s2)"

definition scope_unwatch :: "nat \<Rightarrow> 'u sstate \<Rightarrow> 'u sstate" where
  "scope_unwatch w s =
     (let a = w_array (watches s w); i = w_scope (watches s w)
      in (case index_of w (w_arrays s a) of
            None \<Rightarrow> s
          | Some k \<Rightarrow>
              (let s1 = incrementWatchersCount i (- 1) (s\<lparr>w_arrays := (w_arrays s)(a := remove1 w (w_arrays s a))\<rparr>)
               in if int k < digestIndex s1 a
                  then s1\<lparr>digestIndex := (digestIndex s1)(a := digestIndex s1 a - 1)\<rparr> else s1))
         \<lparr>lastDirtyWatch := None\<rparr>)"

subsection \<open>Queues and phases\<close>

definition beginPhase :: "phase \<Rightarrow> ('u, unit) sm" where
  "beginPhase p = (\<lambda>s. case phase_of s of
      Some q \<Rightarrow> s_raise (InProgress q) s
    | None \<Rightarrow> (Some (Inr ()), s\<lparr>phase_of := Some p\<rparr>))"

definition clearPhase :: "'u sstate \<Rightarrow> 'u sstate" where
  "clearPhase s = s\<lparr>phase_of := None\<rparr>"

definition defer_fn :: "deferred \<Rightarrow> 'u sstate \<Rightarrow> 'u sstate" where
  "defer_fn d s = s\<lparr>deferreds := deferreds s @ [(next_deferred s, d)], next_deferred := Suc (next_deferred s)\<rparr>"

definition scope_evalAsync :: "nat \<Rightarrow> nat \<Rightarrow> 'u sstate \<Rightarrow> 'u sstate" where
  "scope_evalAsync i fn s =
     (if disabled s i then s
      else
        let s1 = (if phase_of s = None \<and> asyncQueue s = [] then defer_fn FlushAsync s else s)
        in s1\<lparr>asyncQueue := asyncQueue s1 @ [(i, fn)]\<rparr>)"

definition scope_postDigest :: "nat \<Rightarrow> 'u sstate \<Rightarrow> 'u sstate" where
  "scope_postDigest fn s = s\<lparr>postDigestQueue := postDigestQueue s @ [fn]\<rparr>"

definition scheduleApplyAsync :: "'u sstate \<Rightarrow> 'u sstate" where
  "scheduleApplyAsync s =
     (if applyAsyncId s = None then (defer_fn ApplyFlush s)\<lparr>applyAsyncId := Some (next_deferred s)\<rparr> else s)"

definition scope_applyAsync :: "nat \<Rightarrow> nat option \<Rightarrow> 'u sstate \<Rightarrow> 'u sstate" where
  "scope_applyAsync i expr s =
     (if disabled s i then s
      else scheduleApplyAsync
        (case expr of Some e \<Rightarrow> s\<lparr>applyAsyncQueue := applyAsyncQueue s @ [(i, e)]\<rparr> | None \<Rightarrow> s))"

subsection \<open>Running user code\<close>

text \<open>\<open>exec\<close> runs one call on the service.\<close>

type_synonym 'u exec = "action \<Rightarrow> ('u, unit) sm"

fun run_actions :: "'u exec \<Rightarrow> action list \<Rightarrow> ('u, unit) sm" where
  "run_actions exec [] = s_ret ()"
| "run_actions exec (a # as) = s_bind (exec a) (\<lambda>_. run_actions exec as)"

definition call_user :: "'u client \<Rightarrow> 'u exec \<Rightarrow> ucall \<Rightarrow> ('u, unit) sm" where
  "call_user C exec c = (\<lambda>s.
     let (u, acts, thrown) = c_run C c (udata s)
     in s_bind (run_actions exec acts)
          (\<lambda>_. case thrown of Some e \<Rightarrow> s_raise (UserError e) | None \<Rightarrow> s_ret ()) (s\<lparr>udata := u\<rparr>))"

subsection \<open>Events\<close>

definition upd_event :: "nat \<Rightarrow> (event \<Rightarrow> event) \<Rightarrow> 'u sstate \<Rightarrow> 'u sstate" where
  "upd_event ev f s = s\<lparr>events := (events s)(ev := f (events s ev))\<rparr>"

definition new_event :: "jstring \<Rightarrow> nat \<Rightarrow> 'u sstate \<Rightarrow> 'u sstate" where
  "new_event name target s =
     s\<lparr>events := (events s)(next_event s :=
         \<lparr>e_name = name, e_target = target, e_current = None, e_stopped = False, e_prevented = False\<rparr>),
       next_event := Suc (next_event s)\<rparr>"

definition call_listener :: "'u client \<Rightarrow> 'u exec \<Rightarrow> listener \<Rightarrow> nat \<Rightarrow> ('u, unit) sm" where
  "call_listener C exec l ev =
     (case l of
        UserListener f \<Rightarrow> call_user C exec (EventCall f ev)
      | DestroyChildScope \<Rightarrow> (\<lambda>s. case e_current (events s ev) of
            Some i \<Rightarrow> (Some (Inr ()), upd_scope i (\<lambda>sc. sc\<lparr>s_destroyed := Some True\<rparr>) s)
          | None \<Rightarrow> (Some (Inl NullError), s)))"

text \<open>
  The loop over the listeners of one scope. \<open>i\<close> and \<open>n\<close> are the variables of the source; a hole is
  spliced out, and an index past the end reads as a hole.
\<close>

function listener_loop :: "'u client \<Rightarrow> 'u exec \<Rightarrow> nat \<Rightarrow> nat \<Rightarrow> nat \<Rightarrow> nat \<Rightarrow> ('u, unit) sm" where
  "listener_loop C exec ev a i n s =
     (if i < n then
        (case (if i < length (l_arrays s a) then l_arrays s a ! i else None) of
           None \<Rightarrow> listener_loop C exec ev a i (n - 1)
             (s\<lparr>l_arrays := (l_arrays s)(a := take i (l_arrays s a) @ drop (Suc i) (l_arrays s a))\<rparr>)
         | Some l \<Rightarrow> s_bind (s_try () (call_listener C exec l ev)) (\<lambda>_. listener_loop C exec ev a (Suc i) n) s)
      else (Some (Inr ()), s))"
  by pat_completeness auto
termination by (relation "measure (\<lambda>(C, exec, ev, a, i, n, s). n - i)") auto

declare listener_loop.simps [simp del]

definition scope_listeners :: "'u client \<Rightarrow> 'u exec \<Rightarrow> nat \<Rightarrow> jstring \<Rightarrow> nat \<Rightarrow> ('u, unit) sm" where
  "scope_listeners C exec i name ev = (\<lambda>s.
     case s_listeners (scopes s i) name of
       Some a \<Rightarrow> listener_loop C exec ev a 0 (length (l_arrays s a)) (upd_event ev (\<lambda>e. e\<lparr>e_current := Some i\<rparr>) s)
     | None \<Rightarrow> (Some (Inr ()), upd_event ev (\<lambda>e. e\<lparr>e_current := Some i\<rparr>) s))"

fun emit_loop :: "'u client \<Rightarrow> 'u exec \<Rightarrow> nat \<Rightarrow> nat \<Rightarrow> jstring \<Rightarrow> nat \<Rightarrow> ('u, unit) sm" where
  "emit_loop C exec 0 i name ev s = (None, s)"
| "emit_loop C exec (Suc n) i name ev s =
     s_bind (scope_listeners C exec i name ev) (\<lambda>_ s'.
       if e_stopped (events s' ev) then (Some (Inr ()), s')
       else case s_parent (scopes s' i) of
           Some p \<Rightarrow> emit_loop C exec n p name ev s'
         | None \<Rightarrow> (Some (Inr ()), s')) s"

definition scope_emit :: "'u client \<Rightarrow> nat \<Rightarrow> 'u exec \<Rightarrow> nat \<Rightarrow> jstring \<Rightarrow> ('u, unit) sm" where
  "scope_emit C n exec i name = (\<lambda>s.
     let ev = next_event s
     in s_bind (emit_loop C exec n i name ev)
          (\<lambda>_. s_mod (upd_event ev (\<lambda>e. e\<lparr>e_current := None\<rparr>))) (new_event name i s))"

text \<open>
  The step of the depth-first traversal in \<open>$digest\<close> and \<open>$broadcast\<close>: down when the test of the
  current scope holds, else to the next sibling of the scope or of the nearest ancestor that has one,
  up to the target. The field of a \<open>null\<close> parent is a \<open>TypeError\<close>.
\<close>

function climb :: "'u sstate \<Rightarrow> nat \<Rightarrow> nat \<Rightarrow> serror + nat option" where
  "climb s target i =
     (if i = target then Inr None
      else case s_next (scopes s i) of
          Some j \<Rightarrow> Inr (Some j)
        | None \<Rightarrow> (case s_parent (scopes s i) of
              Some p \<Rightarrow> if p < i then climb s target p else Inl NullError
            | None \<Rightarrow> Inl NullError))"
  by pat_completeness auto
termination by (relation "measure (\<lambda>(s, t, i). i)") auto

declare climb.simps [simp del]

definition next_scope_of :: "('u sstate \<Rightarrow> nat \<Rightarrow> bool) \<Rightarrow> 'u sstate \<Rightarrow> nat \<Rightarrow> nat \<Rightarrow> serror + nat option" where
  "next_scope_of descend s target i =
     (case (if descend s i then s_head (scopes s i) else None) of
        Some j \<Rightarrow> Inr (Some j)
      | None \<Rightarrow>
          (case (if i \<noteq> target then s_next (scopes s i) else None) of
             Some j \<Rightarrow> Inr (Some j)
           | None \<Rightarrow> climb s target i))"

definition has_listeners :: "jstring \<Rightarrow> 'u sstate \<Rightarrow> nat \<Rightarrow> bool" where
  "has_listeners name s i \<longleftrightarrow> \<not> falsy_count (map_of (s_listenerCount (scopes s i)) name)"

fun broadcast_loop :: "'u client \<Rightarrow> 'u exec \<Rightarrow> nat \<Rightarrow> nat \<Rightarrow> nat \<Rightarrow> jstring \<Rightarrow> nat \<Rightarrow> ('u, unit) sm" where
  "broadcast_loop C exec 0 target i name ev s = (None, s)"
| "broadcast_loop C exec (Suc n) target i name ev s =
     s_bind (scope_listeners C exec i name ev) (\<lambda>_ s'.
       case next_scope_of (has_listeners name) s' target i of
         Inl e \<Rightarrow> (Some (Inl e), s')
       | Inr None \<Rightarrow> (Some (Inr ()), s')
       | Inr (Some j) \<Rightarrow> broadcast_loop C exec n target j name ev s') s"

definition scope_broadcast :: "'u client \<Rightarrow> nat \<Rightarrow> 'u exec \<Rightarrow> nat \<Rightarrow> jstring \<Rightarrow> ('u, unit) sm" where
  "scope_broadcast C n exec i name = (\<lambda>s.
     let ev = next_event s; s1 = new_event name i s
     in if \<not> has_listeners name s1 i then (Some (Inr ()), s1)
        else s_bind (broadcast_loop C exec n i i name ev)
               (\<lambda>_. s_mod (upd_event ev (\<lambda>e. e\<lparr>e_current := None\<rparr>))) s1)"

subsection \<open>Destroying a scope\<close>

definition cleanUpScope :: "scope \<Rightarrow> scope" where
  "cleanUpScope sc = sc\<lparr>s_parent := None, s_next := None, s_prev := None, s_head := None, s_tail := None,
     s_watchers := None\<rparr>"

text \<open>The pointers to a scope are moved to its siblings.\<close>

definition unlink_scope :: "nat \<Rightarrow> nat option \<Rightarrow> 'u sstate \<Rightarrow> 'u sstate" where
  "unlink_scope i parent s =
     (let s1 = (case parent of
            Some p \<Rightarrow> if s_head (scopes s p) = Some i then upd_scope p (\<lambda>sc. sc\<lparr>s_head := s_next (scopes s i)\<rparr>) s else s
          | None \<Rightarrow> s);
          s2 = (case parent of
            Some p \<Rightarrow> if s_tail (scopes s1 p) = Some i then upd_scope p (\<lambda>sc. sc\<lparr>s_tail := s_prev (scopes s1 i)\<rparr>) s1 else s1
          | None \<Rightarrow> s1);
          s3 = (case s_prev (scopes s2 i) of
            Some j \<Rightarrow> upd_scope j (\<lambda>sc. sc\<lparr>s_next := s_next (scopes s2 i)\<rparr>) s2
          | None \<Rightarrow> s2)
      in case s_next (scopes s3 i) of
           Some j \<Rightarrow> upd_scope j (\<lambda>sc. sc\<lparr>s_prev := s_prev (scopes s3 i)\<rparr>) s3
         | None \<Rightarrow> s3)"

definition drop_counts :: "nat \<Rightarrow> 'u sstate \<Rightarrow> 'u sstate" where
  "drop_counts i s =
     fold (\<lambda>name t. case map_of (s_listenerCount (scopes t i)) name of
             Some c \<Rightarrow> decrementListenerCount i c name t | None \<Rightarrow> t)
       (map fst (s_listenerCount (scopes s i))) s"

definition finish_destroy :: "nat \<Rightarrow> nat option \<Rightarrow> 'u sstate \<Rightarrow> 'u sstate" where
  "finish_destroy i parent s =
     (let s1 = upd_scope i (\<lambda>sc. sc\<lparr>s_destroyed := Some True\<rparr>) s;
          s2 = incrementWatchersCount i (- s_watchersCount (scopes s1 i)) s1;
          s3 = unlink_scope i parent (drop_counts i s2)
      in upd_scope i (\<lambda>sc. cleanUpScope (sc\<lparr>s_disabled := True, s_listeners := Map.empty, s_next := None\<rparr>)) s3)"

definition scope_destroy :: "'u client \<Rightarrow> nat \<Rightarrow> 'u exec \<Rightarrow> nat \<Rightarrow> ('u, unit) sm" where
  "scope_destroy C n exec i = (\<lambda>s.
     if disabled s i \<or> destroyed_of s i then (Some (Inr ()), s)
     else
       (let parent = s_parent (scopes s i)
        in s_bind (scope_broadcast C n exec i (J ''$destroy'')) (\<lambda>_. s_mod (finish_destroy i parent)) s))"

subsection \<open>The digest\<close>

text \<open>
  One watcher: \<open>Visited d\<close> goes on with the flag \<open>dirty = d\<close>, \<open>ShortCircuit\<close> is the \<open>break\<close> out of
  the traversal. An exception of the expression or of the listener is reported and the loop goes on.
\<close>

datatype visit = Visited bool | ShortCircuit

definition is_nan :: "val \<Rightarrow> bool" where
  "is_nan v \<longleftrightarrow> v = Num NaN"

definition watch_changed :: "'u client \<Rightarrow> watcher \<Rightarrow> val \<Rightarrow> 'u \<Rightarrow> bool" where
  "watch_changed C w v u =
     (case w_last w of
        None \<Rightarrow> True
      | Some l \<Rightarrow> \<not> strict_eq v l \<and> \<not> (if w_eq w then c_equals C u v l else is_nan v \<and> is_nan l))"

definition fire_watch :: "'u client \<Rightarrow> 'u exec \<Rightarrow> nat \<Rightarrow> nat \<Rightarrow> val \<Rightarrow> ('u, unit) sm" where
  "fire_watch C exec i w v = (\<lambda>s.
     let wt = watches s w;
         s1 = s\<lparr>lastDirtyWatch := Some w\<rparr>;
         (l, u) = (if w_eq wt then c_copy C v (udata s1) else (v, udata s1));
         s2 = s1\<lparr>udata := u, watches := (watches s1)(w := wt\<lparr>w_last := Some l\<rparr>)\<rparr>
     in call_user C exec (ListenerCall (w_fn wt) v (case w_last wt of None \<Rightarrow> v | Some l \<Rightarrow> l) i) s2)"

definition visit_watch :: "'u client \<Rightarrow> 'u exec \<Rightarrow> nat \<Rightarrow> nat \<Rightarrow> bool \<Rightarrow> ('u, visit) sm" where
  "visit_watch C exec i w dirty = (\<lambda>s.
     case c_get C (w_get (watches s w)) i (udata s) of
       (Inl e, u) \<Rightarrow> (Some (Inr (Visited dirty)), exceptionHandler (UserError e) (s\<lparr>udata := u\<rparr>))
     | (Inr v, u) \<Rightarrow>
         (let s1 = s\<lparr>udata := u\<rparr> in
          if watch_changed C (watches s1 w) v (udata s1) then
            s_bind (s_try () (fire_watch C exec i w v)) (\<lambda>_. s_ret (Visited True)) s1
          else if lastDirtyWatch s1 = Some w then (Some (Inr ShortCircuit), s1)
          else (Some (Inr (Visited dirty)), s1)))"

text \<open>\<open>while (watchers.$$digestWatchIndex--)\<close>\<close>

fun watch_loop :: "'u client \<Rightarrow> 'u exec \<Rightarrow> nat \<Rightarrow> nat \<Rightarrow> nat \<Rightarrow> bool \<Rightarrow> ('u, visit) sm" where
  "watch_loop C exec 0 i a dirty s = (None, s)"
| "watch_loop C exec (Suc n) i a dirty s =
     (let k = digestIndex s a; s1 = s\<lparr>digestIndex := (digestIndex s)(a := k - 1)\<rparr> in
      if k = 0 then (Some (Inr (Visited dirty)), s1)
      else if 0 < k \<and> nat (k - 1) < length (w_arrays s1 a) then
        s_bind (visit_watch C exec i (w_arrays s1 a ! nat (k - 1)) dirty) (\<lambda>r. case r of
            Visited d \<Rightarrow> watch_loop C exec n i a d
          | ShortCircuit \<Rightarrow> s_ret ShortCircuit) s1
      else watch_loop C exec n i a dirty s1)"

definition has_watchers :: "'u sstate \<Rightarrow> nat \<Rightarrow> bool" where
  "has_watchers s i \<longleftrightarrow> s_watchersCount (scopes s i) \<noteq> 0"

definition scope_watchers :: "'u client \<Rightarrow> 'u exec \<Rightarrow> nat \<Rightarrow> nat \<Rightarrow> bool \<Rightarrow> ('u, visit) sm" where
  "scope_watchers C exec n i dirty = (\<lambda>s.
     case s_watchers (scopes s i) of
       None \<Rightarrow> (Some (Inr (Visited dirty)), s)
     | Some a \<Rightarrow> watch_loop C exec n i a dirty
         (s\<lparr>digestIndex := (digestIndex s)(a := int (length (w_arrays s a)))\<rparr>))"

text \<open>\<open>traverseScopesLoop\<close>; the result is \<open>dirty\<close>.\<close>

fun traverse_scopes :: "'u client \<Rightarrow> 'u exec \<Rightarrow> nat \<Rightarrow> nat \<Rightarrow> nat \<Rightarrow> bool \<Rightarrow> ('u, bool) sm" where
  "traverse_scopes C exec 0 target i dirty s = (None, s)"
| "traverse_scopes C exec (Suc n) target i dirty s =
     s_bind (scope_watchers C exec n i dirty) (\<lambda>r s'. case r of
         ShortCircuit \<Rightarrow> (Some (Inr False), s')
       | Visited d \<Rightarrow>
           (case next_scope_of has_watchers s' target i of
              Inl e \<Rightarrow> (Some (Inl e), s')
            | Inr None \<Rightarrow> (Some (Inr d), s')
            | Inr (Some j) \<Rightarrow> traverse_scopes C exec n target j d s')) s"

text \<open>The loop over the tasks of \<open>$evalAsync\<close>, which may add tasks.\<close>

fun async_loop :: "'u client \<Rightarrow> 'u exec \<Rightarrow> nat \<Rightarrow> nat \<Rightarrow> ('u, unit) sm" where
  "async_loop C exec 0 pos s = (None, s)"
| "async_loop C exec (Suc n) pos s =
     (if pos < length (asyncQueue s) then
        s_bind (s_try () (call_user C exec (case asyncQueue s ! pos of (i, f) \<Rightarrow> AsyncCall f i)))
          (\<lambda>_ s'. async_loop C exec n (Suc pos) (s'\<lparr>lastDirtyWatch := None\<rparr>)) s
      else (Some (Inr ()), s\<lparr>asyncQueue := []\<rparr>))"

text \<open>The \<open>while dirty\<close> loop; \<open>TTL\<close> is only used in the error.\<close>

fun dirty_loop :: "'u client \<Rightarrow> 'u exec \<Rightarrow> nat \<Rightarrow> nat \<Rightarrow> nat \<Rightarrow> nat \<Rightarrow> ('u, unit) sm" where
  "dirty_loop C exec n TTL target ttl s =
     s_bind (async_loop C exec n 0) (\<lambda>_.
       s_bind (traverse_scopes C exec n target target False) (\<lambda>dirty s'.
         if dirty \<or> asyncQueue s' \<noteq> [] then
           (case ttl of
              0 \<Rightarrow> s_raise (InfDig TTL) (clearPhase s')
            | Suc k \<Rightarrow> dirty_loop C exec n TTL target k s')
         else (Some (Inr ()), s'))) s"

declare dirty_loop.simps [simp del]

fun post_loop :: "'u client \<Rightarrow> 'u exec \<Rightarrow> nat \<Rightarrow> ('u, unit) sm" where
  "post_loop C exec 0 s = (None, s)"
| "post_loop C exec (Suc n) s =
     (if postDigestPos s < length (postDigestQueue s) then
        s_bind (s_try () (call_user C exec (PostCall (postDigestQueue s ! postDigestPos s))))
          (\<lambda>_. post_loop C exec n) (s\<lparr>postDigestPos := Suc (postDigestPos s)\<rparr>)
      else (Some (Inr ()), s\<lparr>postDigestQueue := [], postDigestPos := 0\<rparr>))"

fun flush_loop :: "'u client \<Rightarrow> 'u exec \<Rightarrow> nat \<Rightarrow> ('u, unit) sm" where
  "flush_loop C exec 0 s = (None, s)"
| "flush_loop C exec (Suc n) s =
     (case applyAsyncQueue s of
        (i, e) # q \<Rightarrow> s_bind (s_try () (call_user C exec (ExprCall e i))) (\<lambda>_. flush_loop C exec n)
                        (s\<lparr>applyAsyncQueue := q\<rparr>)
      | [] \<Rightarrow> (Some (Inr ()), s\<lparr>applyAsyncId := None\<rparr>))"

definition cancel_apply :: "'u sstate \<Rightarrow> 'u sstate" where
  "cancel_apply s = s\<lparr>deferreds := filter (\<lambda>(k, d). applyAsyncId s \<noteq> Some k) (deferreds s)\<rparr>"

definition scope_digest :: "'u client \<Rightarrow> nat \<Rightarrow> 'u exec \<Rightarrow> nat \<Rightarrow> nat \<Rightarrow> ('u, unit) sm" where
  "scope_digest C TTL exec n i = (\<lambda>s.
     if disabled s i then (Some (Inr ()), s)
     else
       s_bind (beginPhase Digesting) (\<lambda>_.
       s_bind (\<lambda>s. if i = rootScope \<and> applyAsyncId s \<noteq> None then flush_loop C exec n (cancel_apply s) else (Some (Inr ()), s)) (\<lambda>_.
       s_bind (s_mod (\<lambda>s. s\<lparr>lastDirtyWatch := None\<rparr>)) (\<lambda>_.
       s_bind (dirty_loop C exec n TTL i TTL) (\<lambda>_.
       s_bind (s_mod clearPhase) (\<lambda>_. post_loop C exec n))))) s)"

text \<open>\<open>$apply\<close> around the evaluation \<open>body\<close>.\<close>

definition apply_with :: "'u client \<Rightarrow> nat \<Rightarrow> 'u exec \<Rightarrow> nat \<Rightarrow> ('u, unit) sm \<Rightarrow> ('u, unit) sm" where
  "apply_with C TTL exec n body = (\<lambda>s.
     s_bind (s_try ()
         (s_bind (beginPhase Applying) (\<lambda>_ s1.
            case body s1 of (None, s2) \<Rightarrow> (None, s2) | (Some r, s2) \<Rightarrow> (Some r, clearPhase s2))))
       (\<lambda>_ s1. case scope_digest C TTL exec n rootScope s1 of
           (Some (Inl e), s2) \<Rightarrow> (Some (Inl e), exceptionHandler e s2)
         | r \<Rightarrow> r) s)"

definition scope_apply :: "'u client \<Rightarrow> nat \<Rightarrow> 'u exec \<Rightarrow> nat \<Rightarrow> nat \<Rightarrow> nat \<Rightarrow> ('u, unit) sm" where
  "scope_apply C TTL exec n i expr = (\<lambda>s.
     if disabled s i then (Some (Inr ()), s)
     else apply_with C TTL exec n (call_user C exec (ExprCall expr i)) s)"

text \<open>A function given to \<open>$browser.defer\<close> runs.\<close>

definition run_deferred :: "'u client \<Rightarrow> nat \<Rightarrow> 'u exec \<Rightarrow> nat \<Rightarrow> nat \<Rightarrow> ('u, unit) sm" where
  "run_deferred C TTL exec n k = (\<lambda>s.
     let s1 = s\<lparr>deferreds := filter (\<lambda>(j, d). j \<noteq> k) (deferreds s)\<rparr>
     in case map_of (deferreds s) k of
          None \<Rightarrow> (Some (Inr ()), s)
        | Some FlushAsync \<Rightarrow>
            if asyncQueue s1 \<noteq> [] then scope_digest C TTL exec n rootScope s1 else (Some (Inr ()), s1)
        | Some ApplyFlush \<Rightarrow>
            if disabled s1 rootScope then (Some (Inr ()), s1)
            else apply_with C TTL exec n (flush_loop C exec n) s1)"

subsection \<open>Calls on the service\<close>

definition run_action :: "'u client \<Rightarrow> nat \<Rightarrow> nat \<Rightarrow> 'u exec \<Rightarrow> 'u exec" where
  "run_action C TTL n exec act =
     (case act of
        ANew isolate p i \<Rightarrow> s_bind (scope_new isolate p i) (\<lambda>_. s_ret ())
      | ADestroy i \<Rightarrow> scope_destroy C n exec i
      | AWatch i get fn eq \<Rightarrow> s_mod (scope_watch i get fn eq)
      | AUnwatch w \<Rightarrow> s_mod (scope_unwatch w)
      | AEvalAsync i fn \<Rightarrow> s_mod (scope_evalAsync i fn)
      | APostDigest fn \<Rightarrow> s_mod (scope_postDigest fn)
      | AOn i name f \<Rightarrow> s_mod (scope_on i name (UserListener f))
      | AOff r \<Rightarrow> s_mod (scope_off r)
      | AEmit i name \<Rightarrow> scope_emit C n exec i name
      | ABroadcast i name \<Rightarrow> scope_broadcast C n exec i name
      | AStop ev \<Rightarrow> s_mod (upd_event ev (\<lambda>e. e\<lparr>e_stopped := True\<rparr>))
      | APrevent ev \<Rightarrow> s_mod (upd_event ev (\<lambda>e. e\<lparr>e_prevented := True\<rparr>))
      | ADigest i \<Rightarrow> scope_digest C TTL exec n i
      | AApply i e \<Rightarrow> scope_apply C TTL exec n i e
      | AApplyAsync i e \<Rightarrow> s_mod (scope_applyAsync i e)
      | ADeferred k \<Rightarrow> run_deferred C TTL exec n k)"

primrec exec :: "'u client \<Rightarrow> nat \<Rightarrow> nat \<Rightarrow> 'u exec" where
  "exec C TTL 0 = (\<lambda>act s. (None, s))"
| "exec C TTL (Suc n) = run_action C TTL n (exec C TTL n)"

subsection \<open>Evaluating runs\<close>

text \<open>
  Equations that evaluate a run on a concrete state by simplification, outermost step first: the
  congruence rules keep the simplifier out of continuations that have no state yet.
\<close>

lemma bind_stop: "s = s' \<Longrightarrow> s_bind m f s = s_bind m f s'"
  by simp

lemma try_stop: "s = s' \<Longrightarrow> s_try d m s = s_try d m s'"
  by simp

lemma bind_go:
  "m s = r \<Longrightarrow> s_bind m f s = (case r of (None, s') \<Rightarrow> (None, s') | (Some (Inl e), s') \<Rightarrow> (Some (Inl e), s') |
     (Some (Inr x), s') \<Rightarrow> f x s')"
  by (simp add: s_bind_def)

lemma try_go:
  "m s = r \<Longrightarrow> s_try d m s = (case r of (Some (Inl e), s') \<Rightarrow> (Some (Inr d), exceptionHandler e s') | r \<Rightarrow> r)"
  by (simp add: s_try_def)

lemma exec_step:
  "exec C TTL (Suc n) a s = run_action C TTL n (exec C TTL n) a s"
  "exec C TTL (numeral k) a s = run_action C TTL (pred_numeral k) (exec C TTL (pred_numeral k)) a s"
  by (simp_all add: numeral_eq_Suc)

lemma run_action_simps:
  "run_action C TTL n ex (ANew b p i) s = s_bind (scope_new b p i) (\<lambda>_. s_ret ()) s"
  "run_action C TTL n ex (ADestroy i) s = scope_destroy C n ex i s"
  "run_action C TTL n ex (AWatch i get fn b) s = s_mod (scope_watch i get fn b) s"
  "run_action C TTL n ex (AUnwatch i) s = s_mod (scope_unwatch i) s"
  "run_action C TTL n ex (AEvalAsync i fn) s = s_mod (scope_evalAsync i fn) s"
  "run_action C TTL n ex (APostDigest fn) s = s_mod (scope_postDigest fn) s"
  "run_action C TTL n ex (AOn i name fn) s = s_mod (scope_on i name (UserListener fn)) s"
  "run_action C TTL n ex (AOff i) s = s_mod (scope_off i) s"
  "run_action C TTL n ex (AEmit i name) s = scope_emit C n ex i name s"
  "run_action C TTL n ex (ABroadcast i name) s = scope_broadcast C n ex i name s"
  "run_action C TTL n ex (ADigest i) s = scope_digest C TTL ex n i s"
  "run_action C TTL n ex (AApply i fn) s = scope_apply C TTL ex n i fn s"
  by (simp_all add: run_action_def)

lemmas loop_numerals =
  async_loop.simps(2) [where n = "pred_numeral k" for k, folded numeral_eq_Suc]
  watch_loop.simps(2) [where n = "pred_numeral k" for k, folded numeral_eq_Suc]
  traverse_scopes.simps(2) [where n = "pred_numeral k" for k, folded numeral_eq_Suc]
  broadcast_loop.simps(2) [where n = "pred_numeral k" for k, folded numeral_eq_Suc]
  emit_loop.simps(2) [where n = "pred_numeral k" for k, folded numeral_eq_Suc]
  post_loop.simps(2) [where n = "pred_numeral k" for k, folded numeral_eq_Suc]
  flush_loop.simps(2) [where n = "pred_numeral k" for k, folded numeral_eq_Suc]

lemmas scope_eval =
  bind_go try_go exec_step run_action_simps loop_numerals Let_def
  s_ret_def [THEN fun_cong] s_mod_def [THEN fun_cong] s_raise_def [THEN fun_cong]
  scope_new_def [THEN fun_cong] scope_digest_def [THEN fun_cong] scope_destroy_def [THEN fun_cong]
  scope_broadcast_def [THEN fun_cong] call_user_def [THEN fun_cong] beginPhase_def [THEN fun_cong]
  fire_watch_def [THEN fun_cong] visit_watch_def [THEN fun_cong] scope_watchers_def [THEN fun_cong]
  scope_listeners_def [THEN fun_cong] scope_emit_def [THEN fun_cong]
  scope_watch_def scope_on_def scope_evalAsync_def defer_fn_def clearPhase_def exceptionHandler_def watch_changed_def
  dirty_loop.simps finish_destroy_def unlink_scope_def drop_counts_def decrementListenerCount_def
  incrementWatchersCount_def upd_scope_def new_event_def upd_event_def count_up_def count_down_def
  destroyed_of.simps disabled.simps ancestors.simps has_listeners_def falsy_count_def has_watchers_def
  is_nan_def next_scope_of_def climb.simps s_init_def Scope_def ChildScope_def cleanUpScope_def

end
