(* ===== verification/NgScopeTree.thy ===== *)
theory NgScopeTree
  imports NgScope Links
begin

section \<open>The tree of scopes\<close>

text \<open>
  The pointers between scopes represent a tree: \<open>kids i\<close> is the list of the children of \<open>i\<close>, and
  \<open>A\<close> is the set of the scopes attached to the root. \<open>$new\<close> appends a child, \<open>$destroy\<close> removes a
  subtree, and the pointer-chasing step that \<open>$digest\<close> and \<open>$broadcast\<close> share walks through a
  subtree in depth-first order, entering a scope only when the counter it tests is not zero.
\<close>

abbreviation nexts :: "'u sstate \<Rightarrow> nat \<Rightarrow> nat option" where
  "nexts s \<equiv> (\<lambda>j. s_next (scopes s j))"

abbreviation prevs :: "'u sstate \<Rightarrow> nat \<Rightarrow> nat option" where
  "prevs s \<equiv> (\<lambda>j. s_prev (scopes s j))"

definition node_ok :: "'u sstate \<Rightarrow> nat set \<Rightarrow> (nat \<Rightarrow> nat list) \<Rightarrow> nat \<Rightarrow> bool" where
  "node_ok s A kids i \<longleftrightarrow>
     s_head (scopes s i) = first_of (kids i) None \<and> s_tail (scopes s i) = last_of (kids i) None \<and>
     seg (nexts s) (prevs s) None (kids i) None \<and> distinct (kids i) \<and>
     (\<forall>c \<in> set (kids i). c \<in> A \<and> i < c \<and> s_parent (scopes s c) = Some i)"

definition tree_ok :: "'u sstate \<Rightarrow> nat set \<Rightarrow> (nat \<Rightarrow> nat list) \<Rightarrow> bool" where
  "tree_ok s A kids \<longleftrightarrow>
     rootScope \<in> A \<and> s_parent (scopes s rootScope) = None \<and>
     (\<forall>i \<in> A. i < next_scope s \<and> node_ok s A kids i \<and> (i \<noteq> rootScope \<longrightarrow> (\<exists>p \<in> A. i \<in> set (kids p))))"

lemma tree_okD:
  assumes "tree_ok s A kids" and "i \<in> A"
  shows "node_ok s A kids i" and "i < next_scope s"
  using assms by (auto simp: tree_ok_def)

lemma kid_parent: "tree_ok s A kids \<Longrightarrow> p \<in> A \<Longrightarrow> c \<in> set (kids p) \<Longrightarrow> s_parent (scopes s c) = Some p \<and> p < c \<and> c \<in> A"
  by (auto simp: tree_ok_def node_ok_def)

lemma parent_unique:
  assumes "tree_ok s A kids" and "p \<in> A" and "q \<in> A" and "c \<in> set (kids p)" and "c \<in> set (kids q)"
  shows "p = q"
  using kid_parent [OF assms(1,2,4)] kid_parent [OF assms(1,3,5)] by simp

lemma tree_init: "tree_ok (s_init u) {rootScope} (\<lambda>_. [])"
  by (simp add: tree_ok_def node_ok_def s_init_def Scope_def)

subsection \<open>Depth-first order\<close>

text \<open>\<open>subtree d N kids i\<close>: the scopes of a subtree in order, children of a scope only where \<open>d\<close> holds.\<close>

function subtree :: "(nat \<Rightarrow> bool) \<Rightarrow> nat \<Rightarrow> (nat \<Rightarrow> nat list) \<Rightarrow> nat \<Rightarrow> nat list" where
  "subtree d N kids i =
     i # (if d i then concat (map (subtree d N kids) (filter (\<lambda>c. i < c \<and> c < N) (kids i))) else [])"
  by pat_completeness auto
termination
  by (relation "measure (\<lambda>(d, N, kids, i). N - i)") auto

declare subtree.simps [simp del]

text \<open>\<open>path nxt xs r\<close>: each element of \<open>xs\<close> steps to the one after it, and the last one to \<open>r\<close>.\<close>

fun path :: "(nat \<Rightarrow> serror + nat option) \<Rightarrow> nat list \<Rightarrow> serror + nat option \<Rightarrow> bool" where
  "path nxt [] r = True"
| "path nxt [i] r = (nxt i = r)"
| "path nxt (i # j # xs) r = (nxt i = Inr (Some j) \<and> path nxt (j # xs) r)"

lemma path_append:
  "xs \<noteq> [] \<Longrightarrow> ys \<noteq> [] \<Longrightarrow> path nxt xs (Inr (Some (hd ys))) \<Longrightarrow> path nxt ys r \<Longrightarrow> path nxt (xs @ ys) r"
proof (induction nxt xs "Inr (Some (hd ys)) :: serror + nat option" rule: path.induct)
  case (2 nxt i)
  then show ?case by (cases ys) auto
qed auto

lemma path_Cons: "ys \<noteq> [] \<Longrightarrow> path nxt (i # ys) r = (nxt i = Inr (Some (hd ys)) \<and> path nxt ys r)"
  by (cases ys) auto

text \<open>The step of the traversal is going down, or climbing.\<close>

lemma next_scope_of_climb:
  "next_scope_of d s target i =
     (case (if d s i then s_head (scopes s i) else None) of Some j \<Rightarrow> Inr (Some j) | None \<Rightarrow> climb s target i)"
proof -
  have "climb s target i = Inr (Some j)" if "i \<noteq> target" and "s_next (scopes s i) = Some j" for j
    using that by (subst climb.simps) simp
  then show ?thesis
    by (simp add: next_scope_of_def split: option.split)
qed

lemma climb_cases:
  "climb s target i = (if i = target then Inr None else case (s_next (scopes s i), s_parent (scopes s i)) of
     (Some j, _) \<Rightarrow> Inr (Some j) | (None, None) \<Rightarrow> Inl NullError
   | (None, Some p) \<Rightarrow> if p < i then climb s target p else Inl NullError)"
  by (subst climb.simps) (simp split: option.split)

lemma climb_scopes:
  assumes "scopes s = scopes t"
  shows "climb s target i = climb t target i"
proof (induction i rule: less_induct)
  case (less i)
  show ?case
    unfolding climb_cases [of s target i] climb_cases [of t target i] assms
    using less by (auto split: option.split)
qed

lemma subtree_not_Nil [simp]: "subtree d N kids i \<noteq> []"
  by (subst subtree.simps) simp

lemma hd_subtree [simp]: "hd (subtree d N kids i) = i"
  by (subst subtree.simps) simp

lemma hd_concat_subtree [simp]: "cs \<noteq> [] \<Longrightarrow> hd (concat (map (subtree d N kids) cs)) = hd cs"
  by (cases cs) simp_all

lemma kids_filter:
  "tree_ok s A kids \<Longrightarrow> i \<in> A \<Longrightarrow> filter (\<lambda>c. i < c \<and> c < next_scope s) (kids i) = kids i"
  by (rule filter_True) (auto simp: tree_ok_def node_ok_def)

lemma climb_target [simp]: "climb s t t = Inr None"
  by (subst climb.simps) simp

lemma next_scope_of_cong:
  "scopes s = scopes t \<Longrightarrow> next_scope_of has_watchers s target i = next_scope_of has_watchers t target i"
  using climb_scopes [of s t target i] by (auto simp: next_scope_of_def has_watchers_def split: option.split)

text \<open>
  The walk through the subtrees of consecutive siblings \<open>cs\<close> ends where climbing from their parent
  leads. The induction hypothesis is the walk through the subtree of each of them.
\<close>

lemma siblings_path:
  assumes "seg (nexts s) (prevs s) pr cs None" and "cs \<noteq> []"
    and "\<forall>c \<in> set cs. s_parent (scopes s c) = Some i \<and> i < c \<and> c \<noteq> target"
    and "\<forall>c \<in> set cs. path nxt (subtree d N kids c) (climb s target c)"
  shows "path nxt (concat (map (subtree d N kids) cs)) (climb s target i)"
  using assms
proof (induction cs arbitrary: pr)
  case (Cons c cs)
  show ?case
  proof (cases cs)
    case Nil
    then have "climb s target c = climb s target i"
      using Cons.prems by (subst climb.simps) auto
    then show ?thesis
      using Cons.prems Nil by simp
  next
    case (Cons e es)
    then have "climb s target c = Inr (Some e)"
      using Cons.prems by (subst climb.simps) auto
    then have "path nxt (subtree d N kids c) (Inr (Some (hd (concat (map (subtree d N kids) cs)))))"
      using Cons.prems \<open>cs = e # es\<close> by simp
    moreover have "path nxt (concat (map (subtree d N kids) cs)) (climb s target i)"
      using Cons.IH [of "Some c"] Cons.prems \<open>cs = e # es\<close> by auto
    ultimately show ?thesis
      using \<open>cs = e # es\<close> by (auto intro!: path_append)
  qed
qed simp

text \<open>Every scope below the target, and the target itself.\<close>

lemma subtree_path:
  assumes "tree_ok s A kids" and "i \<in> A" and "target = i \<or> target < i"
  shows "path (next_scope_of d s target) (subtree (d s) (next_scope s) kids i) (climb s target i)"
  using assms(2,3)
proof (induction "next_scope s - i" arbitrary: i rule: less_induct)
  case less
  have ok: "node_ok s A kids i"
    using tree_okD [OF assms(1) less.prems(1)] by simp
  have sub: "subtree (d s) (next_scope s) kids i =
      i # (if d s i then concat (map (subtree (d s) (next_scope s) kids) (kids i)) else [])"
    by (subst subtree.simps) (simp add: kids_filter [OF assms(1) less.prems(1)])
  show ?case
  proof (cases "d s i \<and> kids i \<noteq> []")
    case False
    then show ?thesis
      using ok sub by (auto simp: next_scope_of_climb node_ok_def)
  next
    case True
    have "path (next_scope_of d s target) (subtree (d s) (next_scope s) kids c) (climb s target c)"
      if "c \<in> set (kids i)" for c
      using kid_parent [OF assms(1) less.prems(1) that] tree_okD [OF assms(1)] less.prems
      by (intro less.hyps) (auto intro: diff_less_mono2)
    then have "path (next_scope_of d s target) (concat (map (subtree (d s) (next_scope s) kids) (kids i))) (climb s target i)"
      using ok True less.prems(2) by (intro siblings_path [where pr = None]) (auto simp: node_ok_def)
    moreover have "next_scope_of d s target i = Inr (Some (hd (kids i)))"
      using ok True by (cases "kids i") (auto simp: next_scope_of_climb node_ok_def)
    ultimately show ?thesis
      using True sub by (cases "kids i") (auto simp: path_Cons)
  qed
qed

subsection \<open>New scopes and destroyed scopes\<close>

text \<open>What the counters and the listeners change leaves the pointers alone.\<close>

definition same_links :: "'u sstate \<Rightarrow> 'u sstate \<Rightarrow> bool" where
  "same_links s t \<longleftrightarrow> next_scope t = next_scope s \<and>
     (\<forall>i. s_head (scopes t i) = s_head (scopes s i) \<and> s_tail (scopes t i) = s_tail (scopes s i) \<and>
          s_next (scopes t i) = s_next (scopes s i) \<and> s_prev (scopes t i) = s_prev (scopes s i) \<and>
          s_parent (scopes t i) = s_parent (scopes s i))"

lemma same_links_refl [simp]: "same_links s s"
  by (simp add: same_links_def)

lemma same_links_trans: "same_links s t \<Longrightarrow> same_links t u \<Longrightarrow> same_links s u"
  by (simp add: same_links_def)

lemma same_links_upd [intro]:
  "(\<And>sc. s_head (f sc) = s_head sc \<and> s_tail (f sc) = s_tail sc \<and> s_next (f sc) = s_next sc \<and>
     s_prev (f sc) = s_prev sc \<and> s_parent (f sc) = s_parent sc) \<Longrightarrow> same_links s (upd_scope i f s)"
  by (simp add: same_links_def upd_scope_def)

lemma same_links_fold:
  "(\<And>x t. same_links t (f x t)) \<Longrightarrow> same_links s (fold f xs s)"
  by (induction xs arbitrary: s) (auto intro: same_links_trans)

lemma same_links_tree: "same_links s t \<Longrightarrow> tree_ok t A kids = tree_ok s A kids"
  by (simp add: tree_ok_def node_ok_def same_links_def)

lemma same_links_count: "same_links s (incrementWatchersCount i k s)"
  unfolding incrementWatchersCount_def by (rule same_links_fold) auto

lemma same_links_drop: "same_links s (decrementListenerCount i k name s)"
  unfolding decrementListenerCount_def
  by (rule same_links_fold) (auto simp: count_down_def Let_def)

lemma same_links_drops: "same_links s (drop_counts i s)"
  unfolding drop_counts_def
  by (rule same_links_fold) (auto intro: same_links_drop split: option.split)

lemma same_links_on:
  fixes s :: "'u sstate"
  shows "same_links s (scope_on i name l s)"
proof -
  have up: "same_links s (fold (\<lambda>j. upd_scope j (count_up name)) js s)" for js and s :: "'u sstate"
    by (rule same_links_fold) (auto simp: count_up_def Let_def)
  define s1 where "s1 = (upd_scope i (\<lambda>sc. sc\<lparr>s_listeners := (s_listeners sc)(name := Some (next_larray s))\<rparr>) s)
    \<lparr>l_arrays := (l_arrays s)(next_larray s := []), next_larray := Suc (next_larray s)\<rparr>"
  have add: "same_links s (let s2 = t\<lparr>l_arrays := (l_arrays t)(a := l_arrays t a @ [Some l])\<rparr>;
            s3 = fold (\<lambda>j. upd_scope j (count_up name)) (ancestors s2 i) s2
        in s3\<lparr>regs := (regs s3)(next_reg s3 := \<lparr>r_scope = i, r_name = name, r_array = a, r_listener = l\<rparr>),
              next_reg := Suc (next_reg s3)\<rparr>)" if "same_links s t" for a and t :: "'u sstate"
    using that up [of "t\<lparr>l_arrays := (l_arrays t)(a := l_arrays t a @ [Some l])\<rparr>"
        "ancestors (t\<lparr>l_arrays := (l_arrays t)(a := l_arrays t a @ [Some l])\<rparr>) i"]
    by (simp add: same_links_def Let_def)
  have "same_links s s1"
    by (simp add: s1_def same_links_def upd_scope_def)
  then show ?thesis
    using add [of s] add [of s1 "next_larray s"]
    by (auto simp: scope_on_def s1_def [symmetric] simp del: Let_def split: option.split)
qed

text \<open>\<open>$new\<close>\<close>

theorem new_attaches:
  assumes "tree_ok s A kids" and "p \<in> A" and "p = (case parent_arg of Some q \<Rightarrow> q | None \<Rightarrow> this)"
  shows "\<exists>s'. scope_new isolate parent_arg this s = (Some (Inr (next_scope s)), s') \<and> next_scope s' = Suc (next_scope s) \<and>
    tree_ok s' (insert (next_scope s) A) (kids(p := kids p @ [next_scope s], next_scope s := []))"
proof -
  define c where "c = next_scope s"
  have node: "node_ok s A kids p" and fresh: "c \<notin> A" "p < c" "p \<noteq> c"
    using tree_okD [OF assms(1)] assms(2) by (auto simp: c_def)
  have new: "\<forall>i \<in> A. c \<notin> set (kids i)"
    using kid_parent [OF assms(1)] fresh by blast
  define obj where "obj = (if isolate then Scope else ChildScope this)
    \<lparr>s_parent := Some p, s_prev := s_tail (scopes s p)\<rparr>"
  define s1 where "s1 = s\<lparr>scopes := (scopes s)(c := obj), next_scope := Suc c\<rparr>"
  define s2 where "s2 = (case s_tail (scopes s p) of
      Some t \<Rightarrow> upd_scope p (\<lambda>sc. sc\<lparr>s_tail := Some c\<rparr>) (upd_scope t (\<lambda>sc. sc\<lparr>s_next := Some c\<rparr>) s1)
    | None \<Rightarrow> upd_scope p (\<lambda>sc. sc\<lparr>s_head := Some c, s_tail := Some c\<rparr>) s1)"
  define s3 where "s3 = (if isolate \<or> p \<noteq> this then scope_on c (J ''$destroy'') DestroyChildScope s2 else s2)"
  have tail: "s_tail (scopes s p) = last_of (kids p) None" "s_head (scopes s p) = first_of (kids p) None"
    using node by (simp_all add: node_ok_def)
  have run: "scope_new isolate parent_arg this s = (Some (Inr c), s3)"
  proof (cases "last_of (kids p) None")
    case None
    then have "kids p = []"
      by (simp add: last_of_def split: if_splits)
    then show ?thesis
      using fresh tail None unfolding scope_new_def Let_def assms(3) [symmetric] c_def [symmetric]
      by (auto simp: s3_def s2_def s1_def obj_def)
  next
    case (Some t)
    then obtain h where "first_of (kids p) None = Some h"
      by (cases "kids p") auto
    then show ?thesis
      using fresh tail Some unfolding scope_new_def Let_def assms(3) [symmetric] c_def [symmetric]
      by (auto simp: s3_def s2_def s1_def obj_def)
  qed
  have t: "t \<noteq> c \<and> t \<in> A \<and> t \<noteq> p" if "last_of (kids p) None = Some t" for t
    using first_last_set(2) [OF that] kid_parent [OF assms(1,2)] fresh by auto
  have fields: "nexts s2 = (relink (last_of (kids p) None) (Some c) (nexts s))(c := None)"
    "prevs s2 = (prevs s)(c := last_of (kids p) None)" "next_scope s2 = Suc c"
    "s_parent (scopes s2 c) = Some p" "\<And>i. i \<noteq> c \<Longrightarrow> s_parent (scopes s2 i) = s_parent (scopes s i)"
    "s_head (scopes s2 c) = None" "s_tail (scopes s2 c) = None"
    "\<And>i. i \<noteq> c \<Longrightarrow> s_tail (scopes s2 i) = (if i = p then Some c else s_tail (scopes s i))"
    using fresh tail t
    by (auto simp: s2_def s1_def obj_def upd_scope_def relink_def Scope_def ChildScope_def fun_eq_iff split: option.split)
  have head: "s_head (scopes s2 i) = (if i = p then first_of (kids p @ [c]) None else s_head (scopes s i))" if "i \<noteq> c" for i
    using that fresh tail t
    by (cases "kids p"; cases "last_of (kids p) None")
       (auto simp: s2_def s1_def upd_scope_def last_of_def split: if_splits)
  have "tree_ok s2 (insert c A) (kids(p := kids p @ [c], c := []))"
    unfolding tree_ok_def
  proof (intro conjI ballI)
    show "rootScope \<in> insert c A" "s_parent (scopes s2 rootScope) = None"
      using assms(1) fresh by (auto simp: tree_ok_def fields)
  next
    fix i assume i: "i \<in> insert c A"
    show "i < next_scope s2"
      using i tree_okD(2) [OF assms(1)] by (auto simp: fields c_def less_Suc_eq)
    show "i \<noteq> rootScope \<longrightarrow> (\<exists>q \<in> insert c A. i \<in> set ((kids(p := kids p @ [c], c := [])) q))"
      using i assms(1,2) fresh by (auto simp: tree_ok_def)
    show "node_ok s2 (insert c A) (kids(p := kids p @ [c], c := [])) i"
    proof (cases "i = c")
      case True
      then show ?thesis by (simp add: node_ok_def fields)
    next
      case False
      then have iA: "i \<in> A" using i by simp
      have ok: "node_ok s A kids i" by (rule tree_okD(1) [OF assms(1) iA])
      have kc: "c \<notin> set (kids i)" using new iA by simp
      then have par: "\<forall>k \<in> set (kids i). s_parent (scopes s2 k) = s_parent (scopes s k)"
        using fields(5) by metis
      show ?thesis
      proof (cases "i = p")
        case True
        then show ?thesis
          using ok kc fresh par seg_snoc [of "kids p" c "nexts s" "prevs s"] tail
          by (auto simp: node_ok_def fields head)
      next
        case False
        then have "\<forall>t. last_of (kids p) None = Some t \<longrightarrow> t \<notin> set (kids i)"
          using parent_unique [OF assms(1,2) iA] first_last_set(2) by metis
        then show ?thesis
          using ok kc False par \<open>i \<noteq> c\<close> by (auto simp: node_ok_def fields head)
      qed
    qed
  qed
  moreover have links: "same_links s2 s3"
    by (simp add: s3_def same_links_on)
  ultimately have "tree_ok s3 (insert c A) (kids(p := kids p @ [c], c := []))"
    by (simp add: same_links_tree)
  moreover have "next_scope s3 = Suc c"
    using links fields(3) by (simp add: same_links_def)
  ultimately show ?thesis
    using run by (auto simp: c_def)
qed

text \<open>
  \<open>$destroy\<close>, after its event: the scope leaves the list of its parent, and the tree keeps what is
  not below it.
\<close>

inductive below :: "(nat \<Rightarrow> nat list) \<Rightarrow> nat \<Rightarrow> nat \<Rightarrow> bool" for kids i where
  below_refl: "below kids i i"
| below_step: "below kids i j \<Longrightarrow> c \<in> set (kids j) \<Longrightarrow> below kids i c"

lemma below_attached:
  assumes "tree_ok s A kids" and "below kids i j" and "i \<in> A"
  shows "j \<in> A \<and> i \<le> j"
  using assms(2)
proof induction
  case (below_step j c)
  then show ?case using kid_parent [OF assms(1), of j c] by simp
qed (simp add: assms(3))

lemma unlink_fields:
  assumes "s_parent (scopes s i) = Some p" and "p \<noteq> i"
    and "s_next (scopes s i) \<noteq> Some i" and "s_prev (scopes s i) \<noteq> Some i"
  shows "nexts (unlink_scope i (Some p) s) = relink (s_prev (scopes s i)) (s_next (scopes s i)) (nexts s)"
    and "prevs (unlink_scope i (Some p) s) = relink (s_next (scopes s i)) (s_prev (scopes s i)) (prevs s)"
    and "s_head (scopes (unlink_scope i (Some p) s) j) =
           (if j = p \<and> s_head (scopes s p) = Some i then s_next (scopes s i) else s_head (scopes s j))"
    and "s_tail (scopes (unlink_scope i (Some p) s) j) =
           (if j = p \<and> s_tail (scopes s p) = Some i then s_prev (scopes s i) else s_tail (scopes s j))"
    and "s_parent (scopes (unlink_scope i (Some p) s) j) = s_parent (scopes s j)"
    and "next_scope (unlink_scope i (Some p) s) = next_scope s"
  using assms
  by (simp_all add: unlink_scope_def Let_def upd_scope_def relink_def fun_eq_iff split: option.split)

theorem destroy_detaches:
  assumes "tree_ok s A kids" and "i \<in> A" and "i \<noteq> rootScope"
  defines "A' \<equiv> {j \<in> A. \<not> below kids i j}"
  shows "\<exists>p \<in> A'. i \<in> set (kids p) \<and>
    tree_ok (finish_destroy i (s_parent (scopes s i)) s) A' (kids(p := remove1 i (kids p)))"
proof -
  obtain p where p: "p \<in> A" "i \<in> set (kids p)"
    using assms(1-3) by (auto simp: tree_ok_def)
  have par: "s_parent (scopes s i) = Some p" "p < i"
    using kid_parent [OF assms(1) p] by auto
  have pA': "p \<in> A'"
    using p(1) par below_attached [OF assms(1) _ assms(2)] by (fastforce simp: A'_def)
  define s1 where "s1 = drop_counts i (incrementWatchersCount i
      (- s_watchersCount (scopes (upd_scope i (\<lambda>sc. sc\<lparr>s_destroyed := Some True\<rparr>) s) i))
      (upd_scope i (\<lambda>sc. sc\<lparr>s_destroyed := Some True\<rparr>) s))"
  have links: "same_links s s1"
    unfolding s1_def by (rule same_links_trans [OF _ same_links_trans [OF same_links_count same_links_drops]]) auto
  then have ok1: "tree_ok s1 A kids" and par1: "s_parent (scopes s1 i) = Some p"
    using assms(1) par by (auto simp: same_links_tree) (simp add: same_links_def)
  obtain xs ys where kp: "kids p = xs @ i # ys"
    using p(2) by (meson split_list)
  have nodep: "node_ok s1 A kids p"
    by (rule tree_okD(1) [OF ok1 p(1)])
  then have d: "distinct (xs @ i # ys)" and seg: "seg (nexts s1) (prevs s1) None (xs @ i # ys) None"
    by (simp_all add: node_ok_def kp)
  have at_i: "s_prev (scopes s1 i) = last_of xs None" "s_next (scopes s1 i) = first_of ys None"
    using seg_at [OF seg] by simp_all
  have self: "s_next (scopes s1 i) \<noteq> Some i" "s_prev (scopes s1 i) \<noteq> Some i"
    using at_i d first_last_set(1) [of ys i] first_last_set(2) [of xs i] by auto
  note f = unlink_fields [OF par1 _ self]
  define s2 where "s2 = unlink_scope i (Some p) s1"
  define s3 where "s3 = upd_scope i (\<lambda>sc. cleanUpScope (sc\<lparr>s_disabled := True, s_listeners := Map.empty, s_next := None\<rparr>)) s2"
  have fin: "finish_destroy i (s_parent (scopes s i)) s = s3"
    by (simp add: finish_destroy_def s3_def s2_def s1_def par Let_def)
  have rm: "remove1 i (kids p) = xs @ ys"
    using d by (simp add: kp remove1_append)
  have g: "\<And>j. j \<noteq> i \<Longrightarrow> s_next (scopes s3 j) = nexts s2 j" "\<And>j. j \<noteq> i \<Longrightarrow> s_prev (scopes s3 j) = prevs s2 j"
    "\<And>j. j \<noteq> i \<Longrightarrow> s_head (scopes s3 j) = s_head (scopes s2 j)" "\<And>j. j \<noteq> i \<Longrightarrow> s_tail (scopes s3 j) = s_tail (scopes s2 j)"
    "\<And>j. j \<noteq> i \<Longrightarrow> s_parent (scopes s3 j) = s_parent (scopes s2 j)" "next_scope s3 = next_scope s2"
    by (simp_all add: s3_def upd_scope_def)
  have segeq: "seg (nexts s3) (prevs s3) pr es nx = seg (nexts s2) (prevs s2) pr es nx" if "i \<notin> set es" for pr es nx
    using that g(1,2) by (induction es arbitrary: pr) (auto simp: split: list.splits)
  have "tree_ok s3 A' (kids(p := remove1 i (kids p)))"
    unfolding tree_ok_def
  proof (intro conjI ballI)
    show "rootScope \<in> A'" 
      using ok1 below_attached [OF assms(1) _ assms(2)] assms(3) by (fastforce simp: A'_def tree_ok_def)
    show "s_parent (scopes s3 rootScope) = None"
      using ok1 assms(3) par f(5) by (simp add: g s2_def tree_ok_def)
  next
    fix j assume j: "j \<in> A'"
    then have jA: "j \<in> A" and nb: "\<not> below kids i j" and ji: "j \<noteq> i"
      by (auto simp: A'_def intro: below_refl)
    have ok: "node_ok s1 A kids j" by (rule tree_okD(1) [OF ok1 jA])
    show "j < next_scope s3"
      using tree_okD(2) [OF ok1 jA] par f(6) by (simp add: g s2_def)
    show "j \<noteq> rootScope \<longrightarrow> (\<exists>q \<in> A'. j \<in> set ((kids(p := remove1 i (kids p))) q))"
    proof
      assume "j \<noteq> rootScope"
      then obtain q where q: "q \<in> A" "j \<in> set (kids q)"
        using ok1 jA by (auto simp: tree_ok_def)
      then have "q \<in> A'"
        using nb by (auto simp: A'_def intro: below_step)
      then show "\<exists>q \<in> A'. j \<in> set ((kids(p := remove1 i (kids p))) q)"
        using q ji by (intro bexI [of _ q]) auto
    qed
    have kids_in: "c \<in> A' \<and> j < c \<and> c \<noteq> i \<and> s_parent (scopes s3 c) = Some j" if "c \<in> set (kids j)" "c \<noteq> i" for c
    proof -
      have "\<not> below kids i c"
      proof
        assume "below kids i c"
        then show False
        proof cases
          case (below_step q)
          then have "q = j"
            using parent_unique [OF assms(1) _ jA below_step(2) that(1)] below_attached [OF assms(1) below_step(1) assms(2)] by simp
          then show ?thesis using nb below_step(1) by simp
        qed (use that in simp)
      qed
      then show ?thesis
        using kid_parent [OF ok1 jA that(1)] that(2) par f(5) by (simp add: A'_def g s2_def)
    qed
    show "node_ok s3 A' (kids(p := remove1 i (kids p))) j"
    proof (cases "j = p")
      case True
      have "seg (nexts s3) (prevs s3) None (xs @ ys) None"
        using seg_unlink [OF d seg] d f(1,2) par by (simp add: segeq s2_def at_i)
      moreover have "s_head (scopes s3 p) = first_of (xs @ ys) None" "s_tail (scopes s3 p) = last_of (xs @ ys) None"
        using nodep d par f(3,4)
        by (cases xs; cases ys rule: rev_cases; auto simp: g s2_def node_ok_def kp at_i first_of_append last_of_append last_of_Cons)+
      moreover have "\<forall>c \<in> set (xs @ ys). c \<in> A' \<and> p < c \<and> s_parent (scopes s3 c) = Some p"
        using kids_in d by (auto simp: True kp)
      ultimately show ?thesis
        using d True rm by (simp add: node_ok_def)
    next
      case False
      have "i \<notin> set (kids j)"
        using parent_unique [OF assms(1) p(1) jA p(2)] False by blast
      moreover have "t \<notin> set (kids j)" if "t \<in> set (kids p)" for t
        using parent_unique [OF assms(1) p(1) jA that] False by blast
      then have "(\<forall>t. last_of xs None = Some t \<longrightarrow> t \<notin> set (kids j))" "(\<forall>t. first_of ys None = Some t \<longrightarrow> t \<notin> set (kids j))"
        using first_last_set(1) [of ys] first_last_set(2) [of xs] by (auto simp: kp)
      ultimately have "seg (nexts s3) (prevs s3) None (kids j) None"
        using ok f(1,2) par by (simp add: segeq s2_def at_i node_ok_def)
      moreover have "\<forall>c \<in> set (kids j). c \<in> A' \<and> j < c \<and> s_parent (scopes s3 c) = Some j"
        using kids_in \<open>i \<notin> set (kids j)\<close> by metis
      moreover have "s_head (scopes s3 j) = s_head (scopes s1 j)" "s_tail (scopes s3 j) = s_tail (scopes s1 j)"
        using False ji par f(3,4) by (simp_all add: g s2_def)
      ultimately show ?thesis
        using ok False by (simp add: node_ok_def)
    qed
  qed
  then show ?thesis
    using pA' p(2) unfolding fin by blast
qed

subsection \<open>A listener that destroys its own scope\<close>

lemma destroyed_links:
  "s_head (scopes (finish_destroy i p s) i) = None" "s_next (scopes (finish_destroy i p s) i) = None"
  "s_parent (scopes (finish_destroy i p s) i) = None"
  by (simp_all add: finish_destroy_def Let_def upd_scope_def cleanUpScope_def)

lemma destroyed_stuck:
  assumes "s_head (scopes s i) = None" and "s_next (scopes s i) = None" and "s_parent (scopes s i) = None"
    and "i \<noteq> target"
  shows "next_scope_of d s target i = Inl NullError"
  using assms by (simp add: next_scope_of_climb) (subst climb.simps, simp)

end
