(* ===== verification/NgDigest.thy ===== *)
theory NgDigest
  imports NgScopeTree
begin

section \<open>Properties of scopes and of the digest\<close>

subsection \<open>The tree\<close>

text \<open>
  The pointer-chasing step that \<open>$digest\<close> and \<open>$broadcast\<close> share is a depth-first traversal:
  started at any scope of a well-formed tree it goes through exactly the scopes of its subtree, each
  once, parents before children and siblings in the order they were made, skips what is below a scope
  whose counter is zero, never dereferences \<open>null\<close>, and stops.
\<close>

theorem traversal_is_depth_first:
  assumes "tree_ok s A kids" and "target \<in> A"
  shows "path (next_scope_of d s target) (subtree (d s) (next_scope s) kids target) (Inr None)"
  using subtree_path [OF assms, of target d] by simp

definition demo_tree :: "unit sstate" where
  "demo_tree = (s_init ())\<lparr>next_scope := 3, scopes := (\<lambda>i.
     if i = 0 then Scope\<lparr>s_head := Some 1, s_tail := Some 2\<rparr>
     else if i = 1 then (ChildScope 0)\<lparr>s_parent := Some 0, s_next := Some 2\<rparr>
     else (ChildScope 0)\<lparr>s_parent := Some 0, s_prev := Some 1\<rparr>)\<rparr>"

lemma demo_tree_ok: "tree_ok demo_tree {0, 1, 2} (\<lambda>i. if i = 0 then [1, 2] else [])"
  by (simp add: tree_ok_def node_ok_def demo_tree_def Scope_def ChildScope_def)

lemma demo_kids: "(\<lambda>i. if i = 0 then [1, 2] else [])(0 := [2]) = (\<lambda>i. if i = (0 :: nat) then [2 :: nat] else [])"
  by auto

theorem traversal_is_depth_first_witness:
  "path (next_scope_of (\<lambda>_ _. True) demo_tree 0) [0, 1, 2] (Inr None)"
proof -
  have "subtree (\<lambda>_. True) 3 (\<lambda>i. if i = 0 then [1, 2] else []) 0 = [0, 1, 2]"
    by (simp add: subtree.simps)
  then show ?thesis
    using traversal_is_depth_first [OF demo_tree_ok, of 0 "\<lambda>_ _. True"] by (simp add: demo_tree_def)
qed

text \<open>
  C19. \<open>$new\<close>, on any scope of the tree and for any choice of prototype and parent, succeeds, and
  makes the new scope the last child of the parent; the rest of the tree is as it was.
\<close>

theorem new_scope_is_last_child:
  assumes "tree_ok s A kids" and "p \<in> A" and "p = (case parent_arg of Some q \<Rightarrow> q | None \<Rightarrow> this)"
  shows "\<exists>s'. scope_new isolate parent_arg this s = (Some (Inr (next_scope s)), s') \<and>
    tree_ok s' (insert (next_scope s) A) (kids(p := kids p @ [next_scope s], next_scope s := []))"
  using new_attaches [OF assms] by blast

theorem new_scope_is_last_child_witness:
  "\<exists>s'. scope_new True (Some 2) 1 demo_tree = (Some (Inr 3), s') \<and>
     tree_ok s' {0, 1, 2, 3} ((\<lambda>i. if i = 0 then [1, 2] else [])(2 := [3], 3 := []))"
  using new_scope_is_last_child [OF demo_tree_ok, where p = 2 and parent_arg = "Some 2" and this = 1 and isolate = True]
  by (auto simp: demo_tree_def insert_commute)

text \<open>
  C20. What \<open>$destroy\<close> does to the pointers detaches the scope and everything below it: the scope
  leaves the list of children of its parent, all other lists stay, and the rest is a well-formed tree.
\<close>

theorem destroy_detaches_subtree:
  assumes "tree_ok s A kids" and "i \<in> A" and "i \<noteq> rootScope"
  shows "\<exists>p \<in> A. i \<in> set (kids p) \<and>
    tree_ok (finish_destroy i (s_parent (scopes s i)) s) {j \<in> A. \<not> below kids i j} (kids(p := remove1 i (kids p)))"
  using destroy_detaches [OF assms] by blast

theorem destroy_detaches_subtree_witness:
  "\<exists>A. tree_ok (finish_destroy 1 (Some 0) demo_tree) A (\<lambda>i. if i = 0 then [2] else [])"
proof -
  have "\<exists>p \<in> {0, 1, 2}. 1 \<in> set (if p = 0 then [1, 2] else []) \<and>
      tree_ok (finish_destroy 1 (s_parent (scopes demo_tree 1)) demo_tree) {j \<in> {0, 1, 2}. \<not> below (\<lambda>i. if i = 0 then [1, 2] else []) 1 j}
        ((\<lambda>i. if i = 0 then [1, 2] else [])(p := remove1 1 (if p = 0 then [1, 2] else [])))"
    using destroy_detaches_subtree [OF demo_tree_ok, of 1] by simp
  moreover have "s_parent (scopes demo_tree 1) = Some 0"
    by (simp add: demo_tree_def)
  ultimately have "\<exists>A. tree_ok (finish_destroy 1 (Some 0) demo_tree) A ((\<lambda>i. if i = 0 then [1, 2] else [])(0 := [2]))"
    by (auto split: if_splits)
  then show ?thesis
    by (simp only: demo_kids)
qed

subsection \<open>What breaks a digest\<close>

text \<open>A client with one watch expression, whose listener destroys the scope that is being digested.\<close>

definition suicidal :: "unit client" where
  "suicidal = \<lparr>c_get = (\<lambda>g i u. (Inr (Num (Fin 0)), u)),
     c_run = (\<lambda>c u. (u, case c of ListenerCall f v l i \<Rightarrow> [ADestroy i] | _ \<Rightarrow> [], None)),
     c_equals = (\<lambda>u v w. False), c_copy = (\<lambda>v u. (v, u))\<rparr>"

lemma suicidal_simps [simp]:
  "c_get suicidal g i u = (Inr (Num (Fin 0)), u)"
  "c_run suicidal (ListenerCall f v l i) u = (u, [ADestroy i], None)"
  "c_copy suicidal v u = (v, u)"
  by (simp_all add: suicidal_def)


text \<open>A client whose asynchronous task schedules itself again.\<close>

definition restless :: "unit client" where
  "restless = suicidal\<lparr>c_run := (\<lambda>c u. (u, case c of AsyncCall f i \<Rightarrow> [AEvalAsync i f] | _ \<Rightarrow> [], None))\<rparr>"

lemma disabled_scopes: "scopes s = scopes t \<Longrightarrow> disabled s i = disabled t i"
proof (induction i rule: less_induct)
  case (less i)
  then show ?case
    by (subst (1 2) disabled.simps) (auto split: option.split)
qed

lemma restless_async:
  "pos < length (asyncQueue s) \<Longrightarrow> set (asyncQueue s) \<subseteq> {(0, 0)} \<Longrightarrow> \<not> disabled s 0 \<Longrightarrow>
   fst (async_loop restless (exec restless TTL m) n pos s) = None"
proof (induction n arbitrary: pos s)
  case (Suc n)
  have task: "asyncQueue s ! pos = (0, 0)"
    using Suc.prems(1,2) nth_mem by blast
  show ?case
  proof (cases m)
    case 0
    then show ?thesis
      using Suc.prems task by (simp add: s_bind_def s_try_def call_user_def restless_def)
  next
    case (Suc k)
    define s1 where "s1 = scope_evalAsync 0 0 s"
    have u: "t\<lparr>udata := u\<rparr> = t" for u and t :: "unit sstate"
      by (rule sstate.equality) simp_all
    have "asyncQueue (s1\<lparr>lastDirtyWatch := None\<rparr>) = asyncQueue s @ [(0, 0)]" "scopes s1 = scopes s"
      using Suc.prems(3) by (auto simp: s1_def scope_evalAsync_def defer_fn_def Let_def)
    moreover have "disabled (s1\<lparr>lastDirtyWatch := None\<rparr>) 0 = disabled s 0"
      using calculation(2) by (intro disabled_scopes) simp
    moreover have "call_user restless (exec restless TTL m) (AsyncCall 0 0) s = (Some (Inr ()), s1)"
      by (simp add: call_user_def restless_def s_bind_def Suc run_action_def s_mod_def s_ret_def s1_def u)
    ultimately show ?thesis
      using Suc.IH [of "Suc pos" "s1\<lparr>lastDirtyWatch := None\<rparr>"] Suc.prems task
      by (simp add: s_bind_def s_try_def)
  qed
qed simp

text \<open>
  C22. The limit on the iterations of a digest does not bound tasks that schedule themselves: with
  such a task \<open>$digest\<close> never returns, whatever the \<open>TTL\<close> (no amount of fuel is enough), because the
  loop over the queue follows its growing length inside one iteration.
\<close>

theorem recursive_evalAsync_never_returns:
  "fst (run_actions (exec restless TTL n) [AEvalAsync 0 0, ADigest 0] (s_init ())) = None"
proof (cases n)
  case (Suc m)
  define s where "s = scope_evalAsync 0 0 (s_init ())"
  have s: "asyncQueue s = [(0, 0)]" "scopes s = (\<lambda>_. Scope)" "phase_of s = None" "applyAsyncId s = None"
    by (simp_all add: s_def scope_evalAsync_def disabled.simps s_init_def Scope_def defer_fn_def)
  define t where "t = s\<lparr>phase_of := Some Digesting, lastDirtyWatch := None\<rparr>"
  have "disabled s 0 = False" "disabled t 0 = False"
    using s by (simp_all add: disabled.simps Scope_def t_def)
  moreover have "fst (async_loop restless (exec restless TTL m) m 0 t) = None"
    using s calculation by (intro restless_async) (auto simp: t_def)
  then obtain y where "async_loop restless (exec restless TTL m) m 0 t = (None, y)"
    by (metis prod.collapse)
  ultimately have "scope_digest restless TTL (exec restless TTL m) m 0 s = (None, y)"
    using s by (simp add: scope_digest_def s_bind_def beginPhase_def s_mod_def dirty_loop.simps flip: t_def)
  then show ?thesis
    by (simp add: Suc s_bind_def run_action_def s_mod_def flip: s_def)
qed (simp add: s_bind_def)

end
