(* ===== verification/NgStable.thy ===== *)
theory NgStable
  imports NgDigest
begin

section \<open>A digest that returns leaves the application stable\<close>

text \<open>
  The digest stops early, at the watcher that was dirty last, without looking at the watchers after
  it. This theory shows that this is sound: for a client whose watch expressions are pure and whose
  functions change data and schedule tasks, every watcher of the digested subtree is clean when
  \<open>$digest\<close> returns. The invariant \<open>settling\<close> says which watchers are known to be clean at each
  point of a pass, in terms of the visited sites \<open>ps\<close> and the remaining ones \<open>rs\<close>.
\<close>

definition tame :: "'u client \<Rightarrow> bool" where
  "tame C \<longleftrightarrow> (\<forall>g i u. snd (c_get C g i u) = u) \<and>
     (\<forall>c u. \<forall>a \<in> set (fst (snd (c_run C c u))). \<exists>i f. a = AEvalAsync i f) \<and>
     (\<forall>v u. snd (c_copy C v u) = u)"

text \<open>A watcher of a scope is clean when its expression throws or has not changed.\<close>

definition clean :: "'u client \<Rightarrow> 'u sstate \<Rightarrow> nat \<times> nat \<Rightarrow> bool" where
  "clean C s x = (case fst (c_get C (w_get (watches s (snd x))) (fst x) (udata s)) of
     Inl e \<Rightarrow> True | Inr v \<Rightarrow> \<not> watch_changed C (watches s (snd x)) v (udata s))"

definition frame :: "'u sstate \<Rightarrow> 'u sstate \<Rightarrow> bool" where
  "frame s t \<longleftrightarrow> scopes t = scopes s \<and> next_scope t = next_scope s \<and> w_arrays t = w_arrays s \<and>
     digestIndex t = digestIndex s \<and> postDigestQueue t = postDigestQueue s \<and> postDigestPos t = postDigestPos s \<and>
     applyAsyncId t = applyAsyncId s"

lemma frame_refl [simp]: "frame s s"
  by (simp add: frame_def)

lemma frame_trans: "frame s t \<Longrightarrow> frame t u \<Longrightarrow> frame s u"
  by (simp add: frame_def)

text \<open>What running a function of a tame client changes.\<close>

lemma run_tame:
  assumes "\<forall>a \<in> set acts. \<exists>i f. a = AEvalAsync i f"
    and "run_actions (exec C TTL m) acts s = (r, s')"
  shows "frame s s' \<and> watches s' = watches s \<and> lastDirtyWatch s' = lastDirtyWatch s \<and> udata s' = udata s"
  using assms
proof (induction acts arbitrary: s)
  case (Cons a as)
  then obtain i f where a: "a = AEvalAsync i f"
    by auto
  show ?case
  proof (cases m)
    case 0
    then show ?thesis
      using Cons.prems by (simp add: s_bind_def)
  next
    case (Suc k)
    have "frame s (scope_evalAsync i f s) \<and> watches (scope_evalAsync i f s) = watches s \<and>
        lastDirtyWatch (scope_evalAsync i f s) = lastDirtyWatch s \<and> udata (scope_evalAsync i f s) = udata s"
      by (simp add: scope_evalAsync_def defer_fn_def frame_def Let_def)
    then show ?thesis
      using Cons.IH [of "scope_evalAsync i f s"] Cons.prems frame_trans
      by (auto simp: s_bind_def Suc run_action_def s_mod_def a)
  qed
qed (simp add: s_ret_def)

lemma call_tame:
  assumes "tame C" and "call_user C (exec C TTL m) c s = (r, s')"
  shows "frame s s' \<and> watches s' = watches s \<and> lastDirtyWatch s' = lastDirtyWatch s"
proof -
  obtain u acts thrown where run: "c_run C c (udata s) = (u, acts, thrown)"
    using prod_cases3 by blast
  have acts: "\<forall>a \<in> set acts. \<exists>i f. a = AEvalAsync i f"
    using assms(1) run unfolding tame_def by (metis fst_conv snd_conv)
  obtain r1 s1 where r1: "run_actions (exec C TTL m) acts (s\<lparr>udata := u\<rparr>) = (r1, s1)"
    by fastforce
  have "s' = s1"
    using assms(2) run r1 by (auto simp: call_user_def s_bind_def s_raise_def s_ret_def split: option.splits sum.splits)
  then show ?thesis
    using run_tame [OF acts r1] by (simp add: frame_def)
qed

lemma try_tame:
  assumes "tame C" and "s_try () (call_user C (exec C TTL m) c) s = (r, s')"
  shows "frame s s' \<and> watches s' = watches s \<and> lastDirtyWatch s' = lastDirtyWatch s"
proof -
  obtain r1 s1 where r1: "call_user C (exec C TTL m) c s = (r1, s1)"
    by fastforce
  then have "s' = s1 \<or> (\<exists>e. s' = exceptionHandler e s1)"
    using assms(2) by (auto simp: s_try_def split: option.splits sum.splits)
  then show ?thesis
    using call_tame [OF assms(1) r1] by (auto simp: frame_def exceptionHandler_def)
qed

subsection \<open>The invariant of a pass\<close>

definition settling :: "'u client \<Rightarrow> 'u sstate \<Rightarrow> bool \<Rightarrow> (nat \<times> nat) list \<Rightarrow> (nat \<times> nat) list \<Rightarrow> bool" where
  "settling C s dirty ps rs \<longleftrightarrow>
     (if dirty then \<exists>p1 i w p2. lastDirtyWatch s = Some w \<and> ps = p1 @ (i, w) # p2 \<and> (\<forall>x \<in> set p2. clean C s x)
      else (\<forall>x \<in> set ps. clean C s x) \<and>
        (\<forall>w. lastDirtyWatch s = Some w \<longrightarrow> w \<in> snd ` set rs \<longrightarrow>
           (\<exists>r1 i r2. rs = r1 @ (i, w) # r2 \<and> (\<forall>x \<in> set r2. clean C s x))))"

lemma settling_skip:
  assumes "settling C s dirty ps (x # rs)" and "clean C s x"
  shows "settling C s dirty (ps @ [x]) rs"
proof (cases dirty)
  case True
  then obtain p1 i w p2 where "lastDirtyWatch s = Some w" "ps @ [x] = p1 @ (i, w) # (p2 @ [x])"
    "\<forall>y \<in> set (p2 @ [x]). clean C s y"
    using assms by (auto simp: settling_def)
  then show ?thesis
    using True unfolding settling_def by metis
next
  case False
  have "\<exists>r1 i r2. rs = r1 @ (i, w) # r2 \<and> (\<forall>y \<in> set r2. clean C s y)"
    if w: "lastDirtyWatch s = Some w" "w \<in> snd ` set rs" for w
  proof -
    obtain r1 i r2 where r: "x # rs = r1 @ (i, w) # r2" "\<forall>y \<in> set r2. clean C s y"
      using assms(1) False w by (auto simp: settling_def)
    show ?thesis
    proof (cases r1)
      case Nil
      obtain j where "(j, w) \<in> set rs"
        using w(2) by force
      then obtain q1 q2 where "rs = q1 @ (j, w) # q2"
        by (meson split_list)
      moreover from this have "set q2 \<subseteq> set rs"
        by auto
      then have "\<forall>y \<in> set q2. clean C s y"
        using r Nil by auto
      ultimately show ?thesis
        by blast
    next
      case (Cons z zs)
      then have "rs = zs @ (i, w) # r2"
        using r by simp
      then show ?thesis
        using r(2) by blast
    qed
  qed
  then show ?thesis
    using False assms by (simp add: settling_def)
qed

lemma settling_circuit:
  assumes "settling C s dirty ps ((i, w) # rs)" and "lastDirtyWatch s = Some w" and "clean C s (i, w)"
    and "distinct (map snd (ps @ (i, w) # rs))"
  shows "\<forall>x \<in> set (ps @ (i, w) # rs). clean C s x"
proof (cases dirty)
  case True
  then show ?thesis
    using assms by (auto simp: settling_def)
next
  case False
  then show ?thesis
    using assms by (fastforce simp: settling_def Cons_eq_append_conv)
qed

lemma visit_step:
  assumes "tame C" and "settling C s dirty ps ((i, w) # rs)" and "distinct (map snd (ps @ (i, w) # rs))"
    and "visit_watch C (exec C TTL m) i w dirty s = (Some (Inr r), s')"
  shows "frame s s' \<and> (case r of Visited d \<Rightarrow> settling C s' d (ps @ [(i, w)]) rs
    | ShortCircuit \<Rightarrow> \<forall>x \<in> set (ps @ (i, w) # rs). clean C s' x)"
proof -
  obtain g u where g: "c_get C (w_get (watches s w)) i (udata s) = (g, u)"
    by fastforce
  then have u: "u = udata s"
    using assms(1) by (metis snd_conv tame_def)
  have upd: "s\<lparr>udata := udata s\<rparr> = s"
    by simp
  have other: "settling C (exceptionHandler e s) d xs ys = settling C s d xs ys" for e d xs ys
  proof -
    have "clean C (exceptionHandler e s) x = clean C s x" for x
      by (simp add: clean_def exceptionHandler_def cong: sum.case_cong)
    then show ?thesis
      by (simp add: settling_def exceptionHandler_def)
  qed
  show ?thesis
  proof (cases g)
    case (Inl e)
    then have "clean C s (i, w)"
      using g by (simp add: clean_def)
    then show ?thesis
      using settling_skip [OF assms(2)] assms(4) g Inl u other [of "UserError e"]
      by (auto simp: visit_watch_def frame_def exceptionHandler_def)
  next
    case (Inr v)
    show ?thesis
    proof (cases "watch_changed C (watches s w) v (udata s)")
      case True
      then obtain r1 where fire: "s_try () (fire_watch C (exec C TTL m) i w v) s = (Some (Inr r1), s')" and r: "r = Visited True"
        using assms(4) g Inr u by (auto simp: visit_watch_def s_bind_def s_ret_def split: option.splits sum.splits prod.splits)
      have "frame s s' \<and> lastDirtyWatch s' = Some w"
      proof -
        obtain l where l: "(if w_eq (watches s w) then c_copy C v (udata s) else (v, udata s)) = (l, udata s)"
          using assms(1) by (metis tame_def prod.collapse)
        define s2 where "s2 = s\<lparr>lastDirtyWatch := Some w, udata := udata s, watches := (watches s)(w := (watches s w)\<lparr>w_last := Some l\<rparr>)\<rparr>"
        have "fire_watch C (exec C TTL m) i w v s = call_user C (exec C TTL m)
            (ListenerCall (w_fn (watches s w)) v (case w_last (watches s w) of None \<Rightarrow> v | Some l \<Rightarrow> l) i) s2"
          using l by (cases "w_eq (watches s w)") (auto simp: fire_watch_def s2_def Let_def)
        then have "s_try () (call_user C (exec C TTL m)
            (ListenerCall (w_fn (watches s w)) v (case w_last (watches s w) of None \<Rightarrow> v | Some l \<Rightarrow> l) i)) s2 = (Some (Inr r1), s')"
          using fire by (simp only: s_try_def)
        from try_tame [OF assms(1) this] show ?thesis
          by (simp add: s2_def frame_def)
      qed
      then show ?thesis
        using r by (fastforce simp: settling_def)
    next
      case False
      then have c: "clean C s (i, w)"
        using g Inr by (simp add: clean_def)
      show ?thesis
      proof (cases "lastDirtyWatch s = Some w")
        case True
        then show ?thesis
          using settling_circuit [OF assms(2) True c assms(3)] assms(4) g Inr u False
          by (auto simp: visit_watch_def)
      next
        case neq: False
        then show ?thesis
          using settling_skip [OF assms(2) c] assms(4) g Inr u False by (auto simp: visit_watch_def)
      qed
    qed
  qed
qed

subsection \<open>The loops\<close>

text \<open>The watchers of a scope in the order of the loop, and those of a subtree.\<close>

definition scope_sites :: "'u sstate \<Rightarrow> nat \<Rightarrow> (nat \<times> nat) list" where
  "scope_sites s i = (case s_watchers (scopes s i) of None \<Rightarrow> [] | Some a \<Rightarrow> map (Pair i) (rev (w_arrays s a)))"

lemma frame_sites: "frame s t \<Longrightarrow> scope_sites t = scope_sites s"
  by (simp add: fun_eq_iff scope_sites_def frame_def split: option.split)

lemma settling_index: "settling C (s\<lparr>digestIndex := f\<rparr>) = settling C s"
proof -
  have "clean C (s\<lparr>digestIndex := f\<rparr>) x = clean C s x" for x
    by (simp add: clean_def cong: sum.case_cong)
  then show ?thesis
    by (simp add: settling_def fun_eq_iff)
qed

definition same_shape :: "'u sstate \<Rightarrow> 'u sstate \<Rightarrow> bool" where
  "same_shape s t \<longleftrightarrow> scopes t = scopes s \<and> next_scope t = next_scope s \<and> w_arrays t = w_arrays s \<and>
     postDigestQueue t = postDigestQueue s \<and> postDigestPos t = postDigestPos s \<and> applyAsyncId t = applyAsyncId s"

lemma shape_simps [simp]: "same_shape s s" "same_shape (s\<lparr>digestIndex := f\<rparr>) t = same_shape s t"
  by (simp_all add: same_shape_def)

lemma shape_trans: "same_shape s t \<Longrightarrow> same_shape t u \<Longrightarrow> same_shape s u"
  by (simp add: same_shape_def)

lemma frame_shape: "frame s t \<Longrightarrow> same_shape s t"
  by (simp add: frame_def same_shape_def)

lemma watch_loop_settles:
  assumes "tame C"
  shows "digestIndex s a = int k \<Longrightarrow> k \<le> length (w_arrays s a) \<Longrightarrow>
    settling C s dirty ps (map (Pair i) (rev (take k (w_arrays s a))) @ rs) \<Longrightarrow>
    distinct (map snd (ps @ map (Pair i) (rev (take k (w_arrays s a))) @ rs)) \<Longrightarrow>
    watch_loop C (exec C TTL m) n i a dirty s = (Some (Inr r), s') \<Longrightarrow>
    same_shape s s' \<and> (case r of Visited d \<Rightarrow> settling C s' d (ps @ map (Pair i) (rev (take k (w_arrays s a)))) rs
      | ShortCircuit \<Rightarrow> \<forall>x \<in> set (ps @ map (Pair i) (rev (take k (w_arrays s a))) @ rs). clean C s' x)"
proof (induction n arbitrary: s dirty ps k)
  case (Suc n)
  define s1 where "s1 = s\<lparr>digestIndex := (digestIndex s)(a := int k - 1)\<rparr>"
  show ?case
  proof (cases k)
    case 0
    then show ?thesis
      using Suc.prems by (auto simp: settling_index same_shape_def)
  next
    case (Suc j)
    then have j: "j < length (w_arrays s a)"
      using Suc.prems(2) by simp
    define w where "w = w_arrays s a ! j"
    have tk: "map (Pair i) (rev (take k (w_arrays s a))) = (i, w) # map (Pair i) (rev (take j (w_arrays s a)))"
      using j by (simp add: Suc take_Suc_conv_app_nth w_def)
    have loop: "s_bind (visit_watch C (exec C TTL m) i w dirty) (\<lambda>r. case r of
            Visited d \<Rightarrow> watch_loop C (exec C TTL m) n i a d | ShortCircuit \<Rightarrow> s_ret ShortCircuit) s1 = (Some (Inr r), s')"
      using Suc.prems(5) Suc.prems(1) Suc j by (simp add: s1_def w_def Let_def)
    then obtain v s2 where visit: "visit_watch C (exec C TTL m) i w dirty s1 = (Some (Inr v), s2)"
      by (auto simp: s_bind_def split: prod.splits option.splits sum.splits)
    have step: "frame s1 s2 \<and> (case v of
        Visited d \<Rightarrow> settling C s2 d (ps @ [(i, w)]) (map (Pair i) (rev (take j (w_arrays s a))) @ rs)
      | ShortCircuit \<Rightarrow> \<forall>x \<in> set (ps @ (i, w) # map (Pair i) (rev (take j (w_arrays s a))) @ rs). clean C s2 x)"
      using Suc.prems(3,4) visit unfolding tk append_Cons s1_def
      by (intro visit_step [OF assms]) (simp_all add: settling_index)
    then have same: "w_arrays s2 = w_arrays s" "digestIndex s2 a = int j" "same_shape s s2"
      by (auto simp: frame_def s1_def same_shape_def Suc)
    show ?thesis
    proof (cases v)
      case (Visited d)
      then have "watch_loop C (exec C TTL m) n i a d s2 = (Some (Inr r), s')"
        using loop visit by (simp add: s_bind_def)
      then show ?thesis
        using Suc.IH [of s2 j d "ps @ [(i, w)]"] step same Visited Suc.prems(4) j shape_trans [of s s2 s'] unfolding tk
        by (auto simp: append_assoc split: visit.splits)
    next
      case ShortCircuit
      then show ?thesis
        using loop visit step same unfolding tk by (auto simp: s_bind_def s_ret_def)
    qed
  qed
qed simp

lemma scope_watchers_settles:
  assumes "tame C" and "settling C s dirty ps (scope_sites s i @ rs)" and "distinct (map snd (ps @ scope_sites s i @ rs))"
    and "scope_watchers C (exec C TTL m) n i dirty s = (Some (Inr r), s')"
  shows "same_shape s s' \<and> (case r of Visited d \<Rightarrow> settling C s' d (ps @ scope_sites s i) rs
      | ShortCircuit \<Rightarrow> \<forall>x \<in> set (ps @ scope_sites s i @ rs). clean C s' x)"
proof (cases "s_watchers (scopes s i)")
  case None
  then show ?thesis
    using assms by (auto simp: scope_watchers_def scope_sites_def)
next
  case (Some a)
  define s1 where "s1 = s\<lparr>digestIndex := (digestIndex s)(a := int (length (w_arrays s a)))\<rparr>"
  have "same_shape s1 s' \<and> (case r of Visited d \<Rightarrow> settling C s' d (ps @ map (Pair i) (rev (take (length (w_arrays s a)) (w_arrays s1 a)))) rs
      | ShortCircuit \<Rightarrow> \<forall>x \<in> set (ps @ map (Pair i) (rev (take (length (w_arrays s a)) (w_arrays s1 a))) @ rs). clean C s' x)"
    using assms(2-4) Some
    by (intro watch_loop_settles [OF assms(1), where n = n and m = m and TTL = TTL and dirty = dirty])
       (simp_all add: s1_def settling_index scope_watchers_def scope_sites_def)
  moreover have "map (Pair i) (rev (take (length (w_arrays s a)) (w_arrays s1 a))) = scope_sites s i"
    using Some by (simp add: s1_def scope_sites_def)
  ultimately show ?thesis
    by (simp only: s1_def shape_simps)
qed

lemma traverse_settles:
  assumes "tame C"
  shows "path (next_scope_of has_watchers s target) (i # is) (Inr None) \<Longrightarrow>
    settling C s dirty ps (concat (map (scope_sites s) (i # is))) \<Longrightarrow>
    distinct (map snd (ps @ concat (map (scope_sites s) (i # is)))) \<Longrightarrow>
    traverse_scopes C (exec C TTL m) n target i dirty s = (Some (Inr d), s') \<Longrightarrow>
    same_shape s s' \<and> (if d then settling C s' True (ps @ concat (map (scope_sites s) (i # is))) []
      else \<forall>x \<in> set (ps @ concat (map (scope_sites s) (i # is))). clean C s' x)"
proof (induction n arbitrary: s dirty ps i "is")
  case (Suc n)
  obtain r s1 where watchers: "scope_watchers C (exec C TTL m) n i dirty s = (Some (Inr r), s1)"
    using Suc.prems(4) by (auto simp: s_bind_def split: prod.splits option.splits sum.splits)
  have step: "same_shape s s1 \<and> (case r of
        Visited d \<Rightarrow> settling C s1 d (ps @ scope_sites s i) (concat (map (scope_sites s) is))
      | ShortCircuit \<Rightarrow> \<forall>x \<in> set (ps @ scope_sites s i @ concat (map (scope_sites s) is)). clean C s1 x)"
    using Suc.prems(2,3) by (intro scope_watchers_settles [OF assms _ _ watchers]) simp_all
  then have same: "same_shape s s1" "scope_sites s1 = scope_sites s"
    "next_scope_of has_watchers s1 target = next_scope_of has_watchers s target"
    by (auto simp: same_shape_def scope_sites_def next_scope_of_cong fun_eq_iff split: option.split)
  show ?case
  proof (cases r)
    case ShortCircuit
    then show ?thesis
      using Suc.prems(4) step same watchers by (auto simp: s_bind_def)
  next
    case (Visited e)
    show ?thesis
    proof (cases "is")
      case Nil
      then have "d = e" "s' = s1"
        using Suc.prems(1,4) Visited watchers same by (auto simp: s_bind_def)
      then show ?thesis
        using step Visited Nil same by (auto simp: settling_def)
    next
      case (Cons j js)
      then have "traverse_scopes C (exec C TTL m) n target j e s1 = (Some (Inr d), s')"
        using Suc.prems(1,4) Visited watchers same by (auto simp: s_bind_def)
      then show ?thesis
        using Suc.IH [of s1 j js e "ps @ scope_sites s i"] Suc.prems(1,3) step Visited Cons same shape_trans [of s s1 s']
        by (auto split: if_splits)
    qed
  qed
qed simp

lemma async_settles:
  assumes "tame C"
  shows "settling C s False [] rs \<Longrightarrow> async_loop C (exec C TTL m) n pos s = (Some (Inr r), s') \<Longrightarrow>
    same_shape s s' \<and> settling C s' False [] rs \<and> asyncQueue s' = []"
proof (induction n arbitrary: pos s)
  case (Suc n)
  show ?case
  proof (cases "pos < length (asyncQueue s)")
    case False
    have "clean C (s\<lparr>asyncQueue := []\<rparr>) x = clean C s x" for x
      by (simp add: clean_def cong: sum.case_cong)
    then have "settling C (s\<lparr>asyncQueue := []\<rparr>) False [] rs = settling C s False [] rs"
      by (simp add: settling_def)
    then show ?thesis
      using Suc.prems False by (auto simp: same_shape_def)
  next
    case True
    then obtain u s1 where call: "s_try () (call_user C (exec C TTL m) (case asyncQueue s ! pos of (i, f) \<Rightarrow> AsyncCall f i)) s = (Some (Inr u), s1)"
      and rest: "async_loop C (exec C TTL m) n (Suc pos) (s1\<lparr>lastDirtyWatch := None\<rparr>) = (Some (Inr r), s')"
      using Suc.prems(2) by (auto simp: s_bind_def split: prod.splits option.splits sum.splits)
    have "same_shape s (s1\<lparr>lastDirtyWatch := None\<rparr>)"
      using try_tame [OF assms call] by (simp add: frame_def same_shape_def)
    then show ?thesis
      using Suc.IH [OF _ rest] shape_trans by (fastforce simp: settling_def)
  qed
qed simp

lemma dirty_loop_settles:
  assumes "tame C"
  shows "path (next_scope_of has_watchers s target) (target # is) (Inr None) \<Longrightarrow>
    distinct (map snd (concat (map (scope_sites s) (target # is)))) \<Longrightarrow>
    settling C s False [] (concat (map (scope_sites s) (target # is))) \<Longrightarrow>
    dirty_loop C (exec C TTL m) n T target ttl s = (Some (Inr r), s') \<Longrightarrow>
    same_shape s s' \<and> asyncQueue s' = [] \<and> (\<forall>x \<in> set (concat (map (scope_sites s) (target # is))). clean C s' x)"
proof (induction ttl arbitrary: s)
  case (Suc k)
  let ?sites = "concat (map (scope_sites s) (target # is))"
  obtain u s1 d s2 where async: "async_loop C (exec C TTL m) n 0 s = (Some (Inr u), s1)"
    and trav: "traverse_scopes C (exec C TTL m) n target target False s1 = (Some (Inr d), s2)"
    and rest: "if d \<or> asyncQueue s2 \<noteq> [] then dirty_loop C (exec C TTL m) n T target k s2 = (Some (Inr r), s') else s' = s2"
    using Suc.prems(4) by (subst (asm) dirty_loop.simps) (auto simp: s_bind_def split: prod.splits option.splits sum.splits if_splits)
  have a: "same_shape s s1" "settling C s1 False [] ?sites"
    using async_settles [OF assms Suc.prems(3) async] by auto
  then have same1: "scope_sites s1 = scope_sites s" "next_scope_of has_watchers s1 target = next_scope_of has_watchers s target"
    by (auto simp: same_shape_def scope_sites_def next_scope_of_cong fun_eq_iff split: option.split)
  have t: "same_shape s1 s2 \<and> (if d then settling C s2 True ?sites [] else \<forall>x \<in> set ?sites. clean C s2 x)"
    using traverse_settles [OF assms _ _ _ trav, of "is" "[]"] Suc.prems(1,2) a by (simp add: same1 cong: if_cong)
  then have s2: "same_shape s s2" "scope_sites s2 = scope_sites s" "next_scope_of has_watchers s2 target = next_scope_of has_watchers s target"
    using a by (auto simp: same_shape_def scope_sites_def next_scope_of_cong fun_eq_iff split: option.split)
  have start: "settling C s2 False [] ?sites"
  proof (cases d)
    case True
    then obtain p1 i w p2 where p: "lastDirtyWatch s2 = Some w" "?sites = p1 @ (i, w) # p2" "\<forall>x \<in> set p2. clean C s2 x"
      using t unfolding settling_def by auto
    then have "\<exists>r1 i r2. ?sites = r1 @ (i, w) # r2 \<and> (\<forall>x \<in> set r2. clean C s2 x)"
      by blast
    then show ?thesis
      unfolding settling_def using p(1) by simp
  next
    case False
    have "\<exists>r1 i r2. ?sites = r1 @ (i, w) # r2 \<and> (\<forall>y \<in> set r2. clean C s2 y)" if w: "w \<in> snd ` set ?sites" for w
    proof -
      obtain i where "(i, w) \<in> set ?sites"
        using w by (metis imageE prod.collapse)
      then obtain r1 r2 where "?sites = r1 @ (i, w) # r2"
        by (meson split_list)
      then show ?thesis
        using t False by (metis UnCI list.set_intros(2) set_append)
    qed
    then show ?thesis
      by (simp add: settling_def)
  qed
  show ?case
  proof (cases "d \<or> asyncQueue s2 \<noteq> []")
    case True
    then have "dirty_loop C (exec C TTL m) n T target k s2 = (Some (Inr r), s')"
      using rest by simp
    then have "same_shape s2 s' \<and> asyncQueue s' = [] \<and> (\<forall>x \<in> set ?sites. clean C s' x)"
      using Suc.IH [of s2] Suc.prems(1,2) start by (simp add: s2(2,3))
    then show ?thesis
      using s2(1) shape_trans by metis
  next
    case False
    then show ?thesis
      using rest t s2(1) by simp
  qed
next
  case 0
  let ?sites = "concat (map (scope_sites s) (target # is))"
  obtain u s1 where async: "async_loop C (exec C TTL m) n 0 s = (Some (Inr u), s1)"
    and trav: "traverse_scopes C (exec C TTL m) n target target False s1 = (Some (Inr False), s')" and q: "asyncQueue s' = []"
    using 0(4) by (subst (asm) dirty_loop.simps) (auto simp: s_bind_def s_raise_def split: prod.splits option.splits sum.splits if_splits)
  have a: "same_shape s s1" "settling C s1 False [] ?sites"
    using async_settles [OF assms 0(3) async] by auto
  then have same1: "scope_sites s1 = scope_sites s" "next_scope_of has_watchers s1 target = next_scope_of has_watchers s target"
    by (auto simp: same_shape_def scope_sites_def next_scope_of_cong fun_eq_iff split: option.split)
  have "same_shape s1 s' \<and> (\<forall>x \<in> set ?sites. clean C s' x)"
    using traverse_settles [OF assms _ _ _ trav, of "is" "[]"] 0(1,2) a by (simp add: same1)
  then show ?case
    using a(1) q shape_trans by metis
qed

subsection \<open>The property\<close>

text \<open>The watchers a digest of \<open>target\<close> is about, in the order it visits them.\<close>

definition digest_sites :: "'u sstate \<Rightarrow> (nat \<Rightarrow> nat list) \<Rightarrow> nat \<Rightarrow> (nat \<times> nat) list" where
  "digest_sites s kids target = concat (map (scope_sites s) (subtree (has_watchers s) (next_scope s) kids target))"

text \<open>
  C18. A digest that returns leaves the application stable: for a client whose watch expressions are
  pure, and whose listeners and tasks change the data in any way and schedule tasks, when \<open>$digest\<close>
  on a scope of a well-formed tree returns normally, every watcher of the subtree would find its
  expression unchanged, and no task is pending. In particular the short circuit at the last dirty
  watcher never hides a change.
\<close>

theorem digest_leaves_stable:
  assumes "tame C" and "tree_ok s A kids" and "target \<in> A" and "distinct (map snd (digest_sites s kids target))"
    and "postDigestQueue s = []" and "postDigestPos s = 0" and "applyAsyncId s = None" and "\<not> disabled s target"
    and "exec C TTL n (ADigest target) s = (Some (Inr ()), s')"
  shows "(\<forall>x \<in> set (digest_sites s kids target). clean C s' x) \<and> asyncQueue s' = [] \<and> phase_of s' = None"
proof (cases n)
  case (Suc m)
  define sites where "sites = digest_sites s kids target"
  obtain "is" where sub: "subtree (has_watchers s) (next_scope s) kids target = target # is"
    by (metis hd_subtree list.collapse subtree_not_Nil)
  have ph: "phase_of s = None"
    using assms(8,9) by (auto simp: Suc run_action_def scope_digest_def s_bind_def beginPhase_def s_raise_def split: option.splits)
  define s1 where "s1 = s\<lparr>phase_of := Some Digesting, lastDirtyWatch := None\<rparr>"
  obtain r s2 where loop: "dirty_loop C (exec C TTL m) m TTL target TTL s1 = (Some (Inr r), s2)"
    and post: "post_loop C (exec C TTL m) m (clearPhase s2) = (Some (Inr ()), s')"
    using assms(7,8,9) ph
    by (auto simp: Suc run_action_def scope_digest_def s_bind_def beginPhase_def s_mod_def s1_def
        split: prod.splits option.splits sum.splits)
  have sites1: "scope_sites s1 = scope_sites s"
    by (simp add: s1_def scope_sites_def fun_eq_iff split: option.split)
  have links: "tree_ok s1 A kids" "next_scope s1 = next_scope s" "has_watchers s1 = has_watchers s" "lastDirtyWatch s1 = None"
    using assms(2) by (auto simp: s1_def tree_ok_def node_ok_def has_watchers_def fun_eq_iff)
  have "path (next_scope_of has_watchers s1 target) (target # is) (Inr None)"
    using subtree_path [OF links(1) assms(3), of target has_watchers] sub by (simp add: links)
  then have "same_shape s1 s2 \<and> asyncQueue s2 = [] \<and> (\<forall>x \<in> set sites. clean C s2 x)"
    using dirty_loop_settles [OF assms(1) _ _ _ loop, of "is"] assms(4)
    by (simp add: sites_def digest_sites_def sub sites1 links settling_def)
  moreover have "m \<noteq> 0"
    using post by (cases m) auto
  moreover have "s' = (clearPhase s2)\<lparr>postDigestQueue := [], postDigestPos := 0\<rparr>"
    using post calculation assms(5,6) by (cases m) (auto simp: same_shape_def s1_def clearPhase_def)
  moreover have "clean C ((clearPhase s2)\<lparr>postDigestQueue := [], postDigestPos := 0\<rparr>) x = clean C s2 x" for x
    by (simp add: clean_def clearPhase_def cong: sum.case_cong)
  ultimately show ?thesis
    by (simp add: sites_def clearPhase_def)
qed (use assms(9) in simp)

text \<open>The client of the witness: the listener and the task of one scope count, the other scope watches the count.\<close>

definition counting :: "nat client" where
  "counting = \<lparr>c_get = (\<lambda>g i u. (Inr (Boolean (g < u)), u)),
     c_run = (\<lambda>c u. case c of
         ListenerCall f v l i \<Rightarrow> (if u < 3 then u + 1 else u, if f = 1 then [AEvalAsync i 0] else [], None)
       | AsyncCall f i \<Rightarrow> (if u < 5 then u + 1 else u, [], None) | _ \<Rightarrow> (u, [], None)),
     c_equals = (\<lambda>u v w. v = w), c_copy = (\<lambda>v u. (v, u))\<rparr>"

lemma counting_tame: "tame counting"
  by (auto simp: tame_def counting_def split: ucall.splits)

lemma counting_simps [simp]:
  "c_get counting g i u = (Inr (Boolean (g < u)), u)"
  "c_run counting (ListenerCall f v l i) u = (if u < 3 then u + 1 else u, if f = 1 then [AEvalAsync i 0] else [], None)"
  "c_run counting (AsyncCall f i) u = (if u < 5 then u + 1 else u, [], None)"
  by (simp_all add: counting_def)

definition counting_start :: "nat sstate" where
  "counting_start = snd (run_actions (exec counting 10 9)
     [ANew False None 0, AWatch 1 0 0 False, AWatch 0 2 1 False] (s_init 0))"

theorem digest_leaves_stable_witness:
  "\<exists>s'. exec counting 10 9 (ADigest 0) counting_start = (Some (Inr ()), s') \<and>
     (\<forall>x \<in> {(0, 1), (1, 0)}. clean counting s' x) \<and> asyncQueue s' = [] \<and> udata s' = 4"
proof -
  have t: "tree_ok counting_start {0, 1} (\<lambda>i. if i = 0 then [1] else [])"
    by (simp add: counting_start_def scope_eval tree_ok_def node_ok_def cong: bind_stop try_stop)
  have sites: "digest_sites counting_start (\<lambda>i. if i = 0 then [1] else []) 0 = [(0, 1), (1, 0)]"
    by (simp add: digest_sites_def scope_sites_def subtree.simps counting_start_def scope_eval cong: bind_stop try_stop)
  have start: "postDigestQueue counting_start = []" "postDigestPos counting_start = 0" "applyAsyncId counting_start = None"
    "\<not> disabled counting_start 0"
    by (simp_all add: counting_start_def scope_eval cong: bind_stop try_stop)
  obtain s' where run: "exec counting 10 9 (ADigest 0) counting_start = (Some (Inr ()), s')" "udata s' = 4"
    by (simp add: counting_start_def scope_eval is_nan_def cong: bind_stop try_stop)
  show ?thesis
    using digest_leaves_stable [OF counting_tame t _ _ start run(1)] run sites by simp
qed

end
