(* ===== verification/NgNumber.thy ===== *)
theory NgNumber
  imports JsValue
begin

section \<open>Number formatting: the filters number and currency\<close>

text \<open>
  \<open>parse\<close>, \<open>roundNumber\<close> and \<open>formatNumber\<close>. A parsed_number number is the list \<open>d\<close> of its decimal digits,
  the exponent \<open>e\<close> that is printed when it is too long, and the number \<open>i\<close> of digits before the
  decimal point, which may be negative. Digits are naturals, so that a digit can be 10 until the carry
  is done, as in the source. The fraction size is an integer or \<open>undefined\<close> (\<open>None\<close>).
\<close>

record parsed_number =
  pd :: "nat list"
  pe :: int
  pint :: int

definition MAX_DIGITS :: int where
  "MAX_DIGITS = 22"

definition DECIMAL_SEP :: nat where
  "DECIMAL_SEP = 46"

definition ZERO_CHAR :: nat where
  "ZERO_CHAR = 48"

fun find_pos :: "('a \<Rightarrow> bool) \<Rightarrow> 'a list \<Rightarrow> nat option" where
  "find_pos P [] = None"
| "find_pos P (x # xs) = (if P x then Some 0 else map_option Suc (find_pos P xs))"

text \<open>
  \<open>parse(numStr)\<close>: \<open>(point, s)\<close> is the position of the decimal point and the string without it,
  \<open>(i, t)\<close> the number of integer digits and the string without the exponent.
\<close>

definition parse_number :: "jstring \<Rightarrow> parsed_number" where
  "parse_number numStr =
     (let (point, s) = (case find_pos (\<lambda>c. c = DECIMAL_SEP) numStr of
            Some k \<Rightarrow> (int k, take k numStr @ drop (Suc k) numStr) | None \<Rightarrow> (- 1, numStr));
          (i, t) = (case find_pos (\<lambda>c. c = 101 \<or> c = 69) s of
            Some (Suc k) \<Rightarrow>
              ((if point < 0 then int (Suc k) else point)
                 + (case num_of_string (drop (Suc (Suc k)) s) of Fin r \<Rightarrow> \<lfloor>r\<rfloor> | _ \<Rightarrow> 0), take (Suc k) s)
          | _ \<Rightarrow> (if point < 0 then int (length s) else point, s));
          zeros = length (takeWhile (\<lambda>c. c = ZERO_CHAR) t);
          (digits, j) = (if zeros = length t then ([0], 1)
            else (map (\<lambda>c. c - ZERO_CHAR) (rev (dropWhile (\<lambda>c. c = ZERO_CHAR) (rev (drop zeros t)))), i - int zeros))
      in if j > MAX_DIGITS then \<lparr>pd = take (nat (MAX_DIGITS - 1)) digits, pe = j - 1, pint = 1\<rparr>
         else \<lparr>pd = digits, pe = 0, pint = j\<rparr>)"

text \<open>\<open>digits.reduceRight\<close>: the carry and the digits.\<close>

fun carry_up :: "nat list \<Rightarrow> nat \<times> nat list" where
  "carry_up [] = (0, [])"
| "carry_up (d # ds) = (let (c, es) = carry_up ds in ((d + c) div 10, (d + c) mod 10 # es))"

definition at_digit :: "nat list \<Rightarrow> int \<Rightarrow> nat option" where
  "at_digit ds k = (if 0 \<le> k \<and> k < int (length ds) then Some (ds ! nat k) else None)"

definition fraction_size :: "parsed_number \<Rightarrow> int option \<Rightarrow> int \<Rightarrow> int \<Rightarrow> int" where
  "fraction_size p fractionSize minFrac maxFrac =
     (case fractionSize of
        None \<Rightarrow> min (max minFrac (int (length (pd p)) - pint p)) maxFrac
      | Some f \<Rightarrow> f)"

definition roundNumber :: "parsed_number \<Rightarrow> int option \<Rightarrow> int \<Rightarrow> int \<Rightarrow> parsed_number" where
  "roundNumber p fractionSize minFrac maxFrac =
     (let f = fraction_size p fractionSize minFrac maxFrac;
          len = int (length (pd p)) - pint p;
          roundAt = f + pint p;
          up = (case at_digit (pd p) roundAt of Some d \<Rightarrow> 5 \<le> d | None \<Rightarrow> False);
          (ds, i, fractionLen, r) =
            (if roundAt > 0 then
               (let ks = take (nat (max (pint p) roundAt)) (pd p)
                in (take (nat roundAt) ks @ replicate (length ks - nat roundAt) 0, pint p, len, roundAt))
             else (replicate (nat (max 1 (f + 1))) 0, 1, max 0 len, f + 1));
          (ds, i) =
            (if \<not> up then (ds, i)
             else if r - 1 < 0 then (1 # replicate (nat (- r)) 0 @ ds, i + (- r) + 1)
             else (ds[nat (r - 1) := Suc (ds ! nat (r - 1))], i));
          ds = ds @ replicate (nat (max 0 f - fractionLen)) 0;
          (c, es) = carry_up ds
      in if c \<noteq> 0 then \<lparr>pd = c # es, pe = pe p, pint = i + 1\<rparr> else \<lparr>pd = es, pe = pe p, pint = i\<rparr>)"

record pattern =
  gSize :: nat
  lgSize :: nat
  maxFrac :: int
  minFrac :: int
  negPre :: jstring
  negSuf :: jstring
  posPre :: jstring
  posSuf :: jstring

definition digits_text :: "nat list \<Rightarrow> jstring" where
  "digits_text ds = map (\<lambda>d. d + ZERO_CHAR) ds"

text \<open>The loop that cuts groups of \<open>gSize\<close> digits off the end, and the rest in front of them.\<close>

function group_loop :: "nat \<Rightarrow> nat list \<Rightarrow> jstring list \<Rightarrow> jstring list" where
  "group_loop g ds acc =
     (if length ds > g \<and> g > 0 then
        group_loop g (take (length ds - g) ds) (digits_text (drop (length ds - g) ds) # acc)
      else if ds \<noteq> [] then digits_text ds # acc else acc)"
  by pat_completeness auto
termination by (relation "measure (\<lambda>(g, ds, acc). length ds)") auto

declare group_loop.simps [simp del]

definition groups :: "pattern \<Rightarrow> nat list \<Rightarrow> jstring list" where
  "groups pat ds =
     (if length ds \<ge> lgSize pat \<and> lgSize pat > 0 then
        group_loop (gSize pat) (take (length ds - lgSize pat) ds) [digits_text (drop (length ds - lgSize pat) ds)]
      else group_loop (gSize pat) ds [])"

text \<open>
  The text of the absolute value; the flag says that it was rounded to zero. A pattern with a group
  size of 0, for which the source would not end, does not occur in a locale.
\<close>

definition format_parsed :: "parsed_number \<Rightarrow> pattern \<Rightarrow> jstring \<Rightarrow> jstring \<Rightarrow> jstring" where
  "format_parsed p pat groupSep decimalSep =
     (let ds = (if pint p < 0 then replicate (nat (- pint p)) 0 @ pd p else pd p);
          integerLen = max 0 (pint p);
          (ints, decimals) = (if integerLen > 0 then (take (nat integerLen) ds, drop (nat integerLen) ds) else ([0], ds))
      in join_with groupSep (groups pat ints)
         @ (if decimals \<noteq> [] then decimalSep @ digits_text decimals else [])
         @ (if pe p \<noteq> 0 then J ''e+'' @ int_digits (pe p) else []))"

definition formatNumber :: "jnum \<Rightarrow> pattern \<Rightarrow> jstring \<Rightarrow> jstring \<Rightarrow> int option \<Rightarrow> jstring" where
  "formatNumber number pat groupSep decimalSep fractionSize =
     (if number = NaN then []
      else
        let (isZero, formattedText) = (case number of
              Inf _ \<Rightarrow> (False, [0x221e])
            | _ \<Rightarrow> (let p = roundNumber (parse_number (num_to_string (if is_neg number then num_neg number else number)))
                             fractionSize (minFrac pat) (maxFrac pat)
                    in (list_all (\<lambda>d. d = 0) (pd p), format_parsed p pat groupSep decimalSep)))
        in if num_lt number (Fin 0) \<and> \<not> isZero then negPre pat @ formattedText @ negSuf pat
           else posPre pat @ formattedText @ posSuf pat)"

subsection \<open>The locale en-us\<close>

record number_formats =
  CURRENCY_SYM :: jstring
  NF_DECIMAL_SEP :: jstring
  GROUP_SEP :: jstring
  PATTERN0 :: pattern
  PATTERN1 :: pattern

definition en_us_numbers :: number_formats where
  "en_us_numbers = \<lparr>CURRENCY_SYM = J ''$'', NF_DECIMAL_SEP = J ''.'', GROUP_SEP = J '','',
     PATTERN0 = \<lparr>gSize = 3, lgSize = 3, maxFrac = 3, minFrac = 0, negPre = J ''-'', negSuf = [], posPre = [], posSuf = []\<rparr>,
     PATTERN1 = \<lparr>gSize = 3, lgSize = 3, maxFrac = 2, minFrac = 2, negPre = J ''-'' @ [0xa4], negSuf = [],
       posPre = [0xa4], posSuf = []\<rparr>\<rparr>"

text \<open>The filters, on a number; \<open>null\<close> and \<open>undefined\<close> pass through unchanged.\<close>

definition numberFilter :: "number_formats \<Rightarrow> jnum option \<Rightarrow> int option \<Rightarrow> jstring option" where
  "numberFilter F number fractionSize =
     map_option (\<lambda>n. formatNumber n (PATTERN0 F) (GROUP_SEP F) (NF_DECIMAL_SEP F) fractionSize) number"

fun replace_char :: "nat \<Rightarrow> jstring \<Rightarrow> jstring \<Rightarrow> jstring" where
  "replace_char c r [] = []"
| "replace_char c r (x # s) = (if x = c then r @ replace_char c r s else x # replace_char c r s)"

definition currencyFilter :: "number_formats \<Rightarrow> jnum option \<Rightarrow> jstring option \<Rightarrow> int option \<Rightarrow> jstring option" where
  "currencyFilter F amount currencySymbol fractionSize =
     (let sym = (case currencySymbol of Some t \<Rightarrow> t | None \<Rightarrow> CURRENCY_SYM F);
          f = (case fractionSize of Some k \<Rightarrow> k | None \<Rightarrow> maxFrac (PATTERN1 F))
      in map_option (\<lambda>n. replace_char 0xa4 sym (formatNumber n (PATTERN1 F) (GROUP_SEP F) (NF_DECIMAL_SEP F) (Some f))) amount)"

subsection \<open>The value of a list of digits\<close>

definition dval :: "nat list \<Rightarrow> nat" where
  "dval ds = foldl (\<lambda>n d. 10 * n + d) 0 ds"

lemma foldl_dval: "foldl (\<lambda>n d. 10 * n + d) k ds = k * 10 ^ length ds + dval ds"
proof (induction ds arbitrary: k)
  case (Cons d ds)
  have "foldl (\<lambda>n d. 10 * n + d) (10 * k + d) ds = (10 * k + d) * 10 ^ length ds + dval ds"
    by (rule Cons)
  moreover have "dval (d # ds) = d * 10 ^ length ds + dval ds"
    unfolding Cons [of d, symmetric] by (simp add: dval_def)
  ultimately show ?case
    by (simp add: algebra_simps)
qed (simp add: dval_def)

lemma dval_simps [simp]:
  "dval [] = 0" "dval (d # ds) = d * 10 ^ length ds + dval ds"
proof -
  have "dval (d # ds) = foldl (\<lambda>n d. 10 * n + d) d ds"
    by (simp add: dval_def)
  then show "dval (d # ds) = d * 10 ^ length ds + dval ds"
    by (simp only: foldl_dval)
qed (simp add: dval_def)

lemma dval_append [simp]: "dval (xs @ ys) = dval xs * 10 ^ length ys + dval ys"
  by (induction xs) (simp_all add: algebra_simps power_add)

lemma dval_zeros [simp]: "dval (replicate n 0) = 0"
  by (induction n) simp_all

lemma dval_less: "list_all (\<lambda>d. d < 10) ds \<Longrightarrow> dval ds < 10 ^ length ds"
proof (induction ds)
  case (Cons d ds)
  then have "Suc d * 10 ^ length ds \<le> 10 * 10 ^ length ds"
    by (intro mult_right_mono) auto
  then have "d * 10 ^ length ds + 10 ^ length ds \<le> 10 * 10 ^ length ds"
    by simp
  moreover have "dval ds < 10 ^ length ds"
    using Cons by simp
  ultimately show ?case
    unfolding dval_simps length_Cons power_Suc by linarith
qed simp

lemma dval_last_up:
  "ds \<noteq> [] \<Longrightarrow> dval (ds[length ds - 1 := Suc (ds ! (length ds - 1))]) = Suc (dval ds)"
  by (cases ds rule: rev_cases) (simp_all add: nth_append)

lemma carry_up_dval:
  "list_all (\<lambda>d. d \<le> 10) ds \<Longrightarrow> fst (carry_up ds) \<le> 1 \<and> list_all (\<lambda>d. d < 10) (snd (carry_up ds)) \<and>
     length (snd (carry_up ds)) = length ds \<and> fst (carry_up ds) * 10 ^ length ds + dval (snd (carry_up ds)) = dval ds"
proof (induction ds)
  case (Cons d ds)
  obtain c es where ce: "carry_up ds = (c, es)"
    by fastforce
  have "((d + c) div 10) * 10 ^ Suc (length ds) + ((d + c) mod 10) * 10 ^ length ds = (d + c) * 10 ^ length ds"
    by (simp flip: distrib_right mult.assoc)
  then show ?case
    using Cons ce by (auto simp: Let_def algebra_simps)
qed simp

subsection \<open>Rounding half up\<close>

lemma half_up:
  assumes "ds \<noteq> []" and "list_all (\<lambda>d. d < 10) ds"
  shows "(dval ds * 2 \<ge> 10 ^ length ds) = (5 \<le> hd ds)"
proof (cases ds)
  case (Cons d es)
  have es: "dval es < 10 ^ length es"
    using assms Cons by (intro dval_less) simp
  have sides: "10 ^ length ds = 10 * 10 ^ length es" "dval ds * 2 = 2 * (d * 10 ^ length es) + 2 * dval es" "hd ds = d"
    using Cons by simp_all
  show ?thesis
  proof (cases "5 \<le> d")
    case True
    then have "5 * 10 ^ length es \<le> d * 10 ^ length es"
      by (intro mult_right_mono) auto
    then show ?thesis
      using True unfolding sides by linarith
  next
    case False
    then have "d * 10 ^ length es \<le> 4 * 10 ^ length es"
      by (intro mult_right_mono) auto
    then show ?thesis
      using False es unfolding sides by linarith
  qed
qed (use assms in simp)

text \<open>Half up, on \<open>(a * b + r) / b\<close> with \<open>r < b\<close>.\<close>

lemma floor_half_up:
  fixes a b r :: nat
  assumes "r < b"
  shows "\<lfloor>(of_nat (a * b + r) / of_nat b :: rat) + 1 / 2\<rfloor> = int (a + (if b \<le> 2 * r then 1 else 0))"
proof -
  have b: "(0 :: rat) < of_nat b"
    using assms by simp
  have r: "(of_nat r :: rat) < of_nat b"
    using assms by simp
  have "(of_nat (a * b + r) / of_nat b :: rat) = of_nat a + of_nat r / of_nat b"
    using b by (simp add: field_simps)
  moreover have "\<lfloor>(of_nat r / of_nat b :: rat) + 1 / 2\<rfloor> = (if b \<le> 2 * r then 1 else 0)"
  proof (cases "b \<le> 2 * r")
    case True
    then have "(of_nat b :: rat) \<le> 2 * of_nat r"
      by (metis of_nat_le_iff of_nat_mult of_nat_numeral)
    then show ?thesis
      using True b r by (simp add: floor_eq_iff field_simps)
  next
    case False
    then have "2 * of_nat r < (of_nat b :: rat)"
      by (metis not_le of_nat_less_iff of_nat_mult of_nat_numeral)
    then show ?thesis
      using False b by (simp add: floor_eq_iff field_simps)
  qed
  ultimately show ?thesis
    by (simp add: add.assoc)
qed

lemma pow10_add_nat: "pow10 (int k) = 10 ^ k" "pow10 (- int k) = 1 / 10 ^ k"
  by (simp_all add: pow10_def)

text \<open>
  \<open>roundNumber\<close> with the parts of the source named: \<open>kept\<close> are the digits before the carry.
\<close>

definition rounded_up :: "parsed_number \<Rightarrow> int \<Rightarrow> bool" where
  "rounded_up p f = (case at_digit (pd p) (f + pint p) of Some d \<Rightarrow> 5 \<le> d | None \<Rightarrow> False)"

definition kept :: "parsed_number \<Rightarrow> int \<Rightarrow> nat list" where
  "kept p f =
     (let r = f + pint p;
          ds = (if r > 0 then take (nat r) (pd p) else replicate (nat (f + 1)) 0);
          ds = (if rounded_up p f then ds[length ds - 1 := Suc (ds ! (length ds - 1))] else ds)
      in if r > 0 then ds @ replicate (nat r - length (pd p)) 0 else ds)"

lemma roundNumber_kept:
  assumes "0 \<le> f" and "fraction_size p fs a b = f"
  shows "roundNumber p fs a b =
    (let (c, es) = carry_up (kept p f); i = (if f + pint p > 0 then pint p else 1)
     in if c \<noteq> 0 then \<lparr>pd = c # es, pe = pe p, pint = i + 1\<rparr> else \<lparr>pd = es, pe = pe p, pint = i\<rparr>)"
proof (cases "f + pint p > 0")
  case True
  then have r: "nat (max (pint p) (f + pint p)) = nat (f + pint p)" "pint p \<le> f + pint p"
    using assms(1) by auto
  have "rounded_up p f \<Longrightarrow> nat (f + pint p) < length (pd p)"
    using True by (auto simp: rounded_up_def at_digit_def split: if_splits)
  moreover have "nat (f - (int (length (pd p)) - pint p)) = nat (f + pint p) - length (pd p)"
    by auto
  ultimately show ?thesis
    using True r assms
    by (auto simp: roundNumber_def kept_def rounded_up_def Let_def min_def nat_diff_distrib)
next
  case False
  then have "nat (f - max 0 (int (length (pd p)) - pint p)) = 0" "nat (max 1 (f + 1)) = nat (f + 1)"
    "nat (f + 1) - Suc 0 = nat f"
    using assms(1) by auto
  then show ?thesis
    using False assms
    by (auto simp: roundNumber_def kept_def rounded_up_def Let_def)
qed

lemma kept_exact:
  assumes "\<not> rounded_up p f" and "f + pint p > 0" and "length (pd p) \<le> nat (f + pint p)"
  shows "int (dval (kept p f)) = \<lfloor>of_nat (dval (pd p)) * pow10 (f + pint p - int (length (pd p))) + 1 / 2\<rfloor>"
proof -
  define k where "k = nat (f + pint p) - length (pd p)"
  have "f + pint p - int (length (pd p)) = int k"
    using assms(2,3) by (simp add: k_def)
  moreover have "dval (kept p f) = dval (pd p) * 10 ^ k"
    using assms by (simp add: kept_def k_def Let_def)
  moreover have "\<lfloor>of_nat (dval (pd p) * 10 ^ k) + (1 / 2 :: rat)\<rfloor> = int (dval (pd p) * 10 ^ k)"
    by (simp add: floor_eq_iff del: of_nat_mult of_nat_power)
  ultimately show ?thesis
    by (simp add: pow10_add_nat)
qed

lemma kept_cut:
  assumes "list_all (\<lambda>d. d < 10) (pd p)" and "f + pint p > 0" and "nat (f + pint p) < length (pd p)"
  shows "int (dval (kept p f)) = \<lfloor>of_nat (dval (pd p)) * pow10 (f + pint p - int (length (pd p))) + 1 / 2\<rfloor>"
proof -
  define n where "n = nat (f + pint p)"
  define xs where "xs = take n (pd p)"
  define ys where "ys = drop n (pd p)"
  have d: "pd p = xs @ ys" and n: "n < length (pd p)" "0 < n" "length xs = n" "ys \<noteq> []" "hd ys = pd p ! n"
    using assms(2,3) by (auto simp: xs_def ys_def n_def hd_drop_conv_nth)
  have digits: "list_all (\<lambda>d. d < 10) ys"
    using assms(1) by (simp add: d)
  have up: "rounded_up p f = (5 \<le> hd ys)"
    using n(1,5) assms(2) by (auto simp: rounded_up_def at_digit_def n_def)
  have "dval (kept p f) = dval xs + (if 5 \<le> hd ys then 1 else 0)"
    using n assms(2) dval_last_up [of xs] by (auto simp: kept_def up Let_def simp flip: n_def xs_def)
  moreover have eq: "f + pint p - int (length (pd p)) = - int (length ys)"
    using n by (simp add: d n_def nat_less_iff)
  moreover have "\<lfloor>(of_nat (dval xs * 10 ^ length ys + dval ys) / of_nat (10 ^ length ys) :: rat) + 1 / 2\<rfloor>
      = int (dval xs + (if 10 ^ length ys \<le> 2 * dval ys then 1 else 0))"
    by (rule floor_half_up) (rule dval_less [OF digits])
  moreover have "(10 ^ length ys \<le> 2 * dval ys) = (5 \<le> hd ys)"
    using half_up [OF n(4) digits] by (simp add: mult.commute)
  ultimately show ?thesis
    unfolding eq pow10_add_nat by (simp add: d)
qed

lemma kept_none:
  assumes "list_all (\<lambda>d. d < 10) (pd p)" and "f + pint p \<le> 0" and "0 \<le> f"
  shows "int (dval (kept p f)) = \<lfloor>of_nat (dval (pd p)) * pow10 (f + pint p - int (length (pd p))) + 1 / 2\<rfloor>"
proof -
  define k where "k = length (pd p) + nat (- (f + pint p))"
  have k: "f + pint p - int (length (pd p)) = - int k"
    using assms(2) by (simp add: k_def)
  have up: "rounded_up p f = (f + pint p = 0 \<and> pd p \<noteq> [] \<and> 5 \<le> hd (pd p))"
    using assms(2) by (auto simp: rounded_up_def at_digit_def hd_conv_nth)
  have less: "dval (pd p) < 10 ^ length (pd p)"
    by (rule dval_less [OF assms(1)])
  have "(10 ^ k \<le> 2 * dval (pd p)) = rounded_up p f"
  proof (cases "f + pint p = 0 \<and> pd p \<noteq> []")
    case True
    then show ?thesis
      using half_up [OF _ assms(1)] by (simp add: up k_def mult.commute)
  next
    case False
    have "2 * dval (pd p) < 10 ^ k"
    proof (cases "pd p = []")
      case False
      then have "f + pint p < 0"
        using \<open>\<not> (f + pint p = 0 \<and> pd p \<noteq> [])\<close> assms(2) by simp
      then have "length (pd p) + 1 \<le> k"
        by (simp add: k_def)
      then have "(10 :: nat) ^ (length (pd p) + 1) \<le> 10 ^ k"
        by (rule power_increasing) simp
      then show ?thesis
        using less by simp
    qed simp
    then show ?thesis
      using False up by simp
  qed
  moreover have "dval (pd p) < 10 ^ k"
    using less by (rule less_le_trans) (simp add: k_def power_increasing)
  then have "\<lfloor>(of_nat (0 * 10 ^ k + dval (pd p)) / of_nat (10 ^ k) :: rat) + 1 / 2\<rfloor>
      = int (0 + (if 10 ^ k \<le> 2 * dval (pd p) then 1 else 0))"
    by (rule floor_half_up)
  moreover have "dval (kept p f) = (if rounded_up p f then 1 else 0)"
    using assms(2,3) dval_last_up [of "replicate (nat (f + 1)) 0"] by (auto simp: kept_def Let_def)
  ultimately show ?thesis
    by (simp add: k pow10_add_nat)
qed

lemma kept_value:
  assumes "0 \<le> f" and "list_all (\<lambda>d. d < 10) (pd p)"
  shows "int (dval (kept p f)) = \<lfloor>of_nat (dval (pd p)) * pow10 (f + pint p - int (length (pd p))) + 1 / 2\<rfloor>"
proof (cases "f + pint p > 0")
  case True
  show ?thesis
  proof (cases "nat (f + pint p) < length (pd p)")
    case False
    then have "\<not> rounded_up p f"
      using True by (auto simp: rounded_up_def at_digit_def split: if_splits)
    then show ?thesis
      using kept_exact True False by simp
  qed (use kept_cut assms True in blast)
qed (use kept_none assms in simp)

lemma kept_shape:
  assumes "0 \<le> f" and "list_all (\<lambda>d. d < 10) (pd p)"
  shows "list_all (\<lambda>d. d \<le> 10) (kept p f)"
    and "int (length (kept p f)) = (if f + pint p > 0 then f + pint p else f + 1)"
proof -
  define ds where "ds = (if f + pint p > 0 then take (nat (f + pint p)) (pd p) else replicate (nat (f + 1)) 0)"
  have ds: "list_all (\<lambda>d. d < 10) ds"
    using assms(2) by (auto simp: ds_def list_all_iff dest: in_set_takeD)
  have "kept p f = (if rounded_up p f then ds[length ds - 1 := Suc (ds ! (length ds - 1))] else ds)
      @ replicate (if f + pint p > 0 then nat (f + pint p) - length (pd p) else 0) 0"
    by (simp add: kept_def ds_def Let_def)
  moreover have "list_all (\<lambda>d. d \<le> 10) (ds[length ds - 1 := Suc (ds ! (length ds - 1))])" "list_all (\<lambda>d. d \<le> 10) ds"
    using ds by (auto simp: list_all_length nth_list_update less_imp_le Suc_le_eq)
  ultimately show "list_all (\<lambda>d. d \<le> 10) (kept p f)"
    by (auto simp: list_all_iff)
  show "int (length (kept p f)) = (if f + pint p > 0 then f + pint p else f + 1)"
    using assms(1) by (auto simp: kept_def Let_def)
qed

text \<open>
  C23. \<open>roundNumber\<close> rounds half up, correctly in every case: for a number given by decimal digits and a
  fraction size of \<open>f \<ge> 0\<close> digits, the result has decimal digits again, exactly \<open>f\<close> of them after
  the point, and it is the value times \<open>10 ^ f\<close> rounded to the nearest integer (up at a half), also
  when all digits are rounded away, when zeros have to be appended, and when carries run to the front.
\<close>

theorem roundNumber_rounds_half_up:
  assumes "list_all (\<lambda>d. d < 10) (pd p)" and "fraction_size p fs a b = f" and "0 \<le> f"
  shows "let q = roundNumber p fs a b in
    list_all (\<lambda>d. d < 10) (pd q) \<and> int (length (pd q)) = pint q + f \<and>
    int (dval (pd q)) = \<lfloor>of_nat (dval (pd p)) * pow10 (pint p - int (length (pd p)) + f) + 1 / 2\<rfloor>"
proof -
  obtain c es where ce: "carry_up (kept p f) = (c, es)"
    by fastforce
  have eq: "pint p - int (length (pd p)) + f = f + pint p - int (length (pd p))"
    by simp
  show ?thesis
    unfolding eq
    using carry_up_dval [OF kept_shape(1) [OF assms(3,1)]] kept_shape(2) [OF assms(3,1)] kept_value [OF assms(3,1)]
    by (auto simp: roundNumber_kept [OF assms(3,2)] ce Let_def)
qed

theorem roundNumber_rounds_half_up_witness:
  "let p = \<lparr>pd = [9, 9, 9, 5], pe = 0, pint = 1\<rparr>; q = roundNumber p (Some 2) 0 3 in
     int (length (pd q)) = pint q + 2 \<and> int (dval (pd q)) = 1000 \<and> q = \<lparr>pd = [1, 0, 0, 0], pe = 0, pint = 2\<rparr>"
proof -
  define p where "p = \<lparr>pd = [9, 9, 9, 5 :: nat], pe = 0, pint = 1\<rparr>"
  have "let q = roundNumber p (Some 2) 0 3 in
      list_all (\<lambda>d. d < 10) (pd q) \<and> int (length (pd q)) = pint q + 2 \<and>
      int (dval (pd q)) = \<lfloor>of_nat (dval (pd p)) * pow10 (pint p - int (length (pd p)) + 2) + 1 / 2\<rfloor>"
    by (rule roundNumber_rounds_half_up) (simp_all add: p_def fraction_size_def)
  moreover have "roundNumber p (Some 2) 0 3 = \<lparr>pd = [1, 0, 0, 0], pe = 0, pint = 2\<rparr>"
    unfolding p_def by code_simp
  ultimately show ?thesis
    by (simp add: Let_def p_def pow10_def)
qed

subsection \<open>Grouping\<close>

lemma digits_text_append: "digits_text (xs @ ys) = digits_text xs @ digits_text ys"
  by (simp add: digits_text_def)

lemma group_loop_concat: "concat (group_loop g ds acc) = digits_text ds @ concat acc"
proof (induction g ds acc rule: group_loop.induct)
  case (1 g ds acc)
  show ?case
  proof (cases "length ds > g \<and> g > 0")
    case True
    have "digits_text (take (length ds - g) ds) @ digits_text (drop (length ds - g) ds) = digits_text ds"
      by (simp flip: digits_text_append)
    then show ?thesis
      using 1 [OF True] True by (subst group_loop.simps) (simp flip: append_assoc)
  next
    case False
    then show ?thesis
      by (subst group_loop.simps) (auto simp: digits_text_def)
  qed
qed

text \<open>The groups \<open>gs\<close> that are put in front of \<open>acc\<close>: all but the first are full.\<close>

lemma group_loop_sizes:
  "\<exists>gs. group_loop g ds acc = gs @ acc \<and> (\<forall>x \<in> set (tl gs). length x = g) \<and> (g > 0 \<longrightarrow> (\<forall>x \<in> set gs. 0 < length x \<and> length x \<le> g))"
proof (induction g ds acc rule: group_loop.induct)
  case (1 g ds acc)
  show ?case
  proof (cases "length ds > g \<and> g > 0")
    case True
    then obtain gs where gs: "group_loop g (take (length ds - g) ds) (digits_text (drop (length ds - g) ds) # acc)
        = gs @ digits_text (drop (length ds - g) ds) # acc"
      "\<forall>x \<in> set (tl gs). length x = g" "\<forall>x \<in> set gs. 0 < length x \<and> length x \<le> g"
      using 1 [OF True] by auto
    then have "group_loop g ds acc = (gs @ [digits_text (drop (length ds - g) ds)]) @ acc"
      using True by (subst group_loop.simps) simp
    moreover have "length (digits_text (drop (length ds - g) ds)) = g"
      using True by (simp add: digits_text_def)
    ultimately show ?thesis
      using gs True by (intro exI [of _ "gs @ [digits_text (drop (length ds - g) ds)]"]) (cases gs; auto)
  next
    case False
    then show ?thesis
      by (subst group_loop.simps)
        (auto simp: digits_text_def intro: exI [of _ "[map (\<lambda>d. d + ZERO_CHAR) ds]"] exI [of _ "[]"])
  qed
qed

text \<open>
  Grouping the integer digits loses and repeats none: the groups concatenated are the digits, and
  when there are several groups the last has \<open>lgSize\<close> digits, those in the middle \<open>gSize\<close>, and the
  first between 1 and \<open>gSize\<close>.
\<close>

theorem groups_partition_digits:
  assumes "gSize pat > 0" and "lgSize pat > 0"
  shows "concat (groups pat ds) = digits_text ds \<and>
    (length (groups pat ds) > 1 \<longrightarrow>
       (length ds \<ge> lgSize pat \<longrightarrow> length (last (groups pat ds)) = lgSize pat) \<and>
       (\<forall>g \<in> set (butlast (tl (groups pat ds))). length g = gSize pat) \<and>
       0 < length (hd (groups pat ds)) \<and> length (hd (groups pat ds)) \<le> gSize pat)"
proof (cases "length ds \<ge> lgSize pat")
  case True
  define us where "us = take (length ds - lgSize pat) ds"
  define vs where "vs = digits_text (drop (length ds - lgSize pat) ds)"
  have g: "groups pat ds = group_loop (gSize pat) us [vs]"
    using True assms by (simp add: groups_def us_def vs_def)
  obtain gs where gs: "group_loop (gSize pat) us [vs] = gs @ [vs]" "\<forall>x \<in> set (tl gs). length x = gSize pat"
    "\<forall>x \<in> set gs. 0 < length x \<and> length x \<le> gSize pat"
    using group_loop_sizes [of "gSize pat" us "[vs]"] assms by auto
  have "digits_text us @ vs = digits_text ds"
    by (simp add: us_def vs_def flip: digits_text_append)
  moreover have "length vs = lgSize pat"
    using True by (simp add: vs_def digits_text_def)
  ultimately show ?thesis
    using group_loop_concat [of "gSize pat" us "[vs]"] gs unfolding g by (cases gs) auto
next
  case False
  then have g: "groups pat ds = group_loop (gSize pat) ds []"
    by (simp add: groups_def)
  obtain gs where gs: "group_loop (gSize pat) ds [] = gs" "\<forall>x \<in> set (tl gs). length x = gSize pat"
    "\<forall>x \<in> set gs. 0 < length x \<and> length x \<le> gSize pat"
    using group_loop_sizes [of "gSize pat" ds "[]"] assms by auto
  then show ?thesis
    using group_loop_concat [of "gSize pat" ds "[]"] False unfolding g
    by (cases gs) (auto dest: in_set_butlastD)
qed

theorem groups_partition_digits_witness:
  "concat (groups (PATTERN0 en_us_numbers) [1, 2, 3, 4, 5, 6, 7]) = J ''1234567''"
  using groups_partition_digits [of "PATTERN0 en_us_numbers" "[1, 2, 3, 4, 5, 6, 7]"]
  by (simp add: en_us_numbers_def digits_text_def ZERO_CHAR_def)

end
