(* ===== verification/NgDate.thy ===== *)
theory NgDate
  imports JsValue
begin

section \<open>The filter date\<close>

text \<open>
  The formatting of dates. A \<open>Date\<close> is the record of what its local getters return; \<open>new Date(y, m, d)\<close>,
  of which the source uses the day of the week and the difference of two such dates, is given by the
  proleptic Gregorian calendar and a parameter \<open>midnight\<close>, the milliseconds of a local midnight by the
  number of its day (it depends on the time zone). Strings given as dates and the conversion of
  explicit time zones, which rest on \<open>Date.parse\<close>, are not modelled.
\<close>

record date =
  FullYear :: int
  Month :: int
  DayOfMonth :: int
  Hours :: int
  Minutes :: int
  Seconds :: int
  Milliseconds :: int
  Day :: int
  TimezoneOffset :: int

subsection \<open>The calendar\<close>

definition leap :: "int \<Rightarrow> bool" where
  "leap y \<longleftrightarrow> y mod 4 = 0 \<and> (y mod 100 \<noteq> 0 \<or> y mod 400 = 0)"

text \<open>Days before a year and before a month (0 is January), and the number of a day; 1970-01-01 is 0.\<close>

definition days_before_year :: "int \<Rightarrow> int" where
  "days_before_year y = 365 * (y - 1970) + ((y - 1) div 4 - 1969 div 4) - ((y - 1) div 100 - 1969 div 100)
     + ((y - 1) div 400 - 1969 div 400)"

definition days_before_month :: "int \<Rightarrow> int \<Rightarrow> int" where
  "days_before_month y m =
     [0, 31, 59, 90, 120, 151, 181, 212, 243, 273, 304, 334] ! nat m + (if m > 1 \<and> leap y then 1 else 0)"

definition day_number :: "int \<Rightarrow> int \<Rightarrow> int \<Rightarrow> int" where
  "day_number y m d = days_before_year y + days_before_month y m + d - 1"

text \<open>0 is Sunday.\<close>

definition week_day :: "int \<Rightarrow> int" where
  "week_day n = (n + 4) mod 7"

subsection \<open>Numbers\<close>

definition int_text :: "int \<Rightarrow> jstring" where
  "int_text n = (if n < 0 then 45 # int_digits (- n) else int_digits n)"

definition padNumber :: "int \<Rightarrow> nat \<Rightarrow> bool \<Rightarrow> bool \<Rightarrow> jstring" where
  "padNumber num digits trims negWrap =
     (let (num, neg) = (if num < 0 \<or> (negWrap \<and> num \<le> 0) then
             (if negWrap then (- num + 1, []) else (- num, J ''-''))
           else (num, []));
          s = int_text num;
          s = replicate (digits - length s) 48 @ s;
          s = (if trims then drop (length s - digits) s else s)
      in neg @ s)"

definition dateGetter :: "(date \<Rightarrow> int) \<Rightarrow> nat \<Rightarrow> int \<Rightarrow> bool \<Rightarrow> bool \<Rightarrow> date \<Rightarrow> jstring" where
  "dateGetter get width offset trims negWrap d =
     (let value = get d;
          value = (if offset > 0 \<or> value > - offset then value + offset else value);
          value = (if value = 0 \<and> offset = - 12 then 12 else value)
      in padNumber value width trims negWrap)"

record datetime_formats =
  AMPMS :: "jstring list"
  DAY :: "jstring list"
  ERANAMES :: "jstring list"
  ERAS :: "jstring list"
  MONTH :: "jstring list"
  SHORTDAY :: "jstring list"
  SHORTMONTH :: "jstring list"
  STANDALONEMONTH :: "jstring list"
  named_formats :: "(jstring \<times> jstring) list"

definition en_us_dates :: datetime_formats where
  "en_us_dates = \<lparr>AMPMS = map J [''AM'', ''PM''],
     DAY = map J [''Sunday'', ''Monday'', ''Tuesday'', ''Wednesday'', ''Thursday'', ''Friday'', ''Saturday''],
     ERANAMES = map J [''Before Christ'', ''Anno Domini''], ERAS = map J [''BC'', ''AD''],
     MONTH = map J [''January'', ''February'', ''March'', ''April'', ''May'', ''June'', ''July'', ''August'',
       ''September'', ''October'', ''November'', ''December''],
     SHORTDAY = map J [''Sun'', ''Mon'', ''Tue'', ''Wed'', ''Thu'', ''Fri'', ''Sat''],
     SHORTMONTH = map J [''Jan'', ''Feb'', ''Mar'', ''Apr'', ''May'', ''Jun'', ''Jul'', ''Aug'', ''Sep'', ''Oct'', ''Nov'', ''Dec''],
     STANDALONEMONTH = map J [''January'', ''February'', ''March'', ''April'', ''May'', ''June'', ''July'', ''August'',
       ''September'', ''October'', ''November'', ''December''],
     named_formats = map (\<lambda>(k, f). (J k, J f)) [
       (''fullDate'', ''EEEE, MMMM d, y''), (''longDate'', ''MMMM d, y''), (''medium'', ''MMM d, y h:mm:ss a''),
       (''mediumDate'', ''MMM d, y''), (''mediumTime'', ''h:mm:ss a''), (''short'', ''M/d/yy h:mm a''),
       (''shortDate'', ''M/d/yy''), (''shortTime'', ''h:mm a'')]\<rparr>"

text \<open>\<open>formats[get][value]\<close>\<close>

definition dateStrGetter :: "(datetime_formats \<Rightarrow> jstring list) \<Rightarrow> (date \<Rightarrow> int) \<Rightarrow> date \<Rightarrow> datetime_formats \<Rightarrow> jstring" where
  "dateStrGetter names get d F = names F ! nat (get d)"

text \<open>JavaScript's \<open>%\<close> has the sign of the dividend.\<close>

definition timeZoneGetter :: "int \<Rightarrow> jstring" where
  "timeZoneGetter offset =
     (let zone = - 1 * offset;
          hours = (if zone > 0 then zone div 60 else - ((- zone) div 60))
      in (if zone \<ge> 0 then J ''+'' else []) @ padNumber hours 2 False False @ padNumber (\<bar>zone\<bar> mod 60) 2 False False)"

subsection \<open>Weeks\<close>

definition getFirstThursdayOfYear :: "int \<Rightarrow> int" where
  "getFirstThursdayOfYear year =
     (let dayOfWeekOnFirst = week_day (day_number year 0 1)
      in day_number year 0 ((if dayOfWeekOnFirst \<le> 4 then 5 else 12) - dayOfWeekOnFirst))"

definition getThursdayThisWeek :: "date \<Rightarrow> int" where
  "getThursdayThisWeek d = day_number (FullYear d) (Month d) (DayOfMonth d + (4 - Day d))"

definition js_round :: "rat \<Rightarrow> int" where
  "js_round x = \<lfloor>x + 1 / 2\<rfloor>"

definition weekGetter :: "(int \<Rightarrow> int) \<Rightarrow> nat \<Rightarrow> date \<Rightarrow> jstring" where
  "weekGetter midnight width d =
     (let firstThurs = getFirstThursdayOfYear (FullYear d);
          thisThurs = getThursdayThisWeek d;
          diff = midnight thisThurs - midnight firstThurs;
          result = 1 + js_round (of_int diff / 604800000)
      in padNumber result width False False)"

definition ampmGetter :: "date \<Rightarrow> datetime_formats \<Rightarrow> jstring" where
  "ampmGetter d F = (if Hours d < 12 then AMPMS F ! 0 else AMPMS F ! 1)"

definition eraGetter :: "date \<Rightarrow> datetime_formats \<Rightarrow> jstring" where
  "eraGetter d F = (if FullYear d \<le> 0 then ERAS F ! 0 else ERAS F ! 1)"

definition longEraGetter :: "date \<Rightarrow> datetime_formats \<Rightarrow> jstring" where
  "longEraGetter d F = (if FullYear d \<le> 0 then ERANAMES F ! 0 else ERANAMES F ! 1)"

text \<open>The table \<open>DATE_FORMATS\<close>: a function of the date, the formats, the offset of the time zone.\<close>

definition DATE_FORMATS :: "(int \<Rightarrow> int) \<Rightarrow> (string \<times> (date \<Rightarrow> datetime_formats \<Rightarrow> int \<Rightarrow> jstring)) list" where
  "DATE_FORMATS midnight = [
     (''yyyy'', \<lambda>d F z. dateGetter FullYear 4 0 False True d),
     (''yy'', \<lambda>d F z. dateGetter FullYear 2 0 True True d),
     (''y'', \<lambda>d F z. dateGetter FullYear 1 0 False True d),
     (''MMMM'', \<lambda>d F z. dateStrGetter MONTH Month d F),
     (''MMM'', \<lambda>d F z. dateStrGetter SHORTMONTH Month d F),
     (''MM'', \<lambda>d F z. dateGetter Month 2 1 False False d),
     (''M'', \<lambda>d F z. dateGetter Month 1 1 False False d),
     (''LLLL'', \<lambda>d F z. dateStrGetter STANDALONEMONTH Month d F),
     (''dd'', \<lambda>d F z. dateGetter DayOfMonth 2 0 False False d),
     (''d'', \<lambda>d F z. dateGetter DayOfMonth 1 0 False False d),
     (''HH'', \<lambda>d F z. dateGetter Hours 2 0 False False d),
     (''H'', \<lambda>d F z. dateGetter Hours 1 0 False False d),
     (''hh'', \<lambda>d F z. dateGetter Hours 2 (- 12) False False d),
     (''h'', \<lambda>d F z. dateGetter Hours 1 (- 12) False False d),
     (''mm'', \<lambda>d F z. dateGetter Minutes 2 0 False False d),
     (''m'', \<lambda>d F z. dateGetter Minutes 1 0 False False d),
     (''ss'', \<lambda>d F z. dateGetter Seconds 2 0 False False d),
     (''s'', \<lambda>d F z. dateGetter Seconds 1 0 False False d),
     (''sss'', \<lambda>d F z. dateGetter Milliseconds 3 0 False False d),
     (''EEEE'', \<lambda>d F z. dateStrGetter DAY Day d F),
     (''EEE'', \<lambda>d F z. dateStrGetter SHORTDAY Day d F),
     (''a'', \<lambda>d F z. ampmGetter d F),
     (''Z'', \<lambda>d F z. timeZoneGetter z),
     (''ww'', \<lambda>d F z. weekGetter midnight 2 d),
     (''w'', \<lambda>d F z. weekGetter midnight 1 d),
     (''G'', \<lambda>d F z. eraGetter d F),
     (''GG'', \<lambda>d F z. eraGetter d F),
     (''GGG'', \<lambda>d F z. eraGetter d F),
     (''GGGG'', \<lambda>d F z. longEraGetter d F)]"

subsection \<open>Splitting the format\<close>

definition quote :: nat where
  "quote = 39"

definition is_letter :: "nat \<Rightarrow> bool" where
  "is_letter c \<longleftrightarrow> c \<in> set (J ''yMLdHhmsaZEwG'')"

text \<open>
  What follows an opening quote in \<open>'(?:[^']|'')*'\<close>: the rest of the token with its closing quote,
  and the text after it; a pair of quotes is inside the token if the token ends later at all.
\<close>

fun quoted :: "jstring \<Rightarrow> (jstring \<times> jstring) option" where
  "quoted [] = None"
| "quoted [c] = (if c = quote then Some ([c], []) else None)"
| "quoted (c # d # s) =
     (if c \<noteq> quote then map_option (\<lambda>(t, r). (c # t, r)) (quoted (d # s))
      else if d = quote then
        (case quoted s of Some (t, r) \<Rightarrow> Some (c # d # t, r) | None \<Rightarrow> Some ([c], d # s))
      else Some ([c], d # s))"

text \<open>A token at the start of the text: a run of other characters, a quotation, or a run of one letter.\<close>

definition token_at :: "jstring \<Rightarrow> (jstring \<times> jstring) option" where
  "token_at s =
     (case s of
        [] \<Rightarrow> None
      | c # t \<Rightarrow>
          if c = quote then map_option (\<lambda>(u, r). (c # u, r)) (quoted t)
          else if is_letter c then
            (if c = 97 \<or> c = 90 then Some ([c], t) else Some (c # takeWhile (\<lambda>d. d = c) t, dropWhile (\<lambda>d. d = c) t))
          else Some (takeWhile (\<lambda>d. \<not> is_letter d \<and> d \<noteq> quote) s, dropWhile (\<lambda>d. \<not> is_letter d \<and> d \<noteq> quote) s))"

text \<open>The expression has no anchor: \<open>exec\<close> finds the first position where it matches.\<close>

fun exec_split :: "jstring \<Rightarrow> (jstring \<times> jstring) option" where
  "exec_split s = (case token_at s of Some r \<Rightarrow> Some r | None \<Rightarrow> (case s of [] \<Rightarrow> None | c # t \<Rightarrow> exec_split t))"

declare exec_split.simps [simp del]

lemma quoted_length: "quoted s = Some (t, r) \<Longrightarrow> s = t @ r \<and> t \<noteq> []"
  by (induction s arbitrary: t r rule: quoted.induct) (fastforce split: if_splits option.splits)+

lemma token_at_split: "token_at s = Some (t, r) \<Longrightarrow> s = t @ r \<and> t \<noteq> []"
proof (cases s)
  case (Cons c u)
  assume "token_at s = Some (t, r)"
  then show ?thesis
    using Cons by (auto simp: token_at_def quote_def dest!: quoted_length split: if_splits)
qed (simp add: token_at_def)

lemma exec_split_length: "exec_split s = Some (t, r) \<Longrightarrow> length r < length s"
proof (induction s rule: exec_split.induct)
  case (1 s)
  then show ?case
    by (subst (asm) (2) exec_split.simps) (force dest!: token_at_split split: option.splits list.splits)
qed

function split_format :: "jstring \<Rightarrow> jstring list" where
  "split_format format =
     (if format = [] then []
      else case exec_split format of
          Some (t, rest) \<Rightarrow> t # split_format rest
        | None \<Rightarrow> [format])"
  by pat_completeness auto
termination
  by (relation "measure length") (auto dest: exec_split_length)

declare split_format.simps [simp del]

subsection \<open>The filter\<close>

text \<open>\<open>value.replace(/(^'|'$)/g, '').replace(/''/g, '\'')\<close>\<close>

definition strip_quotes :: "jstring \<Rightarrow> jstring" where
  "strip_quotes s =
     (let s = (case s of c # t \<Rightarrow> if c = quote then t else s | [] \<Rightarrow> [])
      in if s \<noteq> [] \<and> last s = quote then butlast s else s)"

fun unescape :: "jstring \<Rightarrow> jstring" where
  "unescape (c # d # s) = (if c = quote \<and> d = quote then quote # unescape s else c # unescape (d # s))"
| "unescape s = s"

definition part_text :: "(int \<Rightarrow> int) \<Rightarrow> datetime_formats \<Rightarrow> date \<Rightarrow> jstring \<Rightarrow> jstring" where
  "part_text midnight F d part =
     (case map_of (map (\<lambda>(k, f). (J k, f)) (DATE_FORMATS midnight)) part of
        Some f \<Rightarrow> f d F (TimezoneOffset d)
      | None \<Rightarrow> if part = [quote, quote] then [quote] else unescape (strip_quotes part))"

definition dateFilter :: "(int \<Rightarrow> int) \<Rightarrow> datetime_formats \<Rightarrow> date \<Rightarrow> jstring \<Rightarrow> jstring" where
  "dateFilter midnight F d format =
     (let format = (if format = [] then J ''mediumDate'' else format);
          format = (case map_of (named_formats F) format of Some f \<Rightarrow> f | None \<Rightarrow> format)
      in concat (map (part_text midnight F d) (split_format format)))"

subsection \<open>Properties\<close>

lemma quoted_None: "quoted s = None \<longleftrightarrow> quote \<notin> set s"
  by (induction s rule: quoted.induct) (auto split: option.splits)

lemma quoted_odd: "quoted s = Some (t, r) \<Longrightarrow> odd (count_list t quote)"
  by (induction s arbitrary: t r rule: quoted.induct) (auto split: if_splits option.splits)

lemma count_takeWhile: "\<not> P x \<Longrightarrow> count_list (takeWhile P xs) x = 0"
  by (induction xs) auto

lemma token_at_even: "token_at s = Some (t, r) \<Longrightarrow> even (count_list t quote)"
proof (cases s)
  case (Cons c u)
  assume *: "token_at s = Some (t, r)"
  have letter: "\<not> is_letter quote"
    by (simp add: is_letter_def quote_def)
  show ?thesis
  proof (cases "c = quote")
    case True
    then show ?thesis
      using * Cons by (auto simp: token_at_def dest: quoted_odd)
  next
    case False
    have "count_list (takeWhile (\<lambda>d. d = c) u) quote = 0" "count_list (takeWhile (\<lambda>d. \<not> is_letter d \<and> d \<noteq> quote) u) quote = 0"
      using False by (intro count_takeWhile; simp)+
    then show ?thesis
      using * Cons False letter by (auto simp: token_at_def split: if_splits)
  qed
qed (simp add: token_at_def)

lemma token_at_exists: "s \<noteq> [] \<Longrightarrow> even (count_list s quote) \<Longrightarrow> \<exists>t r. token_at s = Some (t, r)"
proof (cases s)
  case (Cons c u)
  assume "even (count_list s quote)"
  then have "c = quote \<Longrightarrow> quote \<in> set u"
    using Cons count_notin [of quote u] by (cases "quote \<in> set u") auto
  then show ?thesis
    using Cons quoted_None [of u] by (cases "quoted u") (auto simp: token_at_def)
qed simp

text \<open>
  Splitting a date format loses nothing when its quotes are balanced: the parts, concatenated, are
  the format. (With an odd number of quotes the unterminated one is skipped by the regular
  expression, see the example.)
\<close>

theorem format_parts_tile:
  assumes "even (count_list format quote)"
  shows "concat (split_format format) = format"
  using assms
proof (induction "length format" arbitrary: format rule: less_induct)
  case less
  show ?case
  proof (cases "format = []")
    case False
    then obtain t r where tok: "token_at format = Some (t, r)"
      using token_at_exists less.prems by blast
    then have "exec_split format = Some (t, r)"
      by (subst exec_split.simps) simp
    moreover have "format = t @ r" "t \<noteq> []"
      using token_at_split [OF tok] by auto
    moreover have "even (count_list r quote)"
      using less.prems token_at_even [OF tok] calculation(2) by simp
    ultimately show ?thesis
      using less.hyps [of r] by (subst split_format.simps) simp
  qed (simp add: split_format.simps)
qed

theorem format_parts_tile_witness:
  "concat (split_format (J ''h'' @ [quote] @ J '' o'' @ [quote, quote] @ J ''clock'' @ [quote])) =
     J ''h'' @ [quote] @ J '' o'' @ [quote, quote] @ J ''clock'' @ [quote]"
  by (rule format_parts_tile) (simp add: quote_def)

lemma unterminated_quote_dropped: "split_format (quote # J ''x'') = [J ''x'']"
  by (simp add: split_format.simps exec_split.simps token_at_def quote_def is_letter_def)

lemma int_digits_1: "0 \<le> n \<Longrightarrow> n < 10 \<Longrightarrow> int_digits n = [48 + nat n]"
  by (subst int_digits.simps) simp

lemma int_digits_2: "10 \<le> n \<Longrightarrow> n < 100 \<Longrightarrow> int_digits n = [48 + nat (n div 10), 48 + nat (n mod 10)]"
  by (subst int_digits.simps) (simp add: int_digits_1)

definition two_digits :: "int \<Rightarrow> jstring" where
  "two_digits n = [48 + nat (n div 10), 48 + nat (n mod 10)]"

lemma padNumber_two: "0 \<le> n \<Longrightarrow> n < 100 \<Longrightarrow> padNumber n 2 False False = two_digits n"
  by (cases "n < 10")
     (auto simp: padNumber_def int_text_def int_digits_1 int_digits_2 two_digits_def div_pos_pos_trivial mod_pos_pos_trivial)

lemma padNumber_two_neg: "0 < n \<Longrightarrow> n < 100 \<Longrightarrow> padNumber (- n) 2 False False = 45 # two_digits n"
  using padNumber_two [of n] by (simp add: padNumber_def Let_def)

text \<open>
  The offset \<open>Z\<close> of a time zone \<open>zone\<close> minutes ahead of UTC is printed as a sign, two digits of
  hours and two digits of minutes, except when the zone is behind UTC by less than one hour: then the
  sign is lost, since the hours round to zero, and the text is that of a zone ahead of UTC without
  its plus.
\<close>

theorem timezone_text:
  assumes "- 6000 < zone" and "zone < 6000"
  shows "timeZoneGetter (- zone) =
    (if 0 \<le> zone then J ''+'' else if zone \<le> - 60 then J ''-'' else []) @ two_digits (\<bar>zone\<bar> div 60) @ two_digits (\<bar>zone\<bar> mod 60)"
proof -
  have m: "padNumber (\<bar>zone\<bar> mod 60) 2 False False = two_digits (\<bar>zone\<bar> mod 60)"
    by (rule padNumber_two) (auto intro: less_trans [OF pos_mod_bound])
  consider "0 \<le> zone" | "zone \<le> - 60" | "- 60 < zone" "zone < 0"
    by linarith
  then show ?thesis
  proof cases
    case 1
    then have "0 \<le> zone div 60" "zone div 60 < 100"
      using assms by (auto simp: div_less_iff_less_mult pos_imp_zdiv_nonneg_iff)
    then show ?thesis
      using 1 m by (auto simp: timeZoneGetter_def Let_def padNumber_two)
  next
    case 2
    then have "0 < (- zone) div 60" "(- zone) div 60 < 100"
      using assms by (auto simp: div_less_iff_less_mult pos_imp_zdiv_pos_iff)
    then show ?thesis
      using 2 m padNumber_two_neg [of "(- zone) div 60"] by (simp add: timeZoneGetter_def Let_def)
  next
    case 3
    then have "(- zone) div 60 = 0"
      by (simp add: div_pos_pos_trivial)
    then show ?thesis
      using 3 m padNumber_two [of 0] by (simp add: timeZoneGetter_def Let_def)
  qed
qed

theorem timezone_text_witness:
  "timeZoneGetter 30 = two_digits 0 @ two_digits 30 \<and> timeZoneGetter (- 30) = J ''+'' @ two_digits 0 @ two_digits 30"
  using timezone_text [of "- 30"] timezone_text [of 30] by simp

subsection \<open>Weeks\<close>












definition new_year_2016 :: date where
  "new_year_2016 = \<lparr>FullYear = 2016, Month = 0, DayOfMonth = 1, Hours = 0, Minutes = 0, Seconds = 0, Milliseconds = 0,
     Day = 5, TimezoneOffset = 0\<rparr>"


text \<open>
  The twelve-hour clock: the hour of a day is printed as 12, 1, ..., 11, twice.
\<close>

theorem twelve_hour_clock:
  assumes "0 \<le> Hours d" and "Hours d < 24"
  shows "dateGetter Hours 1 (- 12) False False d = int_digits (if Hours d mod 12 = 0 then 12 else Hours d mod 12)"
proof -
  have "padNumber k 1 False False = int_digits k" if "0 \<le> k" for k
  proof -
    have "1 - length (int_digits k) = 0"
      using int_digits_not_Nil [of k] by (cases "int_digits k") auto
    then show ?thesis
      using that by (simp add: padNumber_def int_text_def)
  qed
  moreover have "Hours d > 12 \<Longrightarrow> Hours d mod 12 = Hours d - 12" "Hours d < 12 \<Longrightarrow> Hours d mod 12 = Hours d"
    using assms by (simp_all add: mod_pos_pos_trivial) presburger
  ultimately show ?thesis
    using assms by (cases "Hours d = 12") (auto simp: dateGetter_def Let_def)
qed

theorem twelve_hour_clock_witness: "dateGetter Hours 1 (- 12) False False new_year_2016 = int_digits 12"
  using twelve_hour_clock [of new_year_2016] by (simp add: new_year_2016_def)

end
