(* ===== verification/NgUri.thy ===== *)
theory NgUri
  imports JsValue
begin

section \<open>URI components and query strings\<close>

text \<open>
  \<open>encodeUriQuery\<close>, \<open>encodeUriSegment\<close>, \<open>parseKeyValue\<close> and \<open>toKeyValue\<close> over the functions
  \<open>encodeURIComponent\<close> and \<open>decodeURIComponent\<close> of the language, which are defined here with their
  UTF-8 and UTF-16 conversions: a string is a list of UTF-16 code units, \<open>None\<close> is a \<open>URIError\<close>.
\<close>

subsection \<open>Code points\<close>

definition high_surrogate :: "nat \<Rightarrow> bool" where
  "high_surrogate c \<longleftrightarrow> 0xD800 \<le> c \<and> c < 0xDC00"

definition low_surrogate :: "nat \<Rightarrow> bool" where
  "low_surrogate c \<longleftrightarrow> 0xDC00 \<le> c \<and> c < 0xE000"

definition scalar :: "nat \<Rightarrow> bool" where
  "scalar c \<longleftrightarrow> c < 0x110000 \<and> \<not> high_surrogate c \<and> \<not> low_surrogate c"

fun code_points :: "jstring \<Rightarrow> nat list option" where
  "code_points [] = Some []"
| "code_points (c # s) =
     (if low_surrogate c then None
      else if high_surrogate c then
        (case s of
           [] \<Rightarrow> None
         | d # t \<Rightarrow> if low_surrogate d
             then map_option ((#) (0x10000 + (c - 0xD800) * 0x400 + (d - 0xDC00))) (code_points t) else None)
      else map_option ((#) c) (code_points s))"

definition units :: "nat \<Rightarrow> jstring" where
  "units c = (if c < 0x10000 then [c] else [0xD800 + (c - 0x10000) div 0x400, 0xDC00 + (c - 0x10000) mod 0x400])"

definition well_formed :: "jstring \<Rightarrow> bool" where
  "well_formed s \<longleftrightarrow> (\<forall>c \<in> set s. c < 0x10000) \<and> code_points s \<noteq> None"

subsection \<open>encodeURIComponent\<close>

definition utf8 :: "nat \<Rightarrow> nat list" where
  "utf8 c =
     (if c < 0x80 then [c]
      else if c < 0x800 then [0xC0 + c div 0x40, 0x80 + c mod 0x40]
      else if c < 0x10000 then [0xE0 + c div 0x1000, 0x80 + c div 0x40 mod 0x40, 0x80 + c mod 0x40]
      else [0xF0 + c div 0x40000, 0x80 + c div 0x1000 mod 0x40, 0x80 + c div 0x40 mod 0x40, 0x80 + c mod 0x40])"

definition hexdig :: "nat \<Rightarrow> nat" where
  "hexdig n = (if n < 10 then 48 + n else 55 + n)"

definition pct :: "nat \<Rightarrow> jstring" where
  "pct b = [37, hexdig (b div 16), hexdig (b mod 16)]"

definition unreserved :: "nat \<Rightarrow> bool" where
  "unreserved c \<longleftrightarrow> 48 \<le> c \<and> c \<le> 57 \<or> 65 \<le> c \<and> c \<le> 90 \<or> 97 \<le> c \<and> c \<le> 122 \<or>
     c \<in> {45, 95, 46, 33, 126, 42, 39, 40, 41}"

definition encode_point :: "nat \<Rightarrow> jstring list" where
  "encode_point c = (if unreserved c then [[c]] else map pct (utf8 c))"

definition encodeURIComponent :: "jstring \<Rightarrow> jstring option" where
  "encodeURIComponent s = map_option (\<lambda>cs. concat (concat (map encode_point cs))) (code_points s)"

subsection \<open>decodeURIComponent\<close>

definition byte_at :: "jstring \<Rightarrow> (nat \<times> jstring) option" where
  "byte_at s =
     (case s of
        c # d # e # t \<Rightarrow>
          if c = 37 then (case (hex_val d, hex_val e) of (Some m, Some n) \<Rightarrow> Some (16 * m + n, t) | _ \<Rightarrow> None) else None
      | _ \<Rightarrow> None)"

text \<open>\<open>continuation n acc s\<close> reads \<open>n\<close> further bytes of a sequence.\<close>

fun continuation :: "nat \<Rightarrow> nat \<Rightarrow> jstring \<Rightarrow> (nat \<times> jstring) option" where
  "continuation 0 acc s = Some (acc, s)"
| "continuation (Suc n) acc s =
     (case byte_at s of
        Some (b, t) \<Rightarrow> if b div 0x40 = 2 then continuation n (acc * 0x40 + b mod 0x40) t else None
      | None \<Rightarrow> None)"

definition sequence_at :: "jstring \<Rightarrow> (nat \<times> jstring) option" where
  "sequence_at s =
     (case byte_at s of
        None \<Rightarrow> None
      | Some (b, t) \<Rightarrow>
          if b < 0x80 then Some (b, t)
          else (case (if b div 0x20 = 6 then Some (1, b mod 0x20, 0x80)
                      else if b div 0x10 = 14 then Some (2, b mod 0x10, 0x800)
                      else if b div 8 = 30 then Some (3, b mod 8, 0x10000) else None) of
              None \<Rightarrow> None
            | Some (n, acc, least) \<Rightarrow>
                (case continuation n acc t of
                   Some (c, r) \<Rightarrow> if least \<le> c \<and> scalar c then Some (c, r) else None
                 | None \<Rightarrow> None)))"

lemma byte_at_length: "byte_at s = Some (b, t) \<Longrightarrow> length t < length s"
  by (auto simp: byte_at_def split: list.splits option.splits if_splits)

lemma continuation_length: "continuation n acc s = Some (c, t) \<Longrightarrow> length t \<le> length s"
  by (induction n arbitrary: acc s) (fastforce dest: byte_at_length split: option.splits if_splits)+

lemma sequence_at_length: "sequence_at s = Some (c, t) \<Longrightarrow> length t < length s"
  by (auto simp: sequence_at_def dest!: byte_at_length continuation_length split: option.splits if_splits)

function decodeURIComponent :: "jstring \<Rightarrow> jstring option" where
  "decodeURIComponent s =
     (case s of
        [] \<Rightarrow> Some []
      | c # t \<Rightarrow>
          if c \<noteq> 37 then map_option ((#) c) (decodeURIComponent t)
          else (case sequence_at s of
              Some (p, r) \<Rightarrow> map_option ((@) (units p)) (decodeURIComponent r)
            | None \<Rightarrow> None))"
  by pat_completeness auto
termination
  by (relation "measure length") (auto dest: sequence_at_length)

declare decodeURIComponent.simps [simp del]

text \<open>\<open>tryDecodeURIComponent\<close>: \<open>None\<close> is \<open>undefined\<close>.\<close>

definition tryDecodeURIComponent :: "jstring \<Rightarrow> jstring option" where
  "tryDecodeURIComponent v = decodeURIComponent v"

subsection \<open>Escapes of the framework\<close>

definition upper :: "nat \<Rightarrow> nat" where
  "upper c = (if 97 \<le> c \<and> c \<le> 122 then c - 32 else c)"

text \<open>\<open>s.replace(/%hl/g, r)\<close>, with \<open>/gi\<close> when \<open>ci\<close>.\<close>

fun replace_pct :: "bool \<Rightarrow> nat \<Rightarrow> nat \<Rightarrow> jstring \<Rightarrow> jstring \<Rightarrow> jstring" where
  "replace_pct ci h l r (c # d # e # s) =
     (if c = 37 \<and> (if ci then upper d else d) = h \<and> (if ci then upper e else e) = l then r @ replace_pct ci h l r s
      else c # replace_pct ci h l r (d # e # s))"
| "replace_pct ci h l r s = s"

definition encodeUriQuery :: "jstring \<Rightarrow> bool \<Rightarrow> jstring option" where
  "encodeUriQuery v pctEncodeSpaces =
     map_option (\<lambda>s.
       replace_pct False 50 48 (if pctEncodeSpaces then pct 32 else J ''+'')
         (replace_pct False 51 66 (J '';'') (replace_pct False 50 67 (J '','') (replace_pct False 50 52 (J ''$'')
           (replace_pct True 51 65 (J '':'') (replace_pct True 52 48 (J ''@'') s))))))
       (encodeURIComponent v)"

definition encodeUriSegment :: "jstring \<Rightarrow> jstring option" where
  "encodeUriSegment v =
     map_option (\<lambda>s. replace_pct True 50 66 (J ''+'') (replace_pct True 51 68 (J ''='') (replace_pct True 50 54 (J ''&'') s)))
       (encodeUriQuery v True)"

subsection \<open>Query strings\<close>

text \<open>The value of a key: \<open>true\<close> or a string (\<open>undefined\<close> when it cannot be decoded), or an array of them.\<close>

datatype qitem = QTrue | QText jstring | QUndefined

datatype qvalue = One qitem | Many "qitem list"

text \<open>The own properties of an object in the order in which the language enumerates them.\<close>

type_synonym qobject = "(jstring \<times> qvalue) list"

definition replace_plus :: "jstring \<Rightarrow> jstring" where
  "replace_plus s = concat (map (\<lambda>c. if c = 43 then pct 32 else [c]) s)"

text \<open>
  The assignments to \<open>obj[key]\<close>. The setter of \<open>__proto__\<close> ignores what is no object, so that key
  never becomes an own property.
\<close>

definition add_item :: "jstring \<Rightarrow> qitem \<Rightarrow> qobject \<Rightarrow> qobject" where
  "add_item k v obj =
     (if k = J ''__proto__'' then obj else case map_of obj k of
        None \<Rightarrow> obj @ [(k, One v)]
      | Some (Many vs) \<Rightarrow> AList.update k (Many (vs @ [v])) obj
      | Some (One w) \<Rightarrow> AList.update k (Many [w, v]) obj)"

definition parse_pair :: "jstring \<Rightarrow> qobject \<Rightarrow> qobject" where
  "parse_pair kv obj =
     (if kv = [] then obj
      else
        (let kv = replace_plus kv;
             (key, val) = (if 61 \<in> set kv
               then (takeWhile (\<lambda>c. c \<noteq> 61) kv, Some (tl (dropWhile (\<lambda>c. c \<noteq> 61) kv))) else (kv, None))
         in case tryDecodeURIComponent key of
              None \<Rightarrow> obj
            | Some k \<Rightarrow> add_item k
                (case val of None \<Rightarrow> QTrue | Some v \<Rightarrow> (case tryDecodeURIComponent v of Some t \<Rightarrow> QText t | None \<Rightarrow> QUndefined)) obj))"

definition parseKeyValue :: "jstring \<Rightarrow> qobject" where
  "parseKeyValue s = fold parse_pair (split_on 38 s) []"

definition encode_item :: "jstring \<Rightarrow> qitem \<Rightarrow> jstring option" where
  "encode_item key v =
     (case v of
        QTrue \<Rightarrow> encodeUriQuery key True
      | QText t \<Rightarrow> (case (encodeUriQuery key True, encodeUriQuery t True) of
            (Some a, Some b) \<Rightarrow> Some (a @ 61 # b) | _ \<Rightarrow> None)
      | QUndefined \<Rightarrow> map_option (\<lambda>a. a @ 61 # J ''undefined'') (encodeUriQuery key True))"

fun sequence_opt :: "'a option list \<Rightarrow> 'a list option" where
  "sequence_opt [] = Some []"
| "sequence_opt (x # xs) = (case (x, sequence_opt xs) of (Some a, Some as) \<Rightarrow> Some (a # as) | _ \<Rightarrow> None)"

definition items_of :: "qvalue \<Rightarrow> qitem list" where
  "items_of v = (case v of One i \<Rightarrow> [i] | Many is \<Rightarrow> is)"

definition truthy_value :: "qvalue \<Rightarrow> bool" where
  "truthy_value v = (case v of One (QText t) \<Rightarrow> t \<noteq> [] | One QUndefined \<Rightarrow> False | _ \<Rightarrow> True)"

text \<open>
  \<open>forEach\<close> calls a truthy property \<open>forEach\<close> of the object it iterates over, which is no function
  here: a \<open>TypeError\<close>.
\<close>

definition has_forEach :: "qobject \<Rightarrow> bool" where
  "has_forEach obj = (case map_of obj (J ''forEach'') of Some v \<Rightarrow> truthy_value v | None \<Rightarrow> False)"

definition toKeyValue :: "qobject \<Rightarrow> jstring option" where
  "toKeyValue obj =
     (if has_forEach obj then None
      else map_option (join_with [38])
        (sequence_opt (concat (map (\<lambda>(k, v). map (encode_item k) (items_of v)) obj))))"

subsection \<open>UTF-8 and UTF-16\<close>

lemma hex_val_hexdig: "n < 16 \<Longrightarrow> hex_val (hexdig n) = Some n"
  by (auto simp: hex_val_def hexdig_def)

lemma byte_at_pct: "b < 256 \<Longrightarrow> byte_at (pct b @ s) = Some (b, s)"
  by (simp add: byte_at_def pct_def hex_val_hexdig less_mult_imp_div_less)

lemma decode_char: "c \<noteq> 37 \<Longrightarrow> decodeURIComponent (c # s) = map_option ((#) c) (decodeURIComponent s)"
  by (subst decodeURIComponent.simps) simp

lemma decode_nil [simp]: "decodeURIComponent [] = Some []"
  by (subst decodeURIComponent.simps) simp

lemma decode_sequence:
  "sequence_at (37 # s) = Some (p, r) \<Longrightarrow> decodeURIComponent (37 # s) = map_option ((@) (units p)) (decodeURIComponent r)"
  by (subst decodeURIComponent.simps) simp

text \<open>The bytes of a sequence: a lead byte \<open>a + x\<close> and continuation bytes \<open>128 + y\<close>.\<close>

lemma offset_div_mod: "x < n \<Longrightarrow> (k * n + x) div n = k \<and> (k * n + x) mod n = (x::nat)"
  by simp

lemma continuation_byte: "y < 64 \<Longrightarrow> (128 + y) div 64 = 2 \<and> (128 + y) mod 64 = (y::nat)"
  using offset_div_mod [of y 64 2] by simp

lemma continuation_step:
  "y < 64 \<Longrightarrow> continuation (Suc n) acc (pct (128 + y) @ s) = continuation n (acc * 64 + y) s"
  using continuation_byte [of y] by (simp add: byte_at_pct)

lemma lead_bytes:
  "x < 32 \<Longrightarrow> (192 + x) div 32 = 6 \<and> (192 + x) mod 32 = (x::nat)"
  "x < 16 \<Longrightarrow> (224 + x) div 32 = 7 \<and> (224 + x) div 16 = 14 \<and> (224 + x) mod 16 = x"
  "x < 8 \<Longrightarrow> (240 + x) div 32 = 7 \<and> (240 + x) div 16 = 15 \<and> (240 + x) div 8 = 30 \<and> (240 + x) mod 8 = x"
  using offset_div_mod [of x 32 6] offset_div_mod [of x 32 7] offset_div_mod [of "16 + x" 32 7]
    offset_div_mod [of x 16 14] offset_div_mod [of x 16 15] offset_div_mod [of x 8 30]
  by simp_all

lemma six_bits:
  fixes c :: nat
  shows "c div 4096 * 64 + c div 64 mod 64 = c div 64"
    "c div 262144 * 64 + c div 4096 mod 64 = c div 4096"
    "c div 64 * 64 + c mod 64 = c"
proof -
  have "c div 4096 = c div 64 div 64" "c div 262144 = c div 4096 div 64"
    by (simp_all add: div_mult2_eq [symmetric])
  then show "c div 4096 * 64 + c div 64 mod 64 = c div 64"
    "c div 262144 * 64 + c div 4096 mod 64 = c div 4096" "c div 64 * 64 + c mod 64 = c"
    by simp_all
qed

lemma sequence_at_utf8:
  assumes "scalar c"
  shows "sequence_at (concat (map pct (utf8 c)) @ s) = Some (c, s)"
proof -
  consider "c < 128" | "128 \<le> c" "c < 2048" | "2048 \<le> c" "c < 65536" | "65536 \<le> c" "c < 1114112"
    using assms unfolding scalar_def by linarith
  then show ?thesis
  proof cases
    case 1
    then show ?thesis
      by (simp add: utf8_def sequence_at_def byte_at_pct)
  next
    case 2
    then have "c div 64 < 32"
      by (simp add: less_mult_imp_div_less)
    then show ?thesis
      using 2 assms lead_bytes(1) [of "c div 64"]
      by (simp add: utf8_def sequence_at_def byte_at_pct continuation_step six_bits del: continuation.simps(2))
  next
    case 3
    then have "c div 4096 < 16"
      by (simp add: less_mult_imp_div_less)
    then show ?thesis
      using 3 assms lead_bytes(2) [of "c div 4096"]
      by (simp add: utf8_def sequence_at_def byte_at_pct continuation_step six_bits numeral_2_eq_2 del: continuation.simps(2))
  next
    case 4
    then have "c div 262144 < 8"
      by (simp add: less_mult_imp_div_less)
    then show ?thesis
      using 4 assms lead_bytes(3) [of "c div 262144"]
      by (simp add: utf8_def sequence_at_def byte_at_pct continuation_step six_bits numeral_3_eq_3 del: continuation.simps(2))
  qed
qed

lemma utf8_text: "\<exists>t. concat (map pct (utf8 c)) = 37 # t"
  by (simp add: utf8_def pct_def)

lemma decode_utf8:
  assumes "scalar c"
  shows "decodeURIComponent (concat (map pct (utf8 c)) @ s) = map_option ((@) (units c)) (decodeURIComponent s)"
  using sequence_at_utf8 [OF assms, of s] decode_sequence utf8_text [of c] by fastforce

lemma code_points_sound:
  "code_points s = Some cs \<Longrightarrow> \<forall>c \<in> set s. c < 0x10000 \<Longrightarrow> (\<forall>c \<in> set cs. scalar c) \<and> concat (map units cs) = s"
proof (induction s arbitrary: cs rule: code_points.induct)
  case (2 c s)
  show ?case
  proof (cases "high_surrogate c")
    case False
    with 2(3) obtain ds where l: "\<not> low_surrogate c" and ds: "code_points s = Some ds" "cs = c # ds"
      by (auto split: if_splits)
    have "(\<forall>c \<in> set ds. scalar c) \<and> concat (map units ds) = s"
      by (rule 2(2) [OF l False ds(1)]) (use 2(4) in simp)
    moreover have "scalar c" "units c = [c]"
      using 2(4) False l by (simp_all add: scalar_def units_def)
    ultimately show ?thesis
      using ds by simp
  next
    case True
    with 2(3) obtain d t ds where s: "s = d # t" "low_surrogate d" "code_points t = Some ds"
      and cs: "cs = (0x10000 + (c - 0xD800) * 0x400 + (d - 0xDC00)) # ds"
      by (auto split: if_splits list.splits)
    have "\<not> low_surrogate c"
      using True by (simp add: high_surrogate_def low_surrogate_def)
    have IH: "(\<forall>c \<in> set ds. scalar c) \<and> concat (map units ds) = t"
      by (rule 2(1) [OF \<open>\<not> low_surrogate c\<close> True s(1,2,3)]) (use 2(4) s in simp)
    define x where "x = c - 0xD800"
    define y where "y = d - 0xDC00"
    have "c = 0xD800 + x \<and> x < 0x400 \<and> d = 0xDC00 + y \<and> y < 0x400"
      using True s(2) unfolding high_surrogate_def low_surrogate_def x_def y_def by linarith
    then have xy: "c = 0xD800 + x" "x < 0x400" "d = 0xDC00 + y" "y < 0x400"
      by auto
    define p where "p = 0x10000 + x * 0x400 + y"
    have p: "0x10000 \<le> p" "p < 0x110000" "p - 0x10000 = x * 0x400 + y"
      using xy by (simp_all add: p_def)
    have "scalar p"
      using p by (simp add: scalar_def high_surrogate_def low_surrogate_def)
    moreover have "units p = [c, d]"
      using p offset_div_mod [of y "0x400" x] xy by (simp add: units_def)
    moreover have "cs = p # ds"
      using cs xy(1) xy(3) by (simp add: p_def)
    ultimately show ?thesis
      using IH s(1) by simp
  qed
qed simp

subsection \<open>Escaped texts\<close>

text \<open>
  An escaping keeps some characters of the ASCII range and writes every other code point as the
  escaped bytes of its UTF-8 form. \<open>decodeURIComponent\<close> undoes any such escaping.
\<close>

definition escape_point :: "(nat \<Rightarrow> bool) \<Rightarrow> nat \<Rightarrow> jstring" where
  "escape_point keep c = (if keep c then [c] else concat (map pct (utf8 c)))"

definition escape_points :: "(nat \<Rightarrow> bool) \<Rightarrow> nat list \<Rightarrow> jstring" where
  "escape_points keep cs = concat (map (escape_point keep) cs)"

lemma escape_points_simps [simp]:
  "escape_points keep [] = []"
  "escape_points keep (c # cs) = escape_point keep c @ escape_points keep cs"
  by (simp_all add: escape_points_def)

definition hex_char :: "nat \<Rightarrow> bool" where
  "hex_char c \<longleftrightarrow> 48 \<le> c \<and> c \<le> 57 \<or> 65 \<le> c \<and> c \<le> 70"

lemma hexdig_char: "n < 16 \<Longrightarrow> hex_char (hexdig n)"
  by (auto simp: hexdig_def hex_char_def)

lemma pct_chars: "b < 256 \<Longrightarrow> d \<in> set (pct b) \<Longrightarrow> d = 37 \<or> hex_char d"
  using hexdig_char [of "b div 16"] hexdig_char [of "b mod 16"]
  by (auto simp: pct_def less_mult_imp_div_less)

lemma utf8_bytes: "scalar c \<Longrightarrow> b \<in> set (utf8 c) \<Longrightarrow> b < 256"
proof -
  assume c: "scalar c" and b: "b \<in> set (utf8 c)"
  have "c div 262144 < 8" "c < 65536 \<Longrightarrow> c div 4096 < 16" "c < 2048 \<Longrightarrow> c div 64 < 32"
    using c by (simp_all add: scalar_def less_mult_imp_div_less)
  moreover have "c div 4096 mod 64 < 64" "c div 64 mod 64 < 64" "c mod 64 < 64"
    by simp_all
  ultimately show ?thesis
    using b by (auto simp: utf8_def split: if_splits)
qed

locale uri_escape =
  fixes keep :: "nat \<Rightarrow> bool"
  assumes keep_ascii: "keep c \<Longrightarrow> c < 128 \<and> c \<noteq> 37"
begin

lemma decode_escaped:
  "\<forall>c \<in> set cs. scalar c \<Longrightarrow> decodeURIComponent (escape_points keep cs) = Some (concat (map units cs))"
proof (induction cs)
  case (Cons c cs)
  then show ?case
    using keep_ascii [of c] by (auto simp: escape_point_def decode_char decode_utf8 units_def)
qed simp

lemma escaped_chars:
  assumes "\<forall>c \<in> set cs. scalar c" "d \<in> set (escape_points keep cs)"
  shows "keep d \<or> d = 37 \<or> hex_char d"
  using assms by (auto simp: escape_points_def escape_point_def dest!: pct_chars [OF utf8_bytes] split: if_splits)

lemma escaped_empty: "escape_points keep cs = [] \<longleftrightarrow> cs = []"
  by (cases cs) (auto simp: escape_point_def utf8_def pct_def)

end

definition query_char :: "nat \<Rightarrow> bool" where
  "query_char c \<longleftrightarrow> unreserved c \<or> c \<in> {64, 58, 36, 44, 59}"

definition segment_char :: "nat \<Rightarrow> bool" where
  "segment_char c \<longleftrightarrow> query_char c \<or> c \<in> {38, 61, 43}"

interpretation query: uri_escape query_char
  by unfold_locales (auto simp: query_char_def unreserved_def)

interpretation segment: uri_escape segment_char
  by unfold_locales (auto simp: segment_char_def query_char_def unreserved_def)

text \<open>
  A browser escapes the apostrophe of a query when it parses a URL; that is one more escaping of the
  same kind.
\<close>

definition escape_quote :: "jstring \<Rightarrow> jstring" where
  "escape_quote s = concat (map (\<lambda>c. if c = 39 then pct 39 else [c]) s)"

definition browser_char :: "nat \<Rightarrow> bool" where
  "browser_char c \<longleftrightarrow> query_char c \<and> c \<noteq> 39"

interpretation browser: uri_escape browser_char
  by unfold_locales (auto simp: browser_char_def query_char_def unreserved_def)

lemma escape_quote_append [simp]: "escape_quote (s @ t) = escape_quote s @ escape_quote t"
  by (simp add: escape_quote_def)

lemma escape_quote_Cons [simp]:
  "escape_quote [] = []" "c \<noteq> 39 \<Longrightarrow> escape_quote (c # s) = c # escape_quote s"
  by (simp_all add: escape_quote_def)

lemma escape_quote_id: "39 \<notin> set s \<Longrightarrow> escape_quote s = s"
  by (induction s) auto

lemma escape_quote_points: "\<forall>c \<in> set cs. scalar c \<Longrightarrow> escape_quote (escape_points query_char cs) = escape_points browser_char cs"
proof (induction cs)
  case (Cons c cs)
  have "39 \<notin> set (concat (map pct (utf8 c)))"
    using pct_chars [OF utf8_bytes [of c]] Cons.prems by (fastforce simp: hex_char_def)
  then have "escape_quote (escape_point query_char c) = escape_point browser_char c"
    by (auto simp: escape_point_def browser_char_def escape_quote_id) (simp add: escape_quote_def utf8_def)
  with Cons show ?case
    by simp
qed simp

text \<open>
  A text of \<open>encodeURIComponent\<close> is made of tokens, characters and escaped bytes, and the
  replacements of the framework act token by token.
\<close>

definition token :: "jstring \<Rightarrow> bool" where
  "token t \<longleftrightarrow> (\<exists>c. t = [c] \<and> c \<noteq> 37) \<or> (\<exists>b<256. t = pct b)"

definition put_for :: "nat \<Rightarrow> jstring \<Rightarrow> jstring \<Rightarrow> jstring" where
  "put_for b r t = (if t = pct b then r else t)"

lemma hexdig_inject: "m < 16 \<Longrightarrow> n < 16 \<Longrightarrow> hexdig m = hexdig n \<longleftrightarrow> m = n"
  by (auto simp: hexdig_def)

lemma pct_inject: "b < 256 \<Longrightarrow> c < 256 \<Longrightarrow> pct b = pct c \<longleftrightarrow> b = c"
  by (auto simp: pct_def hexdig_inject less_mult_imp_div_less) (metis div_mult_mod_eq)

lemma upper_hexdig [simp]: "n < 16 \<Longrightarrow> upper (hexdig n) = hexdig n"
  by (auto simp: upper_def hexdig_def)

lemma replace_pct_char: "c \<noteq> 37 \<Longrightarrow> replace_pct ci h l r (c # s) = c # replace_pct ci h l r s"
  by (cases s; cases "tl s") auto

lemma hexdig_not_37: "n < 16 \<Longrightarrow> hexdig n \<noteq> 37"
  by (auto simp: hexdig_def)

lemma replace_pct_pct:
  assumes "b < 256"
  shows "replace_pct ci h l r (pct b @ s) =
     (if pct b = [37, h, l] then r @ replace_pct ci h l r s else pct b @ replace_pct ci h l r s)"
proof -
  have "b div 16 < 16" "b mod 16 < 16"
    using assms by (simp_all add: less_mult_imp_div_less)
  then show ?thesis
    by (auto simp: pct_def replace_pct_char hexdig_not_37)
qed

lemma replace_pct_tokens:
  assumes "pct b = [37, h, l]" "\<forall>t \<in> set ts. token t"
  shows "replace_pct ci h l r (concat ts) = concat (map (put_for b r) ts)"
  using assms(2)
proof (induction ts)
  case (Cons t ts)
  then have "token t" and IH: "replace_pct ci h l r (concat ts) = concat (map (put_for b r) ts)"
    by simp_all
  then consider (char) c where "t = [c]" "c \<noteq> 37" | (byte) a where "a < 256" "t = pct a"
    unfolding token_def by blast
  then show ?case
  proof cases
    case char
    then have "t \<noteq> pct b"
      by (simp add: pct_def)
    then have "put_for b r t = t"
      by (simp add: put_for_def)
    with char IH show ?thesis
      by (simp add: replace_pct_char)
  next
    case byte
    with assms(1) have "replace_pct ci h l r (t @ concat ts) = put_for b r t @ replace_pct ci h l r (concat ts)"
      by (simp add: replace_pct_pct put_for_def)
    with IH show ?thesis
      by simp
  qed
qed simp

lemma token_put: "token r \<Longrightarrow> token t \<Longrightarrow> token (put_for b r t)"
  by (simp add: put_for_def)

lemma token_char: "c \<noteq> 37 \<Longrightarrow> token [c]"
  by (auto simp: token_def)

subsection \<open>What the framework escapes\<close>

lemma encode_point_tokens: "scalar c \<Longrightarrow> t \<in> set (encode_point c) \<Longrightarrow> token t"
  using utf8_bytes [of c] by (fastforce simp: encode_point_def token_def unreserved_def split: if_splits)

definition query_token :: "jstring \<Rightarrow> jstring" where
  "query_token t = put_for 32 (pct 32) (put_for 59 [59] (put_for 44 [44] (put_for 36 [36] (put_for 58 [58] (put_for 64 [64] t)))))"

definition segment_token :: "jstring \<Rightarrow> jstring" where
  "segment_token t = put_for 43 [43] (put_for 61 [61] (put_for 38 [38] (query_token t)))"

lemma token_pct: "b < 256 \<Longrightarrow> token (pct b)"
  by (auto simp: token_def)

lemma put_for_cases:
  assumes "b < 256"
  shows "a < 256 \<Longrightarrow> put_for b r (pct a) = (if a = b then r else pct a)" "put_for b r [c] = [c]"
  using assms by (simp_all add: put_for_def pct_inject) (simp add: pct_def)

lemma query_token_cases:
  "query_token [c] = [c]"
  "a < 256 \<Longrightarrow> query_token (pct a) = (if a \<in> {64, 58, 36, 44, 59} then [a] else pct a)"
  by (auto simp: query_token_def put_for_cases)

lemma segment_token_cases:
  "segment_token [c] = [c]"
  "a < 256 \<Longrightarrow> segment_token (pct a) = (if a \<in> {64, 58, 36, 44, 59, 38, 61, 43} then [a] else pct a)"
  by (auto simp: segment_token_def put_for_cases query_token_cases)

lemma encode_point_escaped:
  assumes c: "scalar c" and char: "\<And>d. f [d] = [d]"
    and byte: "\<And>a. a < 256 \<Longrightarrow> f (pct a) = (if a \<in> K then [a] else pct a)"
    and keep: "\<And>a. keep a \<longleftrightarrow> unreserved a \<or> a \<in> K" and K: "\<And>a. a \<in> K \<Longrightarrow> a < 128"
  shows "concat (map f (encode_point c)) = escape_point keep c"
proof (cases "unreserved c")
  case True
  then show ?thesis
    using char keep by (simp add: encode_point_def escape_point_def)
next
  case False
  show ?thesis
  proof (cases "c < 128")
    case True
    with False show ?thesis
      using byte [of c] keep by (auto simp: encode_point_def escape_point_def utf8_def)
  next
    case c128: False
    have "f (pct a) = pct a" if "a \<in> set (utf8 c)" for a
    proof -
      have "128 \<le> a"
        using that c128 by (auto simp: utf8_def split: if_splits)
      then show ?thesis
        using byte [OF utf8_bytes [OF c that]] K [of a] by auto
    qed
    then have "map f (map pct (utf8 c)) = map pct (utf8 c)"
      by simp
    moreover have "\<not> keep c"
      using False c128 K keep by auto
    ultimately show ?thesis
      using False by (simp only: encode_point_def escape_point_def if_False)
  qed
qed

lemma encode_points_escaped:
  assumes "\<forall>c \<in> set cs. scalar c" "\<And>d. f [d] = [d]"
    "\<And>a. a < 256 \<Longrightarrow> f (pct a) = (if a \<in> K then [a] else pct a)"
    "\<And>a. keep a \<longleftrightarrow> unreserved a \<or> a \<in> K" "\<And>a. a \<in> K \<Longrightarrow> a < 128"
  shows "concat (map f (concat (map encode_point cs))) = escape_points keep cs"
  using assms(1)
proof (induction cs)
  case (Cons c cs)
  have "concat (map f (encode_point c)) = escape_point keep c"
    by (rule encode_point_escaped) (use Cons(2) assms(2-) in simp_all)
  with Cons show ?case
    by simp
qed simp

lemma encode_points_tokens: "\<forall>c \<in> set cs. scalar c \<Longrightarrow> \<forall>t \<in> set (concat (map encode_point cs)). token t"
  using encode_point_tokens by auto

lemma query_tokens:
  assumes ts: "\<forall>t \<in> set ts. token t"
  shows "replace_pct False 50 48 (pct 32)
         (replace_pct False 51 66 (J '';'') (replace_pct False 50 67 (J '','') (replace_pct False 50 52 (J ''$'')
           (replace_pct True 51 65 (J '':'') (replace_pct True 52 48 (J ''@'') (concat ts)))))) = concat (map query_token ts)"
    (is "?r = _")
    and "\<forall>t \<in> set (map query_token ts). token t"
proof -
  have p: "pct 64 = [37, 52, 48]" "pct 58 = [37, 51, 65]" "pct 36 = [37, 50, 52]" "pct 44 = [37, 50, 67]"
    "pct 59 = [37, 51, 66]" "pct 32 = [37, 50, 48]"
    by (simp_all add: pct_def hexdig_def)
  have "token (put_for b r t)" if "token r" "token t" for b r t
    using that by (rule token_put)
  then show "?r = concat (map query_token ts)" "\<forall>t \<in> set (map query_token ts). token t"
    using ts
    by (simp_all add: replace_pct_tokens [OF p(1)] replace_pct_tokens [OF p(2)] replace_pct_tokens [OF p(3)]
        replace_pct_tokens [OF p(4)] replace_pct_tokens [OF p(5)] replace_pct_tokens [OF p(6)]
        query_token_def [abs_def] token_char token_pct comp_def)
qed

theorem encodeUriQuery_points:
  assumes "code_points v = Some cs" "\<forall>c \<in> set cs. scalar c"
  shows "encodeUriQuery v True = Some (escape_points query_char cs)"
proof -
  have "encodeUriQuery v True = Some (concat (map query_token (concat (map encode_point cs))))"
    using query_tokens(1) [OF encode_points_tokens [OF assms(2)]] assms(1)
    by (simp add: encodeUriQuery_def encodeURIComponent_def)
  moreover have "concat (map query_token (concat (map encode_point cs))) = escape_points query_char cs"
    by (rule encode_points_escaped [OF assms(2) query_token_cases]) (auto simp: query_char_def)
  ultimately show ?thesis
    by simp
qed

theorem encodeUriSegment_points:
  assumes "code_points v = Some cs" "\<forall>c \<in> set cs. scalar c"
  shows "encodeUriSegment v = Some (escape_points segment_char cs)"
proof -
  have p: "pct 38 = [37, 50, 54]" "pct 61 = [37, 51, 68]" "pct 43 = [37, 50, 66]"
    by (simp_all add: pct_def hexdig_def)
  let ?ts = "concat (map encode_point cs)"
  have tok: "\<forall>t \<in> set (map query_token ?ts). token t"
    by (rule query_tokens(2) [OF encode_points_tokens [OF assms(2)]])
  have "encodeUriQuery v True = Some (concat (map query_token ?ts))"
    using query_tokens(1) [OF encode_points_tokens [OF assms(2)]] assms(1)
    by (simp add: encodeUriQuery_def encodeURIComponent_def)
  then have "encodeUriSegment v = Some (concat (map segment_token ?ts))"
    using tok
    by (simp add: encodeUriSegment_def replace_pct_tokens [OF p(1)] replace_pct_tokens [OF p(2)]
        replace_pct_tokens [OF p(3)] token_put token_char segment_token_def [abs_def] comp_def)
  moreover have "concat (map segment_token ?ts) = escape_points segment_char cs"
    by (rule encode_points_escaped [OF assms(2) segment_token_cases]) (auto simp: segment_char_def query_char_def)
  ultimately show ?thesis
    by simp
qed

lemma units_not_Nil [simp]: "units c \<noteq> []"
  by (simp add: units_def)

lemma well_formed_points:
  assumes "well_formed v"
  obtains cs where "code_points v = Some cs" "\<forall>c \<in> set cs. scalar c" "concat (map units cs) = v"
  using assms code_points_sound unfolding well_formed_def by blast

text \<open>The facts a client needs of an escaped text: it decodes, and the separators are escaped in it.\<close>

definition escaped_for :: "jstring \<Rightarrow> jstring \<Rightarrow> bool" where
  "escaped_for v s \<longleftrightarrow> decodeURIComponent s = Some v \<and> 38 \<notin> set s \<and> 61 \<notin> set s \<and> 43 \<notin> set s \<and> (s = [] \<longleftrightarrow> v = [])"

definition query_text :: "jstring \<Rightarrow> bool" where
  "query_text s \<longleftrightarrow> (\<forall>c \<in> set s. query_char c \<or> c = 37 \<or> c = 38 \<or> c = 61)"

lemma hex_query_char: "hex_char c \<Longrightarrow> query_char c"
  by (auto simp: hex_char_def query_char_def unreserved_def)

lemma encodeUriQuery_text:
  assumes "well_formed v"
  obtains s where "encodeUriQuery v True = Some s" "escaped_for v s" "escaped_for v (escape_quote s)" "query_text s"
proof -
  obtain cs where cs: "code_points v = Some cs" "\<forall>c \<in> set cs. scalar c" "concat (map units cs) = v"
    using assms by (rule well_formed_points)
  have no: "d \<notin> set (escape_points query_char cs)" "d \<notin> set (escape_points browser_char cs)" if "d \<in> {38, 61, 43}" for d
    using query.escaped_chars [OF cs(2), of d] browser.escaped_chars [OF cs(2), of d] that
    by (auto simp: query_char_def unreserved_def hex_char_def browser_char_def)
  have "v = [] \<longleftrightarrow> cs = []"
    using cs(3) by (cases cs) auto
  then have "escaped_for v (escape_points query_char cs)" "escaped_for v (escape_points browser_char cs)"
    using no query.decode_escaped [OF cs(2)] browser.decode_escaped [OF cs(2)] cs(3) query.escaped_empty
      browser.escaped_empty
    by (simp_all add: escaped_for_def)
  moreover have "query_text (escape_points query_char cs)"
    using query.escaped_chars [OF cs(2)] hex_query_char by (auto simp: query_text_def)
  ultimately show ?thesis
    using that [OF encodeUriQuery_points [OF cs(1,2)]] escape_quote_points [OF cs(2)] by simp
qed

definition segment_text :: "jstring \<Rightarrow> bool" where
  "segment_text s \<longleftrightarrow> (\<forall>c \<in> set s. segment_char c \<or> c = 37)"

lemma encodeUriSegment_text:
  assumes "well_formed v"
  obtains s where "encodeUriSegment v = Some s" "decodeURIComponent s = Some v" "segment_text s" "s = [] \<longleftrightarrow> v = []"
proof -
  obtain cs where cs: "code_points v = Some cs" "\<forall>c \<in> set cs. scalar c" "concat (map units cs) = v"
    using assms by (rule well_formed_points)
  have "segment_text (escape_points segment_char cs)"
    using segment.escaped_chars [OF cs(2)] hex_query_char by (auto simp: segment_text_def segment_char_def)
  moreover have "v = [] \<longleftrightarrow> cs = []"
    using cs(3) by (cases cs) auto
  ultimately show ?thesis
    using that [OF encodeUriSegment_points [OF cs(1,2)]] segment.decode_escaped [OF cs(2)] cs(3) segment.escaped_empty
    by simp
qed

subsection \<open>Texts of code points\<close>

definition text_of :: "nat list \<Rightarrow> jstring" where
  "text_of cs = concat (map units cs)"

lemma text_of_simps [simp]:
  "text_of [] = []" "text_of (c # cs) = units c @ text_of cs" "text_of (cs @ ds) = text_of cs @ text_of ds"
  by (simp_all add: text_of_def)

lemma text_of_empty [simp]: "text_of cs = [] \<longleftrightarrow> cs = []"
  by (cases cs) auto

lemma units_cases:
  assumes "scalar c"
  obtains "c < 0x10000" "units c = [c]" "\<not> high_surrogate c" "\<not> low_surrogate c"
  | h l where "units c = [h, l]" "high_surrogate h" "low_surrogate l" "h < 0x10000" "l < 0x10000"
      "0x10000 + (h - 0xD800) * 0x400 + (l - 0xDC00) = c"
proof (cases "c < 0x10000")
  case True
  with assms that(1) show ?thesis
    by (simp add: units_def scalar_def)
next
  case False
  define p where "p = c - 0x10000"
  have p: "p < 0x400 * 0x400" "c = 0x10000 + p"
    using False assms unfolding p_def scalar_def by linarith+
  have "p div 0x400 < 0x400" "p mod 0x400 < 0x400" "p div 0x400 * 0x400 + p mod 0x400 = p"
    using p(1) by (simp_all add: less_mult_imp_div_less)
  with False p that(2) [of "0xD800 + p div 0x400" "0xDC00 + p mod 0x400"] show ?thesis
    by (simp add: units_def high_surrogate_def low_surrogate_def)
qed

lemma code_points_text_of: "\<forall>c \<in> set cs. scalar c \<Longrightarrow> code_points (text_of cs) = Some cs \<and> (\<forall>c \<in> set (text_of cs). c < 0x10000)"
proof (induction cs)
  case (Cons c cs)
  then have "scalar c" and IH: "code_points (text_of cs) = Some cs" "\<forall>c \<in> set (text_of cs). c < 0x10000"
    by simp_all
  then show ?case
  proof (cases rule: units_cases)
    case 1
    with IH show ?thesis by simp
  next
    case (2 h l)
    have "\<not> low_surrogate h"
      using 2(2) by (simp add: high_surrogate_def low_surrogate_def)
    then have "code_points (h # l # text_of cs) =
        map_option ((#) (0x10000 + (h - 0xD800) * 0x400 + (l - 0xDC00))) (code_points (text_of cs))"
      using 2(2,3) by (simp only: code_points.simps list.case if_True if_False)
    then show ?thesis
      using IH 2(1,4,5) unfolding 2(6) by simp
  qed
qed simp

lemma well_formed_iff: "well_formed s \<longleftrightarrow> (\<exists>cs. (\<forall>c \<in> set cs. scalar c) \<and> text_of cs = s)"
proof
  assume "well_formed s"
  then show "\<exists>cs. (\<forall>c \<in> set cs. scalar c) \<and> text_of cs = s"
    by (metis well_formed_points text_of_def)
next
  assume "\<exists>cs. (\<forall>c \<in> set cs. scalar c) \<and> text_of cs = s"
  then obtain cs where "\<forall>c \<in> set cs. scalar c" "text_of cs = s"
    by blast
  then show "well_formed s"
    using code_points_text_of [of cs] by (auto simp: well_formed_def)
qed

text \<open>A character below the surrogates is its own code unit, so a text may be cut before it.\<close>

lemma text_of_head:
  assumes "\<forall>c \<in> set cs. scalar c" "text_of cs = d # t" "d < 0xD800"
  obtains cs' where "cs = d # cs'" "text_of cs' = t"
proof (cases cs)
  case (Cons c cs')
  then have "scalar c"
    using assms(1) by simp
  then show ?thesis
    by (cases rule: units_cases) (use that assms Cons in \<open>auto simp: high_surrogate_def\<close>)
qed (use assms in simp)

lemma well_formed_Nil [simp]: "well_formed []"
  by (simp add: well_formed_def)

lemma well_formed_char: "d < 0xD800 \<Longrightarrow> well_formed (d # t) \<longleftrightarrow> well_formed t"
  by (auto simp: well_formed_def high_surrogate_def low_surrogate_def)

lemma well_formed_replace:
  assumes "\<forall>c \<in> set cs. scalar c" "h < 0xD800" "l < 0xD800" "\<forall>c \<in> set r. c < 0xD800"
  shows "well_formed (replace_pct False h l r (text_of cs))"
  using assms(1)
proof (induction "length cs" arbitrary: cs rule: less_induct)
  case less
  show ?case
  proof (cases cs)
    case (Cons c cs1)
    have IH: "well_formed (replace_pct False h l r (text_of cs1))"
      using less Cons by simp
    have "scalar c"
      using less.prems Cons by simp
    then show ?thesis
    proof (cases rule: units_cases)
      case 1
      show ?thesis
      proof (cases "\<exists>t. text_of cs = 37 # h # l # t")
        case False
        have eq: "text_of cs = c # text_of cs1"
          using Cons 1 by simp
        have "replace_pct False h l r (c # text_of cs1) = c # replace_pct False h l r (text_of cs1)"
          using False unfolding eq by (cases "text_of cs1"; cases "tl (text_of cs1)") auto
        then show ?thesis
          using IH 1 by (simp add: eq well_formed_def)
      next
        case True
        then obtain t where t: "text_of cs = 37 # h # l # t"
          by blast
        obtain cs2 where 2: "cs = 37 # cs2" "text_of cs2 = h # l # t"
          using less.prems t by (rule text_of_head) simp_all
        have "\<forall>c \<in> set cs2. scalar c"
          using less.prems 2 by simp
        then obtain cs3 where 3: "cs2 = h # cs3" "text_of cs3 = l # t"
          using 2(2) assms(2) by (rule text_of_head)
        have "\<forall>c \<in> set cs3. scalar c"
          using less.prems 2 3 by simp
        then obtain cs4 where 4: "cs3 = l # cs4" "text_of cs4 = t"
          using 3(2) assms(3) by (rule text_of_head)
        have "well_formed (replace_pct False h l r t)"
          using less 2 3 4 by auto
        moreover have "well_formed (r @ u)" if "well_formed u" for u
          using that assms(4) by (induction r) (auto simp: well_formed_char)
        ultimately show ?thesis
          by (simp add: t)
      qed
    next
      case (2 h' l')
      then have "h' \<noteq> 37" "l' \<noteq> 37" "\<not> low_surrogate h'"
        by (auto simp: high_surrogate_def low_surrogate_def)
      then show ?thesis
        using IH 2 Cons by (simp add: replace_pct_char well_formed_def)
    qed
  qed simp
qed

lemma well_formed_split:
  assumes "well_formed (s @ d # t)" "d < 0xD800"
  shows "well_formed s \<and> well_formed t"
proof -
  have "well_formed s \<and> well_formed t" if "\<forall>c \<in> set cs. scalar c" "text_of cs = s @ d # t" for cs
    using that
  proof (induction cs arbitrary: s)
    case (Cons c cs)
    show ?case
    proof (cases s)
      case Nil
      obtain cs' where "c # cs = d # cs'" "text_of cs' = t"
        by (rule text_of_head [OF Cons.prems(1)]) (use Cons.prems(2) Nil assms(2) in auto)
      then have "well_formed t"
        using Cons.prems(1) well_formed_iff by auto
      with Nil show ?thesis
        by simp
    next
      case (Cons e s')
      have "scalar c"
        using Cons.prems by simp
      then show ?thesis
      proof (cases rule: units_cases)
        case 1
        then have "well_formed s' \<and> well_formed t"
          using Cons.IH [of s'] Cons.prems Cons by simp
        with 1 Cons show ?thesis
          using Cons.prems by (auto simp: well_formed_def)
      next
        case (2 h l)
        then obtain s'' where "s' = l # s''"
          using Cons.prems Cons assms(2) by (cases s') (auto simp: low_surrogate_def)
        moreover from this 2 have "well_formed s'' \<and> well_formed t"
          using Cons.IH [of s''] Cons.prems Cons by simp
        moreover have "\<not> low_surrogate h"
          using 2 by (simp add: high_surrogate_def low_surrogate_def)
        ultimately show ?thesis
          using 2 Cons Cons.prems by (auto simp: well_formed_def)
      qed
    qed
  qed simp
  then show ?thesis
    using assms(1) well_formed_iff by blast
qed

subsection \<open>Query strings come back\<close>

definition item_ok :: "jstring \<Rightarrow> qitem \<Rightarrow> bool" where
  "item_ok k i = (case i of QTrue \<Rightarrow> k \<noteq> [] | QText t \<Rightarrow> well_formed t | QUndefined \<Rightarrow> False)"

definition query_ok :: "qobject \<Rightarrow> bool" where
  "query_ok obj \<longleftrightarrow> distinct (map fst obj) \<and> \<not> has_forEach obj \<and>
     (\<forall>(k, v) \<in> set obj. well_formed k \<and> k \<noteq> J ''__proto__'' \<and> (\<forall>i \<in> set (items_of v). item_ok k i) \<and>
        (\<forall>is. v = Many is \<longrightarrow> 2 \<le> length is))"

lemma replace_plus_id: "43 \<notin> set s \<Longrightarrow> replace_plus s = s"
  by (induction s) (auto simp: replace_plus_def)

definition reads_as :: "jstring \<Rightarrow> jstring \<Rightarrow> qitem \<Rightarrow> bool" where
  "reads_as p k i \<longleftrightarrow> p \<noteq> [] \<and> 38 \<notin> set p \<and> parse_pair p = add_item k i"

lemma reads_key: "escaped_for k s \<Longrightarrow> k \<noteq> [] \<Longrightarrow> reads_as s k QTrue"
  by (auto simp: escaped_for_def reads_as_def parse_pair_def [abs_def] replace_plus_id tryDecodeURIComponent_def)

lemma reads_pair: "escaped_for k s \<Longrightarrow> escaped_for t u \<Longrightarrow> reads_as (s @ 61 # u) k (QText t)"
proof -
  assume s: "escaped_for k s" and u: "escaped_for t u"
  have "takeWhile (\<lambda>c. c \<noteq> 61) (s @ 61 # u) = s" "dropWhile (\<lambda>c. c \<noteq> 61) (s @ 61 # u) = 61 # u"
    using s by (auto simp: escaped_for_def intro!: takeWhile_append_stop dropWhile_append_stop)
  with s u show ?thesis
    by (simp add: escaped_for_def reads_as_def parse_pair_def [abs_def] replace_plus_id tryDecodeURIComponent_def)
qed

lemma encode_item_pair:
  assumes "well_formed k" "item_ok k i"
  shows "\<exists>p. encode_item k i = Some p \<and> reads_as p k i \<and> reads_as (escape_quote p) k i \<and> query_text p"
proof -
  obtain s where s: "encodeUriQuery k True = Some s" "escaped_for k s" "escaped_for k (escape_quote s)" "query_text s"
    using assms(1) by (rule encodeUriQuery_text)
  show ?thesis
  proof (cases i)
    case QTrue
    with s assms(2) show ?thesis
      by (auto simp: encode_item_def item_ok_def intro!: reads_key)
  next
    case (QText t)
    with assms(2) have "well_formed t"
      by (simp add: item_ok_def)
    then obtain u where u: "encodeUriQuery t True = Some u" "escaped_for t u" "escaped_for t (escape_quote u)" "query_text u"
      by (rule encodeUriQuery_text)
    have "query_text (s @ 61 # u)"
      using s u by (auto simp: query_text_def)
    with s u QText show ?thesis
      by (auto simp: encode_item_def intro!: reads_pair)
  next
    case QUndefined
    with assms(2) show ?thesis
      by (simp add: item_ok_def)
  qed
qed

lemma sequence_opt_map: "\<forall>x \<in> set xs. f x = Some (g x) \<Longrightarrow> sequence_opt (map f xs) = Some (map g xs)"
  by (induction xs) auto

lemma update_last: "k \<notin> fst ` set obj \<Longrightarrow> AList.update k v (obj @ [(k, w)]) = obj @ [(k, v)]"
  by (induction obj) auto

lemma map_of_last: "k \<notin> fst ` set obj \<Longrightarrow> map_of (obj @ [(k, w)]) k = Some w"
  by (simp add: map_add_Some_iff dom_map_of_conv_image_fst [symmetric] domIff map_add_def split: option.splits)

lemma add_items_many:
  "k \<notin> fst ` set obj \<Longrightarrow> k \<noteq> J ''__proto__'' \<Longrightarrow>
   fold (add_item k) is (obj @ [(k, Many vs)]) = obj @ [(k, Many (vs @ is))]"
  by (induction "is" arbitrary: vs) (simp_all add: add_item_def map_of_last update_last del: map_of_append)

lemma add_items:
  assumes k: "k \<notin> fst ` set obj" "k \<noteq> J ''__proto__''" and v: "\<forall>is. v = Many is \<longrightarrow> 2 \<le> length is"
  shows "fold (add_item k) (items_of v) obj = obj @ [(k, v)]"
proof -
  have "map_of obj k = None"
    using k(1) by (simp add: map_of_eq_None_iff)
  then have new: "add_item k i obj = obj @ [(k, One i)]" for i
    using k(2) by (simp add: add_item_def)
  show ?thesis
  proof (cases v)
    case (One i)
    with new show ?thesis
      by (simp add: items_of_def)
  next
    case (Many "is")
    then obtain a b js where "is = a # b # js"
      using v by (cases "is"; cases "tl is") auto
    moreover have "add_item k b (obj @ [(k, One a)]) = obj @ [(k, Many [a, b])]"
      using k by (simp add: add_item_def map_of_last update_last del: map_of_append)
    ultimately show ?thesis
      using add_items_many [OF k, of js "[a, b]"] Many new by (simp add: items_of_def)
  qed
qed

text \<open>The pieces of a query object in order, each with its key.\<close>

definition pieces :: "qobject \<Rightarrow> (jstring \<times> qitem) list" where
  "pieces obj = concat (map (\<lambda>(k, v). map (Pair k) (items_of v)) obj)"

lemma toKeyValue_pieces:
  "\<not> has_forEach obj \<Longrightarrow> toKeyValue obj = map_option (join_with [38]) (sequence_opt (map (\<lambda>(k, i). encode_item k i) (pieces obj)))"
  by (simp add: toKeyValue_def pieces_def map_concat comp_def case_prod_unfold)

lemma fold_pieces:
  assumes "distinct (map fst (obj @ rest))"
    "\<forall>(k, v) \<in> set rest. k \<noteq> J ''__proto__'' \<and> (\<forall>is. v = Many is \<longrightarrow> 2 \<le> length is)"
  shows "fold (\<lambda>(k, i). add_item k i) (pieces rest) obj = obj @ rest"
  using assms
proof (induction rest arbitrary: obj)
  case (Cons kv rest)
  obtain k v where kv: "kv = (k, v)"
    by (cases kv)
  have "fold (\<lambda>(k, i). add_item k i) (map (Pair k) (items_of v)) obj = obj @ [(k, v)]"
    using add_items [of k obj v] Cons.prems kv by (auto simp: fold_map comp_def)
  moreover have "fold (\<lambda>(k, i). add_item k i) (pieces rest) ((obj @ [(k, v)])) = (obj @ [(k, v)]) @ rest"
    using Cons.prems kv by (intro Cons.IH) auto
  ultimately show ?case
    by (simp add: pieces_def kv)
qed (simp add: pieces_def)

lemma query_ok_pieces: "query_ok obj \<Longrightarrow> (k, i) \<in> set (pieces obj) \<Longrightarrow> well_formed k \<and> item_ok k i"
  by (fastforce simp: query_ok_def pieces_def)

lemma parse_pieces:
  assumes "query_ok obj" "\<forall>x \<in> set (pieces obj). reads_as (g x) (fst x) (snd x)"
  shows "parseKeyValue (join_with [38] (map g (pieces obj))) = obj"
proof -
  have all: "fold (\<lambda>(k, i). add_item k i) (pieces obj) [] = obj"
    by (rule fold_pieces [of "[]" obj, unfolded append_Nil]) (use assms(1) in \<open>auto simp: query_ok_def\<close>)
  have fp: "fold parse_pair (map g (pieces obj)) [] = fold (\<lambda>(k, i). add_item k i) (pieces obj) []"
    unfolding fold_map by (rule fold_cong) (use assms(2) in \<open>auto simp: case_prod_unfold reads_as_def\<close>)
  show ?thesis
  proof (cases "pieces obj = []")
    case True
    then show ?thesis
      using all by (simp add: parseKeyValue_def parse_pair_def)
  next
    case False
    then have "split_on 38 (join_with [38] (map g (pieces obj))) = map g (pieces obj)"
      by (intro split_on_join) (use assms(2) in \<open>auto simp: reads_as_def\<close>)
    then show ?thesis
      using all fp by (simp add: parseKeyValue_def)
  qed
qed

lemma escape_quote_join: "escape_quote (join_with [38] ps) = join_with [38] (map escape_quote ps)"
  by (induction "[38::nat]" ps rule: join_with.induct) auto

lemma query_text_join: "\<forall>p \<in> set ps. query_text p \<Longrightarrow> query_text (join_with [38] ps)"
  by (induction "[38::nat]" ps rule: join_with.induct) (auto simp: query_text_def)

lemma toKeyValue_text:
  assumes "query_ok obj"
  obtains s where "toKeyValue obj = Some s" "parseKeyValue s = obj" "parseKeyValue (escape_quote s) = obj" "query_text s"
proof -
  have "\<forall>x \<in> set (pieces obj). \<exists>p. encode_item (fst x) (snd x) = Some p \<and> reads_as p (fst x) (snd x) \<and>
      reads_as (escape_quote p) (fst x) (snd x) \<and> query_text p"
    using query_ok_pieces [OF assms] encode_item_pair by auto
  then obtain f where f: "\<forall>x \<in> set (pieces obj). encode_item (fst x) (snd x) = Some (f x) \<and>
      reads_as (f x) (fst x) (snd x) \<and> reads_as (escape_quote (f x)) (fst x) (snd x) \<and> query_text (f x)"
    by (auto simp: bchoice_iff)
  define ps where "ps = map f (pieces obj)"
  have "sequence_opt (map (\<lambda>(k, i). encode_item k i) (pieces obj)) = Some ps"
    unfolding ps_def by (rule sequence_opt_map) (use f in auto)
  then have "toKeyValue obj = Some (join_with [38] ps)"
    using assms by (simp add: toKeyValue_pieces query_ok_def)
  moreover have "parseKeyValue (join_with [38] ps) = obj"
    unfolding ps_def using assms f by (intro parse_pieces) auto
  moreover have "parseKeyValue (escape_quote (join_with [38] ps)) = obj"
    using parse_pieces [OF assms, of "\<lambda>x. escape_quote (f x)"] f
    by (simp add: ps_def escape_quote_join comp_def)
  moreover have "query_text (join_with [38] ps)"
    using f by (intro query_text_join) (auto simp: ps_def)
  ultimately show ?thesis
    using that by blast
qed

text \<open>
  C25. A query string comes back: for a query object with distinct keys whose keys and texts are well
  formed UTF-16, whose arrays have at least two items and which has neither the key \<open>__proto__\<close> nor
  a truthy key \<open>forEach\<close> nor an empty key without a value, \<open>toKeyValue\<close> gives a text and
  \<open>parseKeyValue\<close> of that text is the object.
\<close>

theorem query_string_roundtrip:
  assumes "query_ok obj"
  shows "\<exists>s. toKeyValue obj = Some s \<and> parseKeyValue s = obj"
  using assms by (rule toKeyValue_text) blast

lemma well_formed_ascii: "\<forall>c \<in> set s. c < 128 \<Longrightarrow> well_formed s"
proof -
  assume "\<forall>c \<in> set s. c < 128"
  then have "code_points s = Some s \<and> (\<forall>c \<in> set s. c < 65536)"
    by (induction s) (auto simp: high_surrogate_def low_surrogate_def)
  then show ?thesis
    by (simp add: well_formed_def)
qed

theorem query_string_roundtrip_witness:
  "\<exists>s. toKeyValue [(J ''a'', One (QText (J ''b&c''))), ([0x20AC], Many [QTrue, QText [0xD83D, 0xDE00]])] = Some s \<and>
     parseKeyValue s = [(J ''a'', One (QText (J ''b&c''))), ([0x20AC], Many [QTrue, QText [0xD83D, 0xDE00]])]"
  by (rule query_string_roundtrip)
    (simp add: query_ok_def has_forEach_def well_formed_def items_of_def item_ok_def high_surrogate_def low_surrogate_def)

text \<open>
  A parameter named \<open>forEach\<close> breaks the query: \<open>parseKeyValue\<close> makes a property of it, and
  \<open>toKeyValue\<close> of an object with that property throws, whatever else the object has.
\<close>

theorem forEach_parameter_throws:
  "parseKeyValue (J ''forEach=1'') = [(J ''forEach'', One (QText (J ''1'')))] \<and>
   toKeyValue ((J ''forEach'', One (QText (J ''1''))) # obj) = None"
  by (simp add: parseKeyValue_def parse_pair_def replace_plus_def tryDecodeURIComponent_def decode_char add_item_def
      toKeyValue_def has_forEach_def truthy_value_def)

end
