(* ===== verification/NgLocation.thy ===== *)
theory NgLocation
  imports NgUri
begin

section \<open>The location service\<close>

text \<open>
  The three objects behind \<open>$location\<close>: \<open>LocationHtml5Url\<close>, \<open>LocationHashbangUrl\<close> and
  \<open>LocationHashbangInHtml5Url\<close>, with the methods they inherit from \<open>locationPrototype\<close>. An object is
  the record \<open>location\<close>; a method is a function on it that may throw, and a throw keeps the
  assignments made before it. The anchor element that resolves URLs is a parameter \<open>anchor\<close>.
\<close>

subsection \<open>URLs as texts\<close>

definition line_terminator :: "nat \<Rightarrow> bool" where
  "line_terminator c \<longleftrightarrow> c \<in> {10, 13, 0x2028, 0x2029}"

definition startsWith :: "jstring \<Rightarrow> jstring \<Rightarrow> bool" where
  "startsWith str search \<longleftrightarrow> take (length search) str = search"

definition stripBaseUrl :: "jstring \<Rightarrow> jstring \<Rightarrow> jstring option" where
  "stripBaseUrl base url = (if startsWith url base then Some (drop (length base) url) else None)"

definition stripHash :: "jstring \<Rightarrow> jstring" where
  "stripHash url = takeWhile (\<lambda>c. c \<noteq> 35) url"

fun trimEmptyHash :: "jstring \<Rightarrow> jstring" where
  "trimEmptyHash [] = []"
| "trimEmptyHash (c # s) =
     (if c = 35 then
        (case s of [] \<Rightarrow> [] | d # t \<Rightarrow> if line_terminator d then c # trimEmptyHash s else c # s)
      else c # trimEmptyHash s)"

definition stripFile :: "jstring \<Rightarrow> jstring" where
  "stripFile url = rev (dropWhile (\<lambda>c. c \<noteq> 47) (rev (stripHash url)))"

fun index_of :: "jstring \<Rightarrow> jstring \<Rightarrow> nat option" where
  "index_of [] p = (if p = [] then Some 0 else None)"
| "index_of (c # s) p = (if startsWith (c # s) p then Some 0 else map_option Suc (index_of s p))"

definition serverBase :: "jstring \<Rightarrow> jstring" where
  "serverBase url =
     (let start = (case index_of url [47, 47] of Some i \<Rightarrow> i + 2 | None \<Rightarrow> 1)
      in case index_of (drop start url) [47] of Some i \<Rightarrow> take (start + i) url | None \<Rightarrow> [])"

definition encodePath :: "jstring \<Rightarrow> jstring option" where
  "encodePath path =
     map_option (join_with [47])
       (sequence_opt (map (\<lambda>s. encodeUriSegment (replace_pct False 50 70 [47] s)) (split_on 47 path)))"

definition slash_out :: "jstring \<Rightarrow> jstring" where
  "slash_out s = concat (map (\<lambda>c. if c = 47 then pct 47 else [c]) s)"

definition decodePath :: "jstring \<Rightarrow> bool \<Rightarrow> jstring option" where
  "decodePath path html5Mode =
     map_option (join_with [47])
       (sequence_opt (map (\<lambda>s. map_option (if html5Mode then slash_out else id) (decodeURIComponent s)) (split_on 47 path)))"

subsection \<open>Resolved URLs\<close>

text \<open>The properties of the anchor element after its \<open>href\<close> is set.\<close>

record anchor_node =
  a_protocol :: jstring
  a_hostname :: jstring
  a_port :: jstring
  a_pathname :: jstring
  a_search :: jstring
  a_hash :: jstring

definition drop_lead :: "nat \<Rightarrow> jstring \<Rightarrow> jstring" where
  "drop_lead c s = (case s of d # t \<Rightarrow> if d = c then t else s | [] \<Rightarrow> [])"

definition urlResolve :: "(jstring \<Rightarrow> anchor_node) \<Rightarrow> jstring \<Rightarrow> anchor_node" where
  "urlResolve anchor url =
     (let n = anchor url
      in n\<lparr>a_protocol := (if a_protocol n \<noteq> [] \<and> last (a_protocol n) = 58 then butlast (a_protocol n) else a_protocol n),
           a_search := drop_lead 63 (a_search n),
           a_hash := drop_lead 35 (a_hash n),
           a_pathname := (if take 1 (a_pathname n) = [47] then a_pathname n else 47 # a_pathname n)\<rparr>)"

subsection \<open>The location object\<close>

datatype location_kind = Html5Url | HashbangUrl | HashbangInHtml5Url

datatype location_error =
    Badpath | MissingPrefix | Isrcharg | Nostate
  | Thrown \<comment> \<open>a \<open>URIError\<close> or \<open>TypeError\<close> of the language\<close>

record location =
  l_kind :: location_kind
  html5 :: bool
  appBase :: jstring
  appBaseNoFile :: jstring
  prefix_text :: jstring \<comment> \<open>\<open>basePrefix\<close> or \<open>hashPrefix\<close>\<close>
  l_protocol :: jstring
  l_host :: jstring
  l_port :: "nat option"
  l_path :: jstring
  l_search :: qobject
  l_hash :: jstring
  l_url :: jstring
  l_absUrl :: jstring
  l_replace :: bool
  l_state :: "nat option" \<comment> \<open>the history state, an opaque value, or \<open>null\<close>\<close>
  urlUpdatedByLocation :: bool

type_synonym 'a loc_op = "location \<Rightarrow> (location_error + 'a) \<times> location"

definition l_return :: "'a \<Rightarrow> 'a loc_op" where
  "l_return a l = (Inr a, l)"

definition l_throw :: "location_error \<Rightarrow> 'a loc_op" where
  "l_throw e l = (Inl e, l)"

definition l_modify :: "(location \<Rightarrow> location) \<Rightarrow> unit loc_op" where
  "l_modify f l = (Inr (), f l)"

definition l_bind :: "'a loc_op \<Rightarrow> ('a \<Rightarrow> 'b loc_op) \<Rightarrow> 'b loc_op" where
  "l_bind m f l = (case m l of (Inl e, l') \<Rightarrow> (Inl e, l') | (Inr a, l') \<Rightarrow> f a l')"

definition l_lift :: "'a option \<Rightarrow> 'a loc_op" where
  "l_lift r = (case r of Some a \<Rightarrow> l_return a | None \<Rightarrow> l_throw Thrown)"

lemmas l_defs = l_return_def l_throw_def l_modify_def l_bind_def l_lift_def

subsection \<open>Composing\<close>

definition hash_text :: "jstring \<Rightarrow> jstring option" where
  "hash_text h = (if h = [] then Some [] else map_option ((#) 35) (encodeUriSegment h))"

definition url_text :: "location \<Rightarrow> jstring option" where
  "url_text l =
     (case (toKeyValue (l_search l), hash_text (l_hash l), encodePath (l_path l)) of
        (Some s, Some h, Some p) \<Rightarrow> Some (p @ (if s = [] then [] else 63 # s) @ h)
      | _ \<Rightarrow> None)"

definition abs_url :: "location \<Rightarrow> jstring \<Rightarrow> jstring" where
  "abs_url l url =
     (case l_kind l of
        Html5Url \<Rightarrow> appBaseNoFile l @ tl url
      | HashbangUrl \<Rightarrow> appBase l @ (if url \<noteq> [] then prefix_text l @ url else [])
      | HashbangInHtml5Url \<Rightarrow> appBase l @ prefix_text l @ url)"

definition compose :: "unit loc_op" where
  "compose l =
     (case url_text l of
        None \<Rightarrow> (Inl Thrown, l)
      | Some u \<Rightarrow> (Inr (), l\<lparr>l_url := u, l_absUrl := abs_url l u, urlUpdatedByLocation := True\<rparr>))"

subsection \<open>Parsing\<close>

definition default_port :: "jstring \<Rightarrow> nat option" where
  "default_port p =
     (if p = J ''http'' then Some 80 else if p = J ''https'' then Some 443 else if p = J ''ftp'' then Some 21 else None)"

text \<open>\<open>toInt\<close> of the port of an anchor, a text of digits or the empty text (\<open>NaN\<close>).\<close>

definition port_number :: "jstring \<Rightarrow> nat" where
  "port_number s = foldl (\<lambda>n c. 10 * n + (c - 48)) 0 (takeWhile (\<lambda>c. 48 \<le> c \<and> c \<le> 57) s)"

definition parseAbsoluteUrl :: "(jstring \<Rightarrow> anchor_node) \<Rightarrow> jstring \<Rightarrow> location \<Rightarrow> location" where
  "parseAbsoluteUrl anchor absoluteUrl l =
     (let u = urlResolve anchor absoluteUrl
      in l\<lparr>l_protocol := a_protocol u, l_host := a_hostname u,
           l_port := (if port_number (a_port u) \<noteq> 0 then Some (port_number (a_port u)) else default_port (a_protocol u))\<rparr>)"

definition double_slash :: "jstring \<Rightarrow> bool" where
  "double_slash url =
     (case dropWhile is_ws url of c # d # t \<Rightarrow> c \<in> {47, 92} \<and> d \<in> {47, 92} | _ \<Rightarrow> False)"

definition lead_slash :: "jstring \<Rightarrow> jstring" where
  "lead_slash p = (if p \<noteq> [] \<and> hd p \<noteq> 47 then 47 # p else p)"

definition parseAppUrl :: "(jstring \<Rightarrow> anchor_node) \<Rightarrow> jstring \<Rightarrow> bool \<Rightarrow> unit loc_op" where
  "parseAppUrl anchor url html5Mode =
     (if double_slash url then l_throw Badpath
      else
        (let prefixed = take 1 url \<noteq> [47];
             match = urlResolve anchor (if prefixed then 47 # url else url);
             path = (if prefixed \<and> take 1 (a_pathname match) = [47] then tl (a_pathname match) else a_pathname match)
         in l_bind (l_lift (decodePath path html5Mode)) (\<lambda>p.
            l_bind (l_modify (l_path_update (\<lambda>_. p))) (\<lambda>_.
            l_bind (l_modify (l_search_update (\<lambda>_. parseKeyValue (a_search match)))) (\<lambda>_.
            l_bind (l_lift (decodeURIComponent (a_hash match))) (\<lambda>h.
            l_modify (\<lambda>l. l\<lparr>l_hash := h, l_path := lead_slash (l_path l)\<rparr>)))))))"

definition parse_html5 :: "(jstring \<Rightarrow> anchor_node) \<Rightarrow> jstring \<Rightarrow> unit loc_op" where
  "parse_html5 anchor url l =
     (case stripBaseUrl (appBaseNoFile l) url of
        None \<Rightarrow> l_throw MissingPrefix l
      | Some pathUrl \<Rightarrow>
          l_bind (parseAppUrl anchor pathUrl True) (\<lambda>_.
          l_bind (l_modify (l_path_update (\<lambda>p. if p = [] then [47] else p))) (\<lambda>_. compose)) l)"

text \<open>\<open>windowsFilePathExp\<close>: the path after a drive, when the text begins with one.\<close>

definition windowsFilePath :: "jstring \<Rightarrow> jstring option" where
  "windowsFilePath s =
     (case s of
        a # d # b # c # t \<Rightarrow>
          if a = 47 \<and> 65 \<le> d \<and> d \<le> 90 \<and> b = 58 \<and> c = 47 then Some (c # takeWhile (\<lambda>x. \<not> line_terminator x) t) else None
      | _ \<Rightarrow> None)"

definition removeWindowsDriveName :: "jstring \<Rightarrow> jstring \<Rightarrow> jstring \<Rightarrow> jstring" where
  "removeWindowsDriveName path url base =
     (let url = (if startsWith url base then drop (length base) url else url)
      in if windowsFilePath url \<noteq> None then path
         else case windowsFilePath path of Some p \<Rightarrow> p | None \<Rightarrow> path)"

definition without_base :: "location \<Rightarrow> jstring \<Rightarrow> jstring option" where
  "without_base l url =
     (case stripBaseUrl (appBase l) url of
        Some (c # s) \<Rightarrow> Some (c # s)
      | _ \<Rightarrow> stripBaseUrl (appBaseNoFile l) url)"

text \<open>\<open>withoutHashUrl\<close>, which may be \<open>undefined\<close>, and the new \<open>appBase\<close>.\<close>

definition without_hash :: "location \<Rightarrow> jstring \<Rightarrow> jstring option \<times> jstring" where
  "without_hash l url =
     (case without_base l url of
        Some w \<Rightarrow>
          if take 1 w = [35] then (Some (case stripBaseUrl (prefix_text l) w of Some r \<Rightarrow> r | None \<Rightarrow> w), appBase l)
          else (if html5 l then Some w else Some [], appBase l)
      | None \<Rightarrow> if html5 l then (None, appBase l) else (Some [], url))"

definition parse_hashbang :: "(jstring \<Rightarrow> anchor_node) \<Rightarrow> jstring \<Rightarrow> unit loc_op" where
  "parse_hashbang anchor url l =
     (case without_hash l url of
        (None, _) \<Rightarrow> l_throw Thrown l
      | (Some w, b) \<Rightarrow>
          l_bind (parseAppUrl anchor w False) (\<lambda>_.
          l_bind (l_modify (l_path_update (\<lambda>p. removeWindowsDriveName p w b))) (\<lambda>_. compose)) (l\<lparr>appBase := b\<rparr>))"

definition parse_url :: "(jstring \<Rightarrow> anchor_node) \<Rightarrow> jstring \<Rightarrow> unit loc_op" where
  "parse_url anchor url l = (case l_kind l of Html5Url \<Rightarrow> parse_html5 anchor url l | _ \<Rightarrow> parse_hashbang anchor url l)"

subsection \<open>The methods of the prototype\<close>

text \<open>\<open>locationGetterSetter\<close>: \<open>None\<close> stands for \<open>null\<close>; without an argument it reads the field.\<close>

definition locationGetterSetter :: "(jstring \<Rightarrow> location \<Rightarrow> location) \<Rightarrow> (jstring option \<Rightarrow> jstring) \<Rightarrow> jstring option \<Rightarrow> unit loc_op" where
  "locationGetterSetter put preprocess value = l_bind (l_modify (put (preprocess value))) (\<lambda>_. compose)"

definition path_of :: "jstring option \<Rightarrow> jstring" where
  "path_of path = (let p = (case path of Some p \<Rightarrow> p | None \<Rightarrow> []) in if take 1 p = [47] then p else 47 # p)"

definition set_path :: "jstring option \<Rightarrow> unit loc_op" where
  "set_path = locationGetterSetter (\<lambda>p. l_path_update (\<lambda>_. p)) path_of"

definition set_hash :: "jstring option \<Rightarrow> unit loc_op" where
  "set_hash = locationGetterSetter (\<lambda>h. l_hash_update (\<lambda>_. h)) (\<lambda>h. case h of Some s \<Rightarrow> s | None \<Rightarrow> [])"

text \<open>
  \<open>search\<close> with one argument, a text (a number is its text), an object, or something else; in an
  object \<open>QUndefined\<close> is \<open>null\<close> or \<open>undefined\<close>.
\<close>

datatype search_arg = SearchText jstring | SearchObject qobject | SearchOther

definition set_search :: "search_arg \<Rightarrow> unit loc_op" where
  "set_search arg =
     (case arg of
        SearchText s \<Rightarrow> l_bind (l_modify (l_search_update (\<lambda>_. parseKeyValue s))) (\<lambda>_. compose)
      | SearchObject obj \<Rightarrow>
          if has_forEach obj then l_throw Thrown
          else l_bind (l_modify (l_search_update (\<lambda>_. filter (\<lambda>(k, v). v \<noteq> One QUndefined) obj))) (\<lambda>_. compose)
      | SearchOther \<Rightarrow> l_throw Isrcharg)"

text \<open>
  \<open>search\<close> with a key and a value; \<open>None\<close> deletes. The setter of \<open>__proto__\<close> makes no own property
  (an array given to it becomes the prototype, which is outside the model).
\<close>

definition set_param :: "jstring \<Rightarrow> qvalue option \<Rightarrow> unit loc_op" where
  "set_param key paramValue =
     l_bind (l_modify (l_search_update (\<lambda>obj.
       case paramValue of
         None \<Rightarrow> AList.delete key obj
       | Some v \<Rightarrow> if v = One QUndefined then AList.delete key obj
                 else if key = J ''__proto__'' then obj else AList.update key v obj))) (\<lambda>_. compose)"

text \<open>\<open>PATH_MATCH\<close>: path, query with its mark, fragment; no match when the fragment has a line break.\<close>

definition path_match :: "jstring \<Rightarrow> (jstring \<times> jstring option \<times> jstring) option" where
  "path_match url =
     (let path = takeWhile (\<lambda>c. c \<noteq> 63 \<and> c \<noteq> 35) url; rest = dropWhile (\<lambda>c. c \<noteq> 63 \<and> c \<noteq> 35) url;
          query = (if take 1 rest = [63] then Some (takeWhile (\<lambda>c. c \<noteq> 35) (tl rest)) else None);
          frag = dropWhile (\<lambda>c. c \<noteq> 35) rest
      in if list_ex line_terminator frag then None else Some (path, query, tl frag))"

definition set_url :: "jstring \<Rightarrow> unit loc_op" where
  "set_url url =
     (case path_match url of
        None \<Rightarrow> l_throw Thrown
      | Some (path, query, frag) \<Rightarrow>
          l_bind (if path \<noteq> [] \<or> url = [] then l_bind (l_lift (decodeURIComponent path)) (\<lambda>p. set_path (Some p))
                  else l_return ()) (\<lambda>_.
          l_bind (if query \<noteq> None \<or> path \<noteq> [] \<or> url = []
                  then set_search (SearchText (case query of Some q \<Rightarrow> q | None \<Rightarrow> [])) else l_return ()) (\<lambda>_.
          set_hash (Some frag))))"

definition set_replace :: "unit loc_op" where
  "set_replace = l_modify (l_replace_update (\<lambda>_. True))"

definition set_state :: "nat option \<Rightarrow> unit loc_op" where
  "set_state s l =
     (if l_kind l \<noteq> Html5Url \<or> \<not> html5 l then l_throw Nostate l
      else (Inr (), l\<lparr>l_state := s, urlUpdatedByLocation := True\<rparr>))"

subsection \<open>Links\<close>

definition rewritten_html5 :: "location \<Rightarrow> jstring \<Rightarrow> jstring" where
  "rewritten_html5 l url =
     (case stripBaseUrl (appBase l) url of
        Some appUrl \<Rightarrow>
          (case if prefix_text l \<noteq> [] then stripBaseUrl (prefix_text l) appUrl else None of
             Some u \<Rightarrow> appBaseNoFile l @ (case stripBaseUrl [47] u of Some (c # s) \<Rightarrow> c # s | _ \<Rightarrow> u)
           | None \<Rightarrow> appBase l @ appUrl)
      | None \<Rightarrow>
          (case stripBaseUrl (appBaseNoFile l) url of
             Some appUrl \<Rightarrow> appBaseNoFile l @ appUrl
           | None \<Rightarrow> if appBaseNoFile l = url @ [47] then appBaseNoFile l else []))"

definition rewritten_hashbang :: "location \<Rightarrow> jstring \<Rightarrow> jstring" where
  "rewritten_hashbang l url =
     (if appBase l = stripHash url then url
      else case stripBaseUrl (appBaseNoFile l) url of
        Some (c # s) \<Rightarrow> appBase l @ prefix_text l @ c # s
      | _ \<Rightarrow> if appBaseNoFile l = url @ [47] then appBaseNoFile l else [])"

definition follow :: "(jstring \<Rightarrow> anchor_node) \<Rightarrow> (location \<Rightarrow> jstring \<Rightarrow> jstring) \<Rightarrow> jstring \<Rightarrow> jstring option \<Rightarrow> bool loc_op" where
  "follow anchor rewrite url relHref l =
     (case relHref of
        Some (c # h) \<Rightarrow> if c = 35 then l_bind (set_hash (Some h)) (\<lambda>_. l_return True) l
          else if rewrite l url \<noteq> [] then l_bind (parse_url anchor (rewrite l url)) (\<lambda>_. l_return True) l else (Inr False, l)
      | _ \<Rightarrow> if rewrite l url \<noteq> [] then l_bind (parse_url anchor (rewrite l url)) (\<lambda>_. l_return True) l else (Inr False, l))"

definition parseLinkUrl :: "(jstring \<Rightarrow> anchor_node) \<Rightarrow> jstring \<Rightarrow> jstring option \<Rightarrow> bool loc_op" where
  "parseLinkUrl anchor url relHref l =
     (case l_kind l of
        Html5Url \<Rightarrow> follow anchor rewritten_html5 url relHref l
      | HashbangInHtml5Url \<Rightarrow> follow anchor rewritten_hashbang url relHref l
      | HashbangUrl \<Rightarrow>
          if stripHash (appBase l) = stripHash url then l_bind (parse_url anchor url) (\<lambda>_. l_return True) l
          else (Inr False, l))"

subsection \<open>Construction\<close>

definition blank_location :: "location_kind \<Rightarrow> jstring \<Rightarrow> jstring \<Rightarrow> jstring \<Rightarrow> location" where
  "blank_location k base noFile pre =
     \<lparr>l_kind = k, html5 = (k \<noteq> HashbangUrl), appBase = base, appBaseNoFile = noFile, prefix_text = pre,
      l_protocol = [], l_host = [], l_port = None, l_path = [], l_search = [], l_hash = [], l_url = [], l_absUrl = [],
      l_replace = False, l_state = None, urlUpdatedByLocation = False\<rparr>"

definition new_location :: "(jstring \<Rightarrow> anchor_node) \<Rightarrow> location_kind \<Rightarrow> jstring \<Rightarrow> jstring \<Rightarrow> jstring \<Rightarrow> location" where
  "new_location anchor k base noFile pre = parseAbsoluteUrl anchor base (blank_location k base noFile pre)"

subsection \<open>Paths come back\<close>

abbreviation slash_in :: "jstring \<Rightarrow> jstring" where
  "slash_in \<equiv> replace_pct False 50 70 [47]"

lemma slash_in_char: "c \<noteq> 37 \<Longrightarrow> slash_in (c # s) = c # slash_in s"
  by (rule replace_pct_char)

lemma slash_in_empty [simp]: "slash_in s = [] \<longleftrightarrow> s = []"
  by (induction False "50::nat" "70::nat" "[47::nat]" s rule: replace_pct.induct) auto

lemma slash_out_Cons: "slash_out (c # s) = (if c = 47 then [37, 50, 70] else [c]) @ slash_out s"
  by (simp add: slash_out_def pct_def hexdig_def)

lemma slash_out_Nil [simp]: "slash_out [] = []"
  by (simp add: slash_out_def)

lemma slash_out_in: "47 \<notin> set s \<Longrightarrow> slash_out (slash_in s) = s"
  by (induction False "50::nat" "70::nat" "[47::nat]" s rule: replace_pct.induct) (auto simp: slash_out_Cons)

lemma slash_in_same: "47 \<notin> set (slash_in s) \<Longrightarrow> slash_in s = s"
  by (induction False "50::nat" "70::nat" "[47::nat]" s rule: replace_pct.induct) (auto split: if_splits)

lemma slash_in_append: "slash_in (s @ 47 # t) = slash_in s @ 47 # slash_in t"
  by (induction False "50::nat" "70::nat" "[47::nat]" s rule: replace_pct.induct)
    (auto simp: slash_in_char split: list.splits, (cases t; auto simp: slash_in_char)+)

lemma slash_in_well_formed: "well_formed s \<Longrightarrow> well_formed (slash_in s)"
  using well_formed_replace [of _ 50 70 "[47]"] by (auto simp: well_formed_iff [of s])

lemma split_well_formed: "well_formed p \<Longrightarrow> seg \<in> set (split_on 47 p) \<Longrightarrow> well_formed seg \<and> 47 \<notin> set seg"
proof (induction "length p" arbitrary: p rule: less_induct)
  case less
  show ?case
  proof (cases "47 \<in> set p")
    case False
    with less show ?thesis
      by (simp add: split_on_single)
  next
    case True
    then obtain s t where p: "p = s @ 47 # t" "47 \<notin> set s"
      by (meson split_list_first)
    then have wf: "well_formed s" "well_formed t"
      using well_formed_split [of s 47 t] less.prems(1) by auto
    have "seg = s \<or> seg \<in> set (split_on 47 t)"
      using less.prems(2) p by (simp add: split_on_append)
    then show ?thesis
      using less.hyps [of t] wf p by auto
  qed
qed

definition segment_codes :: "jstring \<Rightarrow> jstring \<Rightarrow> bool" where
  "segment_codes seg e \<longleftrightarrow> encodeUriSegment (slash_in seg) = Some e \<and> decodeURIComponent e = Some (slash_in seg) \<and>
     slash_out (slash_in seg) = seg \<and> segment_text e \<and> (e = [] \<longleftrightarrow> seg = [])"

lemma segment_codes_exists: "well_formed seg \<Longrightarrow> 47 \<notin> set seg \<Longrightarrow> \<exists>e. segment_codes seg e"
  using encodeUriSegment_text [OF slash_in_well_formed [of seg]] slash_out_in [of seg]
  unfolding segment_codes_def by (metis slash_in_empty)

lemma segment_text_no_slash: "segment_text e \<Longrightarrow> 47 \<notin> set e"
  by (auto simp: segment_text_def segment_char_def query_char_def unreserved_def)

lemma slash_in_join: "slash_in (join_with [47] ps) = join_with [47] (map slash_in ps)"
  by (induction "[47::nat]" ps rule: join_with.induct) (auto simp: slash_in_append)

definition path_codes :: "jstring \<Rightarrow> jstring \<Rightarrow> bool" where
  "path_codes p s \<longleftrightarrow> encodePath p = Some s \<and> decodePath s True = Some p \<and> decodePath s False = Some (slash_in p) \<and>
     list_all2 segment_codes (split_on 47 p) (split_on 47 s)"

lemma path_codes_exists:
  assumes "well_formed p"
  obtains s where "path_codes p s"
proof -
  have "\<forall>seg \<in> set (split_on 47 p). \<exists>e. segment_codes seg e"
    using split_well_formed [OF assms] segment_codes_exists by blast
  then obtain f where f: "\<forall>seg \<in> set (split_on 47 p). segment_codes seg (f seg)"
    by (auto simp: bchoice_iff)
  define s where "s = join_with [47] (map f (split_on 47 p))"
  have split: "split_on 47 s = map f (split_on 47 p)"
    unfolding s_def by (rule split_on_join) (use f in \<open>auto simp: segment_codes_def segment_text_no_slash\<close>)
  have "sequence_opt (map (\<lambda>seg. encodeUriSegment (slash_in seg)) (split_on 47 p)) = Some (map f (split_on 47 p))"
    by (rule sequence_opt_map) (use f in \<open>auto simp: segment_codes_def\<close>)
  then have "encodePath p = Some s"
    by (simp add: encodePath_def s_def)
  moreover have "sequence_opt (map (\<lambda>e. map_option slash_out (decodeURIComponent e)) (map f (split_on 47 p))) = Some (split_on 47 p)"
    using sequence_opt_map [of "split_on 47 p" "\<lambda>seg. map_option slash_out (decodeURIComponent (f seg))" id] f
    by (simp add: segment_codes_def comp_def)
  then have "decodePath s True = Some p"
    by (simp add: decodePath_def split join_split)
  moreover have "sequence_opt (map (\<lambda>e. map_option id (decodeURIComponent e)) (map f (split_on 47 p))) =
      Some (map slash_in (split_on 47 p))"
    using sequence_opt_map [of "split_on 47 p" "\<lambda>seg. map_option id (decodeURIComponent (f seg))" slash_in] f
    by (simp add: segment_codes_def comp_def)
  then have "decodePath s False = Some (slash_in p)"
    using slash_in_join [of "split_on 47 p"] by (simp add: decodePath_def split join_split)
  moreover have "list_all2 segment_codes (split_on 47 p) (split_on 47 s)"
    using f by (simp add: split list_all2_conv_all_nth)
  ultimately show ?thesis
    using that by (simp add: path_codes_def)
qed

text \<open>
  C26. A path comes back: for every well formed path, \<open>encodePath\<close> gives a text that \<open>decodePath\<close> maps
  back to the path in HTML5 mode, while in hashbang mode every \<open>%2F\<close> of the path has become a slash.
\<close>

theorem path_roundtrip:
  assumes "well_formed p"
  shows "\<exists>s. encodePath p = Some s \<and> decodePath s True = Some p \<and> decodePath s False = Some (replace_pct False 50 70 [47] p)"
  using path_codes_exists [OF assms] unfolding path_codes_def by blast

theorem path_roundtrip_witness:
  "\<exists>s. encodePath (J ''/a%2Fb/c'') = Some s \<and> decodePath s True = Some (J ''/a%2Fb/c'') \<and>
     decodePath s False = Some (replace_pct False 50 70 [47] (J ''/a%2Fb/c''))"
  by (rule path_roundtrip, rule well_formed_ascii) simp

subsection \<open>A composed URL parses back\<close>

text \<open>
  What the code relies on of the anchor element, for a document with a hierarchical scheme: it cuts
  the URL at the query and the fragment and leaves alone a path without dot segments, backslashes and
  characters that need escaping; in a query it escapes the apostrophe.
\<close>

definition mark :: "nat \<Rightarrow> jstring \<Rightarrow> jstring" where
  "mark c s = (if s = [] then [] else c # s)"

definition dot_segment :: "jstring \<Rightarrow> bool" where
  "dot_segment s \<longleftrightarrow> decodeURIComponent s = Some [46] \<or> decodeURIComponent s = Some [46, 46]"

definition plain_path :: "jstring \<Rightarrow> bool" where
  "plain_path p \<longleftrightarrow> take 1 p = [47] \<and> take 1 (tl p) \<noteq> [47] \<and> (\<forall>s \<in> set (split_on 47 p). segment_text s \<and> \<not> dot_segment s)"

definition anchor_splits :: "(jstring \<Rightarrow> anchor_node) \<Rightarrow> bool" where
  "anchor_splits anchor \<longleftrightarrow> (\<forall>p q h. plain_path p \<and> query_text q \<and> segment_text h \<longrightarrow>
     a_pathname (anchor (p @ mark 63 q @ mark 35 h)) = p \<and>
     a_search (anchor (p @ mark 63 q @ mark 35 h)) = mark 63 (escape_quote q) \<and>
     a_hash (anchor (p @ mark 63 q @ mark 35 h)) = mark 35 h)"

definition path_ok :: "jstring \<Rightarrow> bool" where
  "path_ok p \<longleftrightarrow> well_formed p \<and> take 1 p = [47] \<and> take 1 (tl p) \<noteq> [47] \<and> [46] \<notin> set (split_on 47 p) \<and> [46, 46] \<notin> set (split_on 47 p)"

lemma drop_lead_mark [simp]: "drop_lead c (mark c s) = s" "mark c [] = []" "mark c s = [] \<longleftrightarrow> s = []"
  by (auto simp: drop_lead_def mark_def)

lemma escape_quote_empty [simp]: "escape_quote s = [] \<longleftrightarrow> s = []"
  by (cases s) (auto simp: escape_quote_def pct_def)

lemma urlResolve_splits:
  assumes "anchor_splits anchor" "plain_path p" "query_text q" "segment_text h"
  shows "a_pathname (urlResolve anchor (p @ mark 63 q @ mark 35 h)) = p"
    "a_search (urlResolve anchor (p @ mark 63 q @ mark 35 h)) = escape_quote q"
    "a_hash (urlResolve anchor (p @ mark 63 q @ mark 35 h)) = h"
  using assms by (auto simp: anchor_splits_def urlResolve_def Let_def plain_path_def)

lemma segment_codes_dot:
  assumes "segment_codes seg e" "seg \<noteq> [46]" "seg \<noteq> [46, 46]"
  shows "\<not> dot_segment e"
proof
  assume "dot_segment e"
  then have "slash_in seg = [46] \<or> slash_in seg = [46, 46]"
    using assms(1) by (auto simp: dot_segment_def segment_codes_def)
  moreover from this have "slash_in seg = seg"
    by (intro slash_in_same) auto
  ultimately show False
    using assms(2,3) by auto
qed

lemma take1: "take (Suc 0) s = [c] \<longleftrightarrow> (\<exists>t. s = c # t)"
  by (cases s) auto

lemma split_head: "take (Suc 0) s = [d] \<longleftrightarrow> hd (split_on d s) = [] \<and> tl (split_on d s) \<noteq> []"
  by (cases s) (auto split: list.splits)

lemma path_codes_head:
  assumes "path_codes p s"
  shows "take 1 s = [47] \<longleftrightarrow> take 1 p = [47]"
proof -
  have l: "list_all2 segment_codes (split_on 47 p) (split_on 47 s)"
    using assms by (simp add: path_codes_def)
  obtain a as where p: "split_on 47 p = a # as"
    by (cases "split_on 47 p") auto
  moreover obtain b bs where "split_on 47 s = b # bs" "segment_codes a b" "list_all2 segment_codes as bs"
    using l p by (auto simp: list_all2_Cons1)
  ultimately show ?thesis
    by (auto simp: split_head segment_codes_def)
qed

lemma path_codes_tl:
  assumes "path_codes (47 # p) (47 # s)"
  shows "path_codes p s"
proof -
  have j: "join_with [47] xs = t" if "join_with [47] ([] # xs) = 47 # t" for xs :: "nat list list" and t
    using that by (cases xs) auto
  have enc: "encodeUriSegment [] = Some []"
    by (simp add: encodeUriSegment_def encodeUriQuery_def encodeURIComponent_def)
  show ?thesis
    using assms
    by (auto simp: path_codes_def encodePath_def decodePath_def enc slash_in_char split: option.splits
        intro!: j)
qed

lemma path_codes_plain:
  assumes "path_codes p s" "path_ok p"
  shows "plain_path s"
proof -
  obtain p' where p: "p = 47 # p'"
    using assms(2) by (auto simp: path_ok_def take1)
  obtain s' where s: "s = 47 # s'"
    using path_codes_head [OF assms(1)] p by (auto simp: take1)
  have "take 1 s' \<noteq> [47]"
    using path_codes_head [OF path_codes_tl] assms p s by (auto simp: path_ok_def)
  moreover have "segment_text e \<and> \<not> dot_segment e" if "e \<in> set (split_on 47 s)" for e
  proof -
    have l: "list_all2 segment_codes (split_on 47 p) (split_on 47 s)"
      using assms(1) by (simp add: path_codes_def)
    obtain i where i: "i < length (split_on 47 s)" "e = split_on 47 s ! i"
      using \<open>e \<in> set (split_on 47 s)\<close> by (auto simp: in_set_conv_nth)
    then have "i < length (split_on 47 p)" "segment_codes (split_on 47 p ! i) e"
      using l by (auto simp: list_all2_conv_all_nth)
    then obtain seg where "seg \<in> set (split_on 47 p)" "segment_codes seg e"
      using nth_mem by blast
    then show ?thesis
      using segment_codes_dot [of seg e] assms(2) by (auto simp: path_ok_def segment_codes_def)
  qed
  ultimately show ?thesis
    by (simp add: plain_path_def s)
qed

lemma split_on_chars: "c \<in> set s \<Longrightarrow> c = d \<or> (\<exists>p \<in> set (split_on d s). c \<in> set p)"
  by (induction s) (auto split: list.splits)

lemma plain_path_chars: "plain_path s \<Longrightarrow> c \<in> set s \<Longrightarrow> segment_char c \<or> c = 37 \<or> c = 47"
  using split_on_chars [of c s 47] by (auto simp: plain_path_def segment_text_def)

lemma segment_char_plain: "segment_char c \<Longrightarrow> \<not> is_ws c \<and> c \<noteq> 47 \<and> c \<noteq> 92"
  by (auto simp: segment_char_def query_char_def unreserved_def is_ws_def)

lemma plain_path_relative:
  assumes "plain_path (47 # s)"
  shows "\<not> double_slash (s @ mark 63 q @ mark 35 h)" "\<not> double_slash (47 # s @ mark 63 q @ mark 35 h)"
    "take (Suc 0) (s @ mark 63 q @ mark 35 h) \<noteq> [47]"
proof -
  have j: "\<not> is_ws 47" "\<not> is_ws 63" "\<not> is_ws 35" "\<not> is_ws 37"
    by (simp_all add: is_ws_def)
  have d: "double_slash (c # t) \<longleftrightarrow> (c = 47 \<or> c = 92) \<and> (\<exists>e u. t = e # u \<and> (e = 47 \<or> e = 92))" if "\<not> is_ws c" for c t
    using that by (auto simp: double_slash_def split: list.splits)
  consider "s = []" "q = []" "h = []" | "s = []" "q \<noteq> []" | "s = []" "q = []" "h \<noteq> []" | c t where "s = c # t"
    by (cases s) auto
  then have "\<not> double_slash (s @ mark 63 q @ mark 35 h) \<and> \<not> double_slash (47 # s @ mark 63 q @ mark 35 h) \<and>
      take (Suc 0) (s @ mark 63 q @ mark 35 h) \<noteq> [47]"
  proof cases
    case (4 c t)
    then have "c \<noteq> 47" "segment_char c \<or> c = 37"
      using assms plain_path_chars [OF assms, of c] by (auto simp: plain_path_def)
    then have "\<not> is_ws c \<and> c \<noteq> 47 \<and> c \<noteq> 92"
      using segment_char_plain j by auto
    with 4 show ?thesis
      by (simp add: d j)
  qed (simp_all add: d j mark_def, simp add: double_slash_def)
  then show "\<not> double_slash (s @ mark 63 q @ mark 35 h)" "\<not> double_slash (47 # s @ mark 63 q @ mark 35 h)"
    "take (Suc 0) (s @ mark 63 q @ mark 35 h) \<noteq> [47]"
    by auto
qed

text \<open>The parts of a composed URL.\<close>

definition url_parts :: "location \<Rightarrow> jstring \<Rightarrow> jstring \<Rightarrow> jstring \<Rightarrow> bool" where
  "url_parts l s q h \<longleftrightarrow> path_codes (l_path l) s \<and> plain_path s \<and>
     query_text q \<and> parseKeyValue (escape_quote q) = l_search l \<and>
     segment_text h \<and> decodeURIComponent h = Some (l_hash l) \<and>
     url_text l = Some (s @ mark 63 q @ mark 35 h)"

lemma url_parts_exist:
  assumes "path_ok (l_path l)" "query_ok (l_search l)" "well_formed (l_hash l)"
  obtains s q h where "url_parts l s q h"
proof -
  obtain s where s: "path_codes (l_path l) s"
    using path_codes_exists assms(1) by (auto simp: path_ok_def)
  obtain q where q: "toKeyValue (l_search l) = Some q" "parseKeyValue (escape_quote q) = l_search l" "query_text q"
    using assms(2) by (rule toKeyValue_text)
  obtain h where h: "encodeUriSegment (l_hash l) = Some h" "decodeURIComponent h = Some (l_hash l)" "segment_text h"
      "h = [] \<longleftrightarrow> l_hash l = []"
    using assms(3) by (rule encodeUriSegment_text)
  have "url_text l = Some (s @ mark 63 q @ mark 35 h)"
    using s q(1) h(1,4) by (auto simp: url_text_def path_codes_def hash_text_def mark_def)
  with s q h show ?thesis
    using that path_codes_plain [OF s assms(1)] by (auto simp: url_parts_def)
qed

lemma parse_app_html5:
  assumes anchor: "anchor_splits anchor" and u: "url_parts l (47 # s) q h" and p: "l_path l = 47 # p"
    and head: "take (Suc 0) p \<noteq> [47]"
  shows "parseAppUrl anchor (s @ mark 63 q @ mark 35 h) True l = (Inr (), l\<lparr>l_path := if p = [] then [] else 47 # p\<rparr>)"
proof -
  have pp: "plain_path (47 # s)" "query_text q" "segment_text h"
    using u by (simp_all add: url_parts_def)
  have dec: "decodePath s True = Some p" "parseKeyValue (escape_quote q) = l_search l" "decodeURIComponent h = Some (l_hash l)"
    using u p path_codes_tl [of p s] by (auto simp: url_parts_def path_codes_def)
  have "lead_slash p = (if p = [] then [] else 47 # p)"
    using head by (cases p) (auto simp: lead_slash_def)
  then show ?thesis
    using plain_path_relative [OF pp(1), of q h] urlResolve_splits [OF anchor pp] dec
    by (auto simp: parseAppUrl_def Let_def l_defs)
qed

lemma parse_app_hashbang:
  assumes anchor: "anchor_splits anchor" and u: "url_parts l (47 # s) q h"
    and p: "slash_in (l_path l) = l_path l" "l_path l = 47 # p"
  shows "parseAppUrl anchor (47 # s @ mark 63 q @ mark 35 h) False l = (Inr (), l)"
proof -
  have pp: "plain_path (47 # s)" "query_text q" "segment_text h"
    using u by (simp_all add: url_parts_def)
  have dec: "decodePath (47 # s) False = Some (l_path l)" "parseKeyValue (escape_quote q) = l_search l"
    "decodeURIComponent h = Some (l_hash l)"
    using u p by (auto simp: url_parts_def path_codes_def)
  have "lead_slash (l_path l) = l_path l"
    using p by (simp add: lead_slash_def)
  then show ?thesis
    using plain_path_relative [OF pp(1), of q h] urlResolve_splits [OF anchor pp] dec
    by (auto simp: parseAppUrl_def Let_def l_defs)
qed

lemma drive_kept:
  assumes "path_codes p s" "windowsFilePath p \<noteq> None"
  shows "windowsFilePath (s @ r) \<noteq> None"
proof -
  obtain d t where p: "p = 47 # d # 58 # 47 # t" and d: "65 \<le> d" "d \<le> 90"
    using assms(2) by (auto simp: windowsFilePath_def split: list.splits if_splits)
  have "encodeUriSegment [d, 58] = Some (escape_points segment_char [d, 58])"
    using d by (intro encodeUriSegment_points) (auto simp: scalar_def high_surrogate_def low_surrogate_def)
  then have e: "encodeUriSegment [d, 58] = Some [d, 58]"
    using d by (simp add: escape_point_def segment_char_def query_char_def unreserved_def)
  have "split_on 47 p = [] # [d, 58] # split_on 47 t"
    using d by (simp add: p)
  then obtain ps where ps: "split_on 47 s = [] # [d, 58] # ps" "list_all2 segment_codes (split_on 47 t) ps"
    using assms(1) d e by (auto simp: path_codes_def list_all2_Cons1 segment_codes_def)
  then have "ps \<noteq> []"
    by auto
  then have "\<exists>t'. join_with [47] ([] # [d, 58] # ps) = 47 # d # 58 # 47 # t'"
    by (cases ps) auto
  then obtain t' where "s = 47 # d # 58 # 47 # t'"
    using join_split [of 47 s] ps(1) by auto
  then show ?thesis
    using d by (simp add: windowsFilePath_def)
qed

definition location_ok :: "location \<Rightarrow> bool" where
  "location_ok l \<longleftrightarrow> path_ok (l_path l) \<and> query_ok (l_search l) \<and> well_formed (l_hash l) \<and>
     (l_kind l \<noteq> Html5Url \<longrightarrow> replace_pct False 50 70 [47] (l_path l) = l_path l \<and> take 1 (prefix_text l) = [35] \<and>
        appBase l \<noteq> [] \<and> hd (appBase l) \<noteq> 47)"

lemma strip_own_prefix [simp]: "stripBaseUrl b (b @ u) = Some u"
  by (simp add: stripBaseUrl_def startsWith_def)

lemma l_path_update_same: "f (l_path l) = l_path l \<Longrightarrow> l_path_update f l = l"
  by (cases l) simp

lemma l_path_update_apply: "l_path_update f l = l\<lparr>l_path := f (l_path l)\<rparr>"
  by (cases l) simp

lemma abs_url_fields: "abs_url (l\<lparr>l_url := a, l_absUrl := b, urlUpdatedByLocation := c\<rparr>) u = abs_url l u"
  by (cases "l_kind l") (simp_all add: abs_url_def)

lemma compose_same:
  assumes "url_text l = Some u" "l_url l = u" "l_absUrl l = abs_url l u" "urlUpdatedByLocation l"
  shows "compose l = (Inr (), l)"
  using assms by (simp add: compose_def)

lemma parse_html5_same:
  assumes anchor: "anchor_splits anchor" and u: "url_parts l s q h" and ok: "location_ok l" and same: "compose l = (Inr (), l)"
    and k: "l_kind l = Html5Url" and abs: "l_absUrl l = abs_url l (s @ mark 63 q @ mark 35 h)"
  shows "parse_url anchor (l_absUrl l) l = (Inr (), l)"
proof -
  obtain p where p: "l_path l = 47 # p" "take (Suc 0) p \<noteq> [47]"
    using ok by (auto simp: location_ok_def path_ok_def take1)
  obtain s' where s: "s = 47 # s'"
    using u p(1) path_codes_head [of "l_path l" s] by (auto simp: url_parts_def take1)
  have "parseAppUrl anchor (s' @ mark 63 q @ mark 35 h) True l = (Inr (), l\<lparr>l_path := if p = [] then [] else 47 # p\<rparr>)"
    using parse_app_html5 [OF anchor _ p] u s by simp
  then have parse: "parseAppUrl anchor (s' @ mark 63 q @ mark 35 h) True l = (Inr (), l') \<Longrightarrow>
      l_path l' = [] \<or> l_path l' = 47 # p \<Longrightarrow> l'\<lparr>l_path := if l_path l' = [] then [47] else l_path l'\<rparr> = l \<Longrightarrow> ?thesis" for l'
    using k abs s same l_path_update_apply [of "\<lambda>p. if p = [] then [47] else p" l']
    by (simp add: parse_url_def parse_html5_def abs_url_def l_defs)
  show ?thesis
    by (rule parse [OF \<open>parseAppUrl anchor _ True l = _\<close>]) (use p in auto)
qed

lemma parse_hashbang_same:
  assumes anchor: "anchor_splits anchor" and u: "url_parts l s q h" and ok: "location_ok l" and same: "compose l = (Inr (), l)"
    and k: "l_kind l \<noteq> Html5Url" and abs: "l_absUrl l = abs_url l (s @ mark 63 q @ mark 35 h)"
  shows "parse_url anchor (l_absUrl l) l = (Inr (), l)"
proof -
  let ?u = "s @ mark 63 q @ mark 35 h"
  have hb: "slash_in (l_path l) = l_path l" "take (Suc 0) (prefix_text l) = [35]" "appBase l \<noteq> []" "hd (appBase l) \<noteq> 47"
    using ok k by (auto simp: location_ok_def)
  obtain p where p: "l_path l = 47 # p"
    using ok by (auto simp: location_ok_def path_ok_def take1)
  obtain s' where s: "s = 47 # s'"
    using u p path_codes_head [of "l_path l" s] by (auto simp: url_parts_def take1)
  have app: "parseAppUrl anchor ?u False l = (Inr (), l)"
    using parse_app_hashbang [OF anchor _ hb(1) p] u s by simp
  have "\<not> startsWith ?u (appBase l)"
    using s hb(3,4) by (cases "appBase l") (auto simp: startsWith_def)
  then have drive: "removeWindowsDriveName (l_path l) ?u (appBase l) = l_path l"
    using drive_kept [of "l_path l" s "mark 63 q @ mark 35 h"] u
    by (auto simp: removeWindowsDriveName_def url_parts_def split: option.split)
  obtain pre where pre: "prefix_text l = 35 # pre"
    using hb(2) by (auto simp: take1)
  have "l_absUrl l = appBase l @ prefix_text l @ ?u"
    using abs k s by (cases "l_kind l") (auto simp: abs_url_def)
  then have "without_hash l (l_absUrl l) = (Some ?u, appBase l)"
    using pre strip_own_prefix [of "prefix_text l" ?u] by (simp add: without_hash_def without_base_def)
  moreover have "l\<lparr>appBase := appBase l\<rparr> = l"
    by simp
  moreover have "compose (l_path_update (\<lambda>p. removeWindowsDriveName p ?u (appBase l)) l) = (Inr (), l)"
    using same by (subst l_path_update_same) (rule drive)
  ultimately show ?thesis
    using k app drive same by (cases "l_kind l") (simp_all add: parse_url_def parse_hashbang_def l_defs)
qed

text \<open>
  C27. A composed URL parses back, in all three kinds of location. Where the anchor element splits
  URLs as documented and the parts of the location are in order (\<open>location_ok\<close>: a path without
  double slash and dot segments, a query that can be written, a well formed fragment; in hashbang mode
  a path without an escaped slash), \<open>$$compose\<close> does not throw, and \<open>$$parse\<close> of the absolute URL it
  leaves is the identity on the location it leaves.
\<close>

theorem composed_url_parses_back:
  assumes "anchor_splits anchor" "location_ok l"
  shows "\<exists>l'. compose l = (Inr (), l') \<and> parse_url anchor (l_absUrl l') l' = (Inr (), l')"
proof -
  have "path_ok (l_path l)" "query_ok (l_search l)" "well_formed (l_hash l)"
    using assms(2) by (simp_all add: location_ok_def)
  then obtain s q h where u: "url_parts l s q h"
    by (rule url_parts_exist)
  define u where "u = s @ mark 63 q @ mark 35 h"
  define l' where "l' = l\<lparr>l_url := u, l_absUrl := abs_url l u, urlUpdatedByLocation := True\<rparr>"
  have c: "compose l = (Inr (), l')"
    using u by (simp add: compose_def url_parts_def u_def l'_def)
  have fields: "l_kind l' = l_kind l" "l_absUrl l' = abs_url l' u" "url_text l' = url_text l" "location_ok l' = location_ok l"
    "l_url l' = u" "urlUpdatedByLocation l'" "url_parts l' s q h"
    using u by (simp_all add: l'_def abs_url_fields url_text_def location_ok_def url_parts_def)
  have "compose l' = (Inr (), l')"
    using fields u by (intro compose_same) (simp_all add: url_parts_def u_def)
  then have "parse_url anchor (l_absUrl l') l' = (Inr (), l')"
    using parse_html5_same [OF assms(1) fields(7)] parse_hashbang_same [OF assms(1) fields(7)] fields assms(2)
    by (cases "l_kind l'") (simp_all add: u_def)
  with c show ?thesis
    by blast
qed

text \<open>An anchor element that only cuts, for a document at \<open>http://host/\<close>.\<close>

definition cutting_anchor :: "jstring \<Rightarrow> anchor_node" where
  "cutting_anchor url =
     (let rest = dropWhile (\<lambda>c. c \<noteq> 63 \<and> c \<noteq> 35) url
      in \<lparr>a_protocol = J ''http:'', a_hostname = J ''host'', a_port = [],
          a_pathname = takeWhile (\<lambda>c. c \<noteq> 63 \<and> c \<noteq> 35) url,
          a_search = escape_quote (takeWhile (\<lambda>c. c \<noteq> 35) rest),
          a_hash = dropWhile (\<lambda>c. c \<noteq> 35) rest\<rparr>)"

lemma cutting_anchor_splits: "anchor_splits cutting_anchor"
proof -
  have cut: "takeWhile (\<lambda>c. c \<noteq> 63 \<and> c \<noteq> 35) (p @ mark 63 q @ mark 35 h) = p \<and>
    dropWhile (\<lambda>c. c \<noteq> 63 \<and> c \<noteq> 35) (p @ mark 63 q @ mark 35 h) = mark 63 q @ mark 35 h \<and>
    takeWhile (\<lambda>c. c \<noteq> 35) (mark 63 q @ mark 35 h) = mark 63 q \<and>
    dropWhile (\<lambda>c. c \<noteq> 35) (mark 63 q @ mark 35 h) = mark 35 h"
    if "plain_path p" "query_text q" for p q h
  proof -
    have p: "c \<noteq> 63 \<and> c \<noteq> 35" if "c \<in> set p" for c
      using plain_path_chars [OF \<open>plain_path p\<close> that] by (auto simp: segment_char_def query_char_def unreserved_def)
    have q: "c \<noteq> 35" if "c \<in> set q" for c
      using \<open>query_text q\<close> that by (auto simp: query_text_def query_char_def unreserved_def)
    have m: "takeWhile (\<lambda>c. c \<noteq> 63 \<and> c \<noteq> 35) (mark 63 q @ mark 35 h) = []"
      "dropWhile (\<lambda>c. c \<noteq> 63 \<and> c \<noteq> 35) (mark 63 q @ mark 35 h) = mark 63 q @ mark 35 h"
      "takeWhile (\<lambda>c. c \<noteq> 35) (mark 35 h) = []" "dropWhile (\<lambda>c. c \<noteq> 35) (mark 35 h) = mark 35 h"
      by (auto simp: mark_def)
    have "\<forall>c \<in> set (mark 63 q). c \<noteq> 35"
      using q by (auto simp: mark_def)
    then show ?thesis
      using p m by (simp add: takeWhile_append2 dropWhile_append2)
  qed
  have "escape_quote (mark 63 q) = mark 63 (escape_quote q)" for q
    by (simp add: mark_def)
  with cut show ?thesis
    unfolding anchor_splits_def by (auto simp: cutting_anchor_def Let_def)
qed

definition example_location :: location where
  "example_location = (new_location cutting_anchor HashbangUrl (J ''http://host/'') (J ''http://host/'') (J ''#!''))
     \<lparr>l_path := J ''/a b'', l_search := [(J ''q'', One (QText (J ''x&y'')))], l_hash := J ''h''\<rparr>"

theorem composed_url_parses_back_witness:
  "\<exists>l'. compose example_location = (Inr (), l') \<and> parse_url cutting_anchor (l_absUrl l') l' = (Inr (), l')"
proof (rule composed_url_parses_back [OF cutting_anchor_splits])
  show "location_ok example_location"
    by (simp add: location_ok_def path_ok_def query_ok_def example_location_def new_location_def parseAbsoluteUrl_def
        blank_location_def Let_def well_formed_def high_surrogate_def low_surrogate_def has_forEach_def items_of_def item_ok_def)
qed

end
