(* ===== verification/NgTree.thy ===== *)
theory NgTree
  imports JsNum
begin

section \<open>Data trees and angular.equals\<close>

text \<open>
  The data that filters and comparisons work on: values without sharing, as trees. A function is an
  opaque number, an object lists its own enumerable properties in the order of enumeration. Regular
  expressions, files and DOM nodes are no trees; the property \<open>__proto__\<close> is outside the model.
\<close>

datatype jtree =
    TUndef | TNull | TBool bool | TNum jnum | TStr jstring | TFun nat | TDate jnum
  | TArr "jtree list" | TObj "(jstring \<times> jtree) list"

subsection \<open>Properties\<close>

definition object_methods :: "jstring list" where
  "object_methods = map J [''constructor'', ''hasOwnProperty'', ''isPrototypeOf'', ''propertyIsEnumerable'',
     ''toLocaleString'', ''toString'', ''valueOf'', ''__defineGetter__'', ''__defineSetter__'', ''__lookupGetter__'',
     ''__lookupSetter__'']"

definition date_methods :: "jstring list" where
  "date_methods = map J [''getDate'', ''getDay'', ''getFullYear'', ''getHours'', ''getMilliseconds'', ''getMinutes'',
     ''getMonth'', ''getSeconds'', ''getTime'', ''getTimezoneOffset'', ''getUTCDate'', ''getUTCDay'', ''getUTCFullYear'',
     ''getUTCHours'', ''getUTCMilliseconds'', ''getUTCMinutes'', ''getUTCMonth'', ''getUTCSeconds'', ''getYear'',
     ''setDate'', ''setFullYear'', ''setHours'', ''setMilliseconds'', ''setMinutes'', ''setMonth'', ''setSeconds'',
     ''setTime'', ''setUTCDate'', ''setUTCFullYear'', ''setUTCHours'', ''setUTCMilliseconds'', ''setUTCMinutes'',
     ''setUTCMonth'', ''setUTCSeconds'', ''setYear'', ''toDateString'', ''toGMTString'', ''toISOString'', ''toJSON'',
     ''toLocaleDateString'', ''toLocaleTimeString'', ''toTimeString'', ''toUTCString'']"

text \<open>The enumerable own properties, \<open>for (key in o)\<close>, and the value of \<open>o[key]\<close> on an object.\<close>

definition index_key :: "nat \<Rightarrow> jstring" where
  "index_key i = int_digits (int i)"

fun entries :: "jtree \<Rightarrow> (jstring \<times> jtree) list" where
  "entries (TObj ps) = ps"
| "entries (TArr xs) = zip (map index_key [0..<length xs]) xs"
| "entries v = []"

definition get_prop :: "jtree \<Rightarrow> jstring \<Rightarrow> jtree" where
  "get_prop v key =
     (case map_of (entries v) key of
        Some x \<Rightarrow> x
      | None \<Rightarrow>
          if key \<in> set object_methods \<or> (\<exists>t. v = TDate t) \<and> key \<in> set date_methods then TFun 0 else TUndef)"

definition has_key :: "jtree \<Rightarrow> jstring \<Rightarrow> bool" where
  "has_key v key \<longleftrightarrow> key \<in> fst ` set (entries v) \<or> key \<in> set object_methods \<or> (\<exists>t. v = TDate t) \<and> key \<in> set date_methods"

subsection \<open>The predicates of the framework\<close>

definition isUndefined :: "jtree \<Rightarrow> bool" where
  "isUndefined v \<longleftrightarrow> v = TUndef"

definition isDefined :: "jtree \<Rightarrow> bool" where
  "isDefined v \<longleftrightarrow> v \<noteq> TUndef"

fun isFunction :: "jtree \<Rightarrow> bool" where
  "isFunction (TFun f) = True"
| "isFunction v = False"

fun isArray :: "jtree \<Rightarrow> bool" where
  "isArray (TArr xs) = True"
| "isArray v = False"

fun isDate :: "jtree \<Rightarrow> bool" where
  "isDate (TDate t) = True"
| "isDate v = False"

fun isString :: "jtree \<Rightarrow> bool" where
  "isString (TStr s) = True"
| "isString v = False"

fun isNumber :: "jtree \<Rightarrow> bool" where
  "isNumber (TNum n) = True"
| "isNumber v = False"

fun isObject :: "jtree \<Rightarrow> bool" where
  "isObject (TObj ps) = True"
| "isObject (TArr xs) = True"
| "isObject (TDate t) = True"
| "isObject v = False"

fun truthy_tree :: "jtree \<Rightarrow> bool" where
  "truthy_tree TUndef = False"
| "truthy_tree TNull = False"
| "truthy_tree (TBool b) = b"
| "truthy_tree (TNum n) = (n \<noteq> NaN \<and> \<not> num_eq n (Fin 0))"
| "truthy_tree (TStr s) = (s \<noteq> [])"
| "truthy_tree v = True"

definition isScope :: "jtree \<Rightarrow> bool" where
  "isScope v \<longleftrightarrow> truthy_tree (get_prop v (J ''$evalAsync'')) \<and> truthy_tree (get_prop v (J ''$watch''))"

text \<open>An object with a \<open>toString\<close> of its own (arrays and dates have their own too).\<close>

definition hasCustomToString :: "jtree \<Rightarrow> bool" where
  "hasCustomToString v =
     (case v of
        TObj ps \<Rightarrow> (case map_of ps (J ''toString'') of Some f \<Rightarrow> isFunction f | None \<Rightarrow> False)
      | TUndef \<Rightarrow> False | TNull \<Rightarrow> False | _ \<Rightarrow> True)"

definition isArrayLike :: "jtree \<Rightarrow> bool" where
  "isArrayLike v =
     (case v of
        TArr xs \<Rightarrow> True
      | TStr s \<Rightarrow> True
      | TObj ps \<Rightarrow>
          (case get_prop v (J ''length'') of
             TNum n \<Rightarrow> num_le (Fin 0) n \<and> has_key v (num_to_string (num_sub n (Fin 1))) \<or> isFunction (get_prop v (J ''item''))
           | _ \<Rightarrow> False)
      | _ \<Rightarrow> False)"

subsection \<open>equals\<close>

definition simpleCompare :: "jnum \<Rightarrow> jnum \<Rightarrow> bool" where
  "simpleCompare a b \<longleftrightarrow> num_eq a b \<or> a = NaN \<and> b = NaN"

definition hidden_key :: "jstring \<Rightarrow> bool" where
  "hidden_key key \<longleftrightarrow> take 1 key = [36]"

text \<open>
  Two references to one array or object are the same tree; that shortcut is left out, as it agrees
  with the comparison of the parts (scopes, which are compared by reference only, are excluded where
  it matters).
\<close>

lemma size_item: "x \<in> set xs \<Longrightarrow> size x < size (TArr xs)"
  by (simp add: less_Suc_eq_le size_list_estimation')

lemma size_entry: "(k, x) \<in> set ps \<Longrightarrow> size x < size (TObj ps)"
  using size_list_estimation' [of "(k, x)" ps "size x" "size_prod (\<lambda>_. 0) size"]
  by (simp add: less_Suc_eq_le)

function equals :: "jtree \<Rightarrow> jtree \<Rightarrow> bool" where
  "equals u v =
     (case u of
        TArr xs \<Rightarrow>
          (case v of
             TArr ys \<Rightarrow> length xs = length ys \<and> list_all (\<lambda>p. equals (fst p) (snd p)) (zip xs ys)
           | _ \<Rightarrow> False)
      | TObj a \<Rightarrow>
          (case v of
             TObj b \<Rightarrow>
               if isScope u \<or> isScope v then False
               else if list_all (\<lambda>p. hidden_key (fst p) \<or> isFunction (snd p) \<or> equals (snd p) (get_prop v (fst p))) a
               then list_all (\<lambda>(k, x).
                      (case map_of a k of Some y \<Rightarrow> \<not> hidden_key k \<and> \<not> isFunction y | None \<Rightarrow> False) \<or>
                      hidden_key k \<or> isUndefined x \<or> isFunction x) b
               else False
           | _ \<Rightarrow> False)
      | TDate s \<Rightarrow> (case v of TDate t \<Rightarrow> simpleCompare s t | _ \<Rightarrow> False)
      | TNum m \<Rightarrow> (case v of TNum n \<Rightarrow> simpleCompare m n | _ \<Rightarrow> False)
      | _ \<Rightarrow> u = v)"
  by pat_completeness auto
termination
proof (relation "measure (size \<circ> fst)", goal_cases)
  case (2 u v xs ys p)
  then have "fst p \<in> set xs"
    by (metis prod.collapse set_zip_leftD)
  then show ?case
    using size_item [of "fst p" xs] 2 by simp
next
  case (3 u v a b p)
  then show ?case
    using size_entry [of "fst p" "snd p" a] by simp
qed auto

declare equals.simps [simp del]

lemma equals_simps [simp]:
  "equals (TArr xs) (TArr ys) \<longleftrightarrow> list_all2 equals xs ys"
  "equals (TDate s) (TDate t) = simpleCompare s t"
  "equals (TNum m) (TNum n) = simpleCompare m n"
  "equals TUndef v \<longleftrightarrow> v = TUndef" "equals TNull v \<longleftrightarrow> v = TNull" "equals (TFun f) v \<longleftrightarrow> v = TFun f"
  "equals (TStr r) v \<longleftrightarrow> v = TStr r" "equals (TBool b) v \<longleftrightarrow> v = TBool b"
  by (subst equals.simps; auto simp: list_all2_iff list_all_iff)+

lemma equals_kinds:
  "equals (TArr xs) v \<Longrightarrow> \<exists>ys. v = TArr ys" "equals (TObj a) v \<Longrightarrow> \<exists>b. v = TObj b"
  "equals (TDate s) v \<Longrightarrow> \<exists>t. v = TDate t" "equals (TNum m) v \<Longrightarrow> \<exists>n. v = TNum n"
  by (cases v; subst (asm) equals.simps; simp)+

subsection \<open>equals on plain data\<close>

text \<open>
  Plain data: no functions, no object that looks like a scope, distinct keys, and no key that hides a
  method every object inherits.
\<close>

function plain :: "jtree \<Rightarrow> bool" where
  "plain v =
     (case v of
        TFun f \<Rightarrow> False
      | TArr xs \<Rightarrow> list_all plain xs
      | TObj ps \<Rightarrow> distinct (map fst ps) \<and> \<not> isScope v \<and>
          list_all (\<lambda>p. fst p \<notin> set object_methods \<and> plain (snd p)) ps
      | _ \<Rightarrow> True)"
  by pat_completeness auto
termination
proof (relation "measure size", goal_cases)
  case (2 v xs x)
  then show ?case
    using size_item [of x xs] by simp
next
  case (3 v ps p)
  then show ?case
    using size_entry [of "fst p" "snd p" ps] by simp
qed auto

declare plain.simps [simp del]

lemma plain_simps [simp]:
  "\<not> plain (TFun f)" "plain TUndef" "plain TNull" "plain (TBool b)" "plain (TNum n)" "plain (TStr s)" "plain (TDate t)"
  "plain (TArr xs) \<longleftrightarrow> (\<forall>x \<in> set xs. plain x)"
  by (subst plain.simps; simp add: list_all_iff)+

lemma plain_TObj:
  "plain (TObj ps) \<longleftrightarrow> distinct (map fst ps) \<and> \<not> isScope (TObj ps) \<and>
     (\<forall>(k, x) \<in> set ps. k \<notin> set object_methods \<and> plain x)"
  by (subst plain.simps) (auto simp: list_all_iff)

definition value_at :: "(jstring \<times> jtree) list \<Rightarrow> jstring \<Rightarrow> jtree" where
  "value_at ps k = (case map_of ps k of Some x \<Rightarrow> x | None \<Rightarrow> TUndef)"

lemma value_at_smaller: "size (value_at ps k) < size (TObj ps)"
  by (auto simp: value_at_def split: option.split dest!: map_of_SomeD size_entry)

lemma value_at_plain: "plain (TObj ps) \<Longrightarrow> plain (value_at ps k)"
  by (auto simp: value_at_def plain_TObj split: option.split dest!: map_of_SomeD)

lemma plain_not_function: "plain x \<Longrightarrow> \<not> isFunction x"
  by (cases x) auto

text \<open>Two plain objects are equal when they agree on every visible key.\<close>

lemma equals_objects:
  assumes a: "plain (TObj a)" and b: "plain (TObj b)"
  shows "equals (TObj a) (TObj b) \<longleftrightarrow>
    (\<forall>k. \<not> hidden_key k \<and> k \<notin> set object_methods \<longrightarrow> equals (value_at a k) (value_at b k))"
proof -
  have scope: "\<not> isScope (TObj a)" "\<not> isScope (TObj b)"
    using a b by (simp_all add: plain_TObj)
  have get: "get_prop (TObj b) k = value_at b k" if "k \<notin> set object_methods" for k
    using that by (simp add: get_prop_def value_at_def split: option.split)
  have fn: "\<not> isFunction x" if "(k, x) \<in> set a \<or> (k, x) \<in> set b" for k x
    using that a b by (auto simp: plain_TObj plain_not_function)
  have keys: "k \<notin> set object_methods" if "(k, x) \<in> set a \<or> (k, x) \<in> set b" for k x
    using that a b by (auto simp: plain_TObj)
  have at: "value_at ps k = x" if "(k, x) \<in> set ps" "plain (TObj ps)" for ps k x
    using that by (simp add: value_at_def plain_TObj)
  have "(\<forall>p \<in> set a. hidden_key (fst p) \<or> isFunction (snd p) \<or> equals (snd p) (get_prop (TObj b) (fst p))) \<longleftrightarrow>
      (\<forall>p \<in> set a. hidden_key (fst p) \<or> equals (snd p) (value_at b (fst p)))"
    by (rule ball_cong [OF refl]) (metis fn keys get prod.collapse)
  moreover have "(case map_of a (fst p) of Some y \<Rightarrow> \<not> hidden_key (fst p) \<and> \<not> isFunction y | None \<Rightarrow> False) \<or>
        hidden_key (fst p) \<or> isUndefined (snd p) \<or> isFunction (snd p) \<longleftrightarrow>
      map_of a (fst p) \<noteq> None \<or> hidden_key (fst p) \<or> snd p = TUndef" if "p \<in> set b" for p
    using fn [of "fst p" "snd p"] fn [of "fst p"] that
    by (auto simp: isUndefined_def split: option.split dest!: map_of_SomeD)
  ultimately have eq: "equals (TObj a) (TObj b) \<longleftrightarrow>
      (\<forall>p \<in> set a. hidden_key (fst p) \<or> equals (snd p) (value_at b (fst p))) \<and>
      (\<forall>p \<in> set b. map_of a (fst p) \<noteq> None \<or> hidden_key (fst p) \<or> snd p = TUndef)"
    using scope by (subst equals.simps) (simp add: list_all_iff case_prod_unfold)
  show ?thesis
  proof
    assume e: "equals (TObj a) (TObj b)"
    show "\<forall>k. \<not> hidden_key k \<and> k \<notin> set object_methods \<longrightarrow> equals (value_at a k) (value_at b k)"
    proof (intro allI impI)
      fix k
      assume k: "\<not> hidden_key k \<and> k \<notin> set object_methods"
      show "equals (value_at a k) (value_at b k)"
      proof (cases "map_of a k")
        case (Some x)
        then show ?thesis
          using e k unfolding eq by (fastforce simp: value_at_def [of a] dest: map_of_SomeD)
      next
        case None
        then have "value_at b k = TUndef"
          using e k unfolding eq by (fastforce simp: value_at_def split: option.split dest: map_of_SomeD)
        with None show ?thesis
          by (simp add: value_at_def [of a])
      qed
    qed
  next
    assume e: "\<forall>k. \<not> hidden_key k \<and> k \<notin> set object_methods \<longrightarrow> equals (value_at a k) (value_at b k)"
    have "hidden_key k \<or> equals x (value_at b k)" if "(k, x) \<in> set a" for k x
      using e keys [of k x] at [OF that a] that by auto
    moreover have "map_of a k \<noteq> None \<or> hidden_key k \<or> x = TUndef" if "(k, x) \<in> set b" for k x
    proof (cases "map_of a k")
      case None
      then have "value_at a k = TUndef"
        by (simp add: value_at_def)
      then show ?thesis
        using e keys [of k x] at [OF that b] that by (auto simp: isUndefined_def)
    qed simp
    ultimately show "equals (TObj a) (TObj b)"
      unfolding eq by (metis prod.collapse)
  qed
qed

lemma simpleCompare_equivalence:
  "simpleCompare a a" "simpleCompare a b \<Longrightarrow> simpleCompare b a"
  "simpleCompare a b \<Longrightarrow> simpleCompare b c \<Longrightarrow> simpleCompare a c"
  using num_eq_sym [of a b] num_eq_trans [of a b c] by (auto simp: simpleCompare_def)

lemma plain_equals_object:
  assumes "plain (TObj a)" "equals (TObj a) v"
  obtains b where "v = TObj b"
  using assms equals_kinds(2) by blast

lemma equals_reflexive: "plain u \<Longrightarrow> equals u u"
proof (induction "size u" arbitrary: u rule: less_induct)
  case less
  show ?case
  proof (cases u)
    case (TArr xs)
    then have "equals x x" if "x \<in> set xs" for x
      using less that size_item [OF that] by auto
    with TArr show ?thesis
      by (simp add: list.rel_refl_strong)
  next
    case (TObj a)
    then have "equals (value_at a k) (value_at a k)" for k
      using less value_at_smaller [of a k] value_at_plain [of a k] by auto
    with TObj less show ?thesis
      by (simp add: equals_objects)
  qed (use less simpleCompare_equivalence(1) in auto)
qed

lemma equals_symmetric: "plain u \<Longrightarrow> plain v \<Longrightarrow> equals u v \<Longrightarrow> equals v u"
proof (induction "size u" arbitrary: u v rule: less_induct)
  case less
  show ?case
  proof (cases u)
    case (TArr xs)
    then obtain ys where v: "v = TArr ys"
      using less.prems by (auto dest: equals_kinds)
    have "list_all2 equals ys xs"
      unfolding list_all2_conv_all_nth
    proof (intro conjI allI impI)
      show "length ys = length xs"
        using less.prems TArr v by (auto dest: list_all2_lengthD)
      fix i assume "i < length ys"
      then have "i < length xs" "equals (xs ! i) (ys ! i)"
        using less.prems TArr v by (auto simp: list_all2_conv_all_nth)
      moreover from this have "plain (xs ! i)" "plain (ys ! i)"
        using less.prems TArr v \<open>i < length ys\<close> by simp_all
      ultimately show "equals (ys ! i) (xs ! i)"
        using less.hyps [of "xs ! i" "ys ! i"] TArr size_item [of "xs ! i" xs] by simp
    qed
    with TArr v show ?thesis
      by simp
  next
    case (TObj a)
    then obtain b where v: "v = TObj b"
      using less.prems by (auto dest: equals_kinds)
    have ab: "plain (TObj a)" "plain (TObj b)" "equals (TObj a) (TObj b)"
      using less.prems TObj v by simp_all
    have "equals (value_at b k) (value_at a k)" if "equals (value_at a k) (value_at b k)" for k
      using less.hyps [of "value_at a k" "value_at b k"] that ab value_at_plain value_at_smaller [of a k] TObj by simp
    then show ?thesis
      using ab by (simp add: TObj v equals_objects)
  next
    case (TNum m)
    with less.prems obtain n where "v = TNum n"
      by (metis equals_kinds(4))
    with TNum less.prems simpleCompare_equivalence(2) show ?thesis
      by simp
  next
    case (TDate s)
    with less.prems obtain t where "v = TDate t"
      by (metis equals_kinds(3))
    with TDate less.prems simpleCompare_equivalence(2) show ?thesis
      by simp
  qed (use less.prems in auto)
qed

lemma equals_transitive: "plain u \<Longrightarrow> plain v \<Longrightarrow> plain w \<Longrightarrow> equals u v \<Longrightarrow> equals v w \<Longrightarrow> equals u w"
proof (induction "size u" arbitrary: u v w rule: less_induct)
  case less
  show ?case
  proof (cases u)
    case (TArr xs)
    then obtain ys zs where v: "v = TArr ys" "w = TArr zs"
      using less.prems by (auto dest!: equals_kinds)
    have "list_all2 equals xs zs"
      unfolding list_all2_conv_all_nth
    proof (intro conjI allI impI)
      show "length xs = length zs"
        using less.prems TArr v by (auto dest!: list_all2_lengthD)
      fix i assume i: "i < length xs"
      then have e: "equals (xs ! i) (ys ! i)" "equals (ys ! i) (zs ! i)" "i < length ys" "i < length zs"
        using less.prems TArr v by (auto simp: list_all2_conv_all_nth)
      then have "plain (xs ! i)" "plain (ys ! i)" "plain (zs ! i)"
        using less.prems TArr v i by simp_all
      with e show "equals (xs ! i) (zs ! i)"
        using less.hyps [of "xs ! i" "ys ! i" "zs ! i"] TArr size_item [of "xs ! i" xs] i by simp
    qed
    with TArr v show ?thesis
      by simp
  next
    case (TObj a)
    then obtain b c where v: "v = TObj b" "w = TObj c"
      using less.prems by (auto dest!: equals_kinds)
    have ab: "plain (TObj a)" "plain (TObj b)" "plain (TObj c)" "equals (TObj a) (TObj b)" "equals (TObj b) (TObj c)"
      using less.prems TObj v by simp_all
    have "equals (value_at a k) (value_at c k)" if "equals (value_at a k) (value_at b k)" "equals (value_at b k) (value_at c k)" for k
      using less.hyps [of "value_at a k" "value_at b k" "value_at c k"] that ab value_at_plain value_at_smaller [of a k] TObj
      by simp
    then show ?thesis
      using ab by (simp add: TObj v equals_objects)
  next
    case (TNum l)
    with less.prems obtain m n where "v = TNum m" "w = TNum n"
      by (metis equals_kinds(4))
    with TNum less.prems simpleCompare_equivalence(3) [of l m n] show ?thesis
      by simp
  next
    case (TDate r)
    with less.prems obtain s t where "v = TDate s" "w = TDate t"
      by (metis equals_kinds(3))
    with TDate less.prems simpleCompare_equivalence(3) [of r s t] show ?thesis
      by simp
  qed (use less.prems in auto)
qed

text \<open>
  C28. On plain data (no functions, no scopes, distinct keys, no key of an inherited method),
  \<open>angular.equals\<close> is an equivalence relation: reflexive, symmetric and transitive.
\<close>

theorem equals_equivalence:
  assumes "plain u" "plain v" "plain w"
  shows "equals u u \<and> equals u v = equals v u \<and> (equals u v \<and> equals v w \<longrightarrow> equals u w)"
  using assms equals_reflexive equals_symmetric equals_transitive by blast

theorem equals_equivalence_witness:
  "equals (TObj [(J ''a'', TNum NaN)]) (TObj [(J ''$x'', TNull), (J ''a'', TNum NaN)])"
proof -
  have p: "plain (TObj [(J ''a'', TNum NaN)])" "plain (TObj [(J ''a'', TNum NaN), (J ''b'', TUndef)])"
    "plain (TObj [(J ''$x'', TNull), (J ''a'', TNum NaN)])"
    by (simp_all add: plain_TObj isScope_def get_prop_def object_methods_def)
  have "equals (TObj [(J ''a'', TNum NaN)]) (TObj [(J ''a'', TNum NaN), (J ''b'', TUndef)])"
    "equals (TObj [(J ''a'', TNum NaN), (J ''b'', TUndef)]) (TObj [(J ''$x'', TNull), (J ''a'', TNum NaN)])"
    by (simp_all add: equals.simps [of "TObj _"] isScope_def get_prop_def hidden_key_def isUndefined_def object_methods_def
        simpleCompare_def)
  then show ?thesis
    using equals_equivalence [OF p] by blast
qed


end
