(* ===== verification/NgFilter.thy ===== *)
theory NgFilter
  imports NgTree
begin

section \<open>The filters filter and limitTo\<close>

text \<open>
  \<open>filterFilter\<close> with \<open>createPredicateFn\<close> and \<open>deepCompare\<close>, and \<open>limitToFilter\<close> with \<open>sliceFn\<close>, on
  data trees. What the page supplies is a record: the conversion to lower case, the text of a
  function or of an object with a \<open>toString\<close> of its own, and the result of calling a function.
\<close>

record page =
  lower_case :: "jstring \<Rightarrow> jstring"
  host_text :: "jtree \<Rightarrow> jstring"
  host_call :: "nat \<Rightarrow> jtree list \<Rightarrow> jtree"

definition typeof_tree :: "jtree \<Rightarrow> jstring" where
  "typeof_tree v =
     (case v of
        TUndef \<Rightarrow> J ''undefined'' | TBool b \<Rightarrow> J ''boolean'' | TNum n \<Rightarrow> J ''number'' | TStr s \<Rightarrow> J ''string''
      | TFun f \<Rightarrow> J ''function'' | _ \<Rightarrow> J ''object'')"

definition getTypeForFilter :: "jtree \<Rightarrow> jstring" where
  "getTypeForFilter v = (if v = TNull then J ''null'' else typeof_tree v)"

text \<open>\<open>'' + v\<close> and \<open>s.indexOf(p) !== -1\<close>\<close>

fun to_text :: "page \<Rightarrow> jtree \<Rightarrow> jstring" where
  "to_text pg TUndef = J ''undefined''"
| "to_text pg TNull = J ''null''"
| "to_text pg (TBool b) = (if b then J ''true'' else J ''false'')"
| "to_text pg (TNum n) = num_to_string n"
| "to_text pg (TStr s) = s"
| "to_text pg v = host_text pg v"

fun has_text :: "jstring \<Rightarrow> jstring \<Rightarrow> bool" where
  "has_text [] p = (p = [])"
| "has_text (c # s) p = (take (length p) (c # s) = p \<or> has_text s p)"

subsection \<open>Comparators\<close>

datatype comparator = UseEquals | UseFunction "jtree \<Rightarrow> jtree \<Rightarrow> bool" | UseDefault

definition default_comparator :: "page \<Rightarrow> jtree \<Rightarrow> jtree \<Rightarrow> bool" where
  "default_comparator pg actual expected =
     (if isUndefined actual then False
      else if actual = TNull \<or> expected = TNull then actual = TNull \<and> expected = TNull
      else if isObject expected \<or> isObject actual \<and> \<not> hasCustomToString actual then False
      else has_text (lower_case pg (to_text pg actual)) (lower_case pg (to_text pg expected)))"

definition comparator_of :: "page \<Rightarrow> comparator \<Rightarrow> jtree \<Rightarrow> jtree \<Rightarrow> bool" where
  "comparator_of pg c = (case c of UseEquals \<Rightarrow> equals | UseFunction f \<Rightarrow> f | UseDefault \<Rightarrow> default_comparator pg)"

subsection \<open>deepCompare\<close>

definition negated :: "jtree \<Rightarrow> bool" where
  "negated expected \<longleftrightarrow> (\<exists>s. expected = TStr (33 # s))"

lemma negated_code [code]: "negated expected = (case expected of TStr (c # s) \<Rightarrow> c = 33 | _ \<Rightarrow> False)"
  by (auto simp: negated_def split: jtree.splits list.splits)

fun string_tail :: "jtree \<Rightarrow> jtree" where
  "string_tail (TStr s) = TStr (tl s)"
| "string_tail v = v"

fun text_length :: "jtree \<Rightarrow> nat" where
  "text_length (TStr s) = length s"
| "text_length v = 0"

lemma size_entries: "p \<in> set (entries v) \<Longrightarrow> size (snd p) < size v"
proof (cases v)
  case (TObj ps)
  assume "p \<in> set (entries v)"
  with TObj show ?thesis
    using size_entry [of "fst p" "snd p" ps] by simp
next
  case (TArr xs)
  assume "p \<in> set (entries v)"
  with TArr have "snd p \<in> set xs"
    by (cases p) (auto dest: set_zip_rightD)
  with TArr show ?thesis
    using size_item by blast
qed auto

lemma size_get_prop: "size (get_prop v k) \<le> size v"
proof (cases "map_of (entries v) k")
  case (Some x)
  then show ?thesis
    using size_entries [OF map_of_SomeD [OF Some]] by (simp add: get_prop_def)
qed (simp add: get_prop_def)

function deepCompare :: "(jtree \<Rightarrow> jtree \<Rightarrow> bool) \<Rightarrow> jstring \<Rightarrow> jtree \<Rightarrow> jtree \<Rightarrow> bool \<Rightarrow> bool \<Rightarrow> bool" where
  "deepCompare cmp anyKey actual expected matchAny dontMatchWhole =
     (if negated expected then \<not> deepCompare cmp anyKey actual (string_tail expected) matchAny False
      else if isArray actual then
        list_ex (\<lambda>p. deepCompare cmp anyKey (snd p) expected matchAny False) (entries actual)
      else if isFunction actual then False
      else if \<not> isObject actual then cmp actual expected
      else if matchAny then
        (if list_ex (\<lambda>p. \<not> hidden_key (fst p) \<and> deepCompare cmp anyKey (snd p) expected True False) (entries actual)
         then True
         else if dontMatchWhole then False
         else deepCompare cmp anyKey actual expected False False)
      else if getTypeForFilter expected = J ''object'' then
        list_all (\<lambda>p. isFunction (snd p) \<or> isUndefined (snd p) \<or>
            deepCompare cmp anyKey (if fst p = anyKey then actual else get_prop actual (fst p)) (snd p)
              (fst p = anyKey) (fst p = anyKey)) (entries expected)
      else cmp actual expected)"
  by pat_completeness auto
termination
proof (relation "measures [\<lambda>(c, k, a, e, m, d). size a + size e, \<lambda>(c, k, a, e, m, d). text_length e,
    \<lambda>(c, k, a, e, m, d). of_bool m]", goal_cases)
  case (6 cmp anyKey actual expected matchAny dontMatchWhole p)
  then show ?case
    using size_entries [of p expected] size_get_prop [of actual "fst p"] by (auto intro: add_le_less_mono)
qed (auto simp: negated_def dest: size_entries)

declare deepCompare.simps [simp del]

subsection \<open>filterFilter\<close>

definition array_items :: "jtree \<Rightarrow> jtree list" where
  "array_items v =
     (case v of
        TArr xs \<Rightarrow> xs
      | TStr s \<Rightarrow> map (\<lambda>c. TStr [c]) s
      | TObj ps \<Rightarrow>
          (case get_prop v (J ''length'') of
             TNum (Fin r) \<Rightarrow> List.map_filter (\<lambda>i. map_of ps (index_key i)) [0..<nat \<lfloor>r\<rfloor>]
           | _ \<Rightarrow> [])
      | _ \<Rightarrow> [])"

definition createPredicateFn :: "page \<Rightarrow> jtree \<Rightarrow> comparator \<Rightarrow> jstring \<Rightarrow> bool \<Rightarrow> jtree \<Rightarrow> bool" where
  "createPredicateFn pg expression comparator anyKey matchAny item =
     (if isObject expression \<and> has_key expression anyKey \<and> \<not> isObject item
      then deepCompare (comparator_of pg comparator) anyKey item (get_prop expression anyKey) False False
      else deepCompare (comparator_of pg comparator) anyKey item expression matchAny False)"

datatype filter_error = Notarray

definition filterFilter :: "page \<Rightarrow> jtree \<Rightarrow> jtree \<Rightarrow> comparator \<Rightarrow> jstring \<Rightarrow> filter_error + jtree" where
  "filterFilter pg array expression comparator anyPropertyKey =
     (if \<not> isArrayLike array then (if array = TNull \<or> array = TUndef then Inr array else Inl Notarray)
      else
        (let anyKey = (if anyPropertyKey = [] then J ''$'' else anyPropertyKey);
             items = array_items array
         in case expression of
              TFun f \<Rightarrow> Inr (TArr (map snd (filter (\<lambda>(i, item). truthy_tree (host_call pg f [item, TNum (num_of_int (int i)), array]))
                (enumerate 0 items))))
            | TUndef \<Rightarrow> Inr array
            | _ \<Rightarrow> Inr (TArr (filter (createPredicateFn pg expression comparator anyKey (\<not> isObject expression)) items))))"

subsection \<open>limitTo\<close>

text \<open>\<open>parseInt(s, 10)\<close> and \<open>Number(v)\<close>\<close>

definition parse_int :: "jstring \<Rightarrow> jnum" where
  "parse_int s =
     (let t = dropWhile is_ws s;
          (neg, u) = (case t of c # r \<Rightarrow> if c = 45 then (True, r) else if c = 43 then (False, r) else (False, t) | [] \<Rightarrow> (False, []));
          ds = takeWhile is_digit u
      in if ds = [] then NaN else double_of_rat neg (if neg then - of_int (digits_val ds) else of_int (digits_val ds)))"

fun to_num :: "page \<Rightarrow> jtree \<Rightarrow> jnum" where
  "to_num pg TUndef = NaN"
| "to_num pg TNull = Fin 0"
| "to_num pg (TBool b) = (if b then Fin 1 else Fin 0)"
| "to_num pg (TNum n) = n"
| "to_num pg (TDate t) = t"
| "to_num pg v = num_of_string (to_text pg v)"

text \<open>The index a relative position of \<open>slice\<close> stands for, in a sequence of length \<open>n\<close>.\<close>

definition slice_index :: "nat \<Rightarrow> jnum \<Rightarrow> nat" where
  "slice_index n k =
     (case k of
        NaN \<Rightarrow> 0 | NZero \<Rightarrow> 0
      | Inf neg \<Rightarrow> if neg then 0 else n
      | Fin r \<Rightarrow> (let i = rat_trunc r in if i < 0 then nat (int n + i) else min (nat i) n))"

definition sliceFn :: "'a list \<Rightarrow> jnum \<Rightarrow> jnum \<Rightarrow> 'a list" where
  "sliceFn xs begin_at end_at =
     (let i = slice_index (length xs) begin_at; j = slice_index (length xs) end_at in take (j - i) (drop i xs))"

definition limit_number :: "page \<Rightarrow> jtree \<Rightarrow> jnum" where
  "limit_number pg limit =
     (case to_num pg limit of Inf neg \<Rightarrow> Inf neg | _ \<Rightarrow> parse_int (to_text pg limit))"

definition begin_number :: "page \<Rightarrow> nat \<Rightarrow> jtree \<Rightarrow> jnum" where
  "begin_number pg n start =
     (let b = (if \<not> truthy_tree start \<or> to_num pg start = NaN then Fin 0 else parse_int (to_text pg start))
      in if num_lt b (Fin 0)
         then (let c = num_add (num_of_int (int n)) b in if num_lt (Fin 0) c then c else Fin 0)
         else b)"

definition limit_list :: "page \<Rightarrow> jnum \<Rightarrow> jtree \<Rightarrow> 'a list \<Rightarrow> 'a list" where
  "limit_list pg limit start xs =
     (let b = begin_number pg (length xs) start
      in if num_le (Fin 0) limit then sliceFn xs b (num_add b limit)
         else if num_eq b (Fin 0) then sliceFn xs limit (num_of_int (int (length xs)))
         else sliceFn xs (let c = num_add b limit in if num_lt (Fin 0) c then c else Fin 0) b)"

definition limitToFilter :: "page \<Rightarrow> jtree \<Rightarrow> jtree \<Rightarrow> jtree \<Rightarrow> jtree" where
  "limitToFilter pg input limit start =
     (let k = limit_number pg limit
      in if k = NaN then input
         else
           (let input = (case input of TNum n \<Rightarrow> TStr (num_to_string n) | _ \<Rightarrow> input)
            in if \<not> isArrayLike input then input
               else case input of
                   TStr s \<Rightarrow> TStr (limit_list pg k start s)
                 | _ \<Rightarrow> TArr (limit_list pg k start (array_items input))))"

subsection \<open>Text search\<close>

text \<open>What a search for a text looks at: the parts of a value that are compared with it.\<close>

function search_parts :: "jtree \<Rightarrow> jtree list" where
  "search_parts v =
     (if isArray v then concat (map (\<lambda>p. search_parts (snd p)) (entries v))
      else if isFunction v then []
      else if isObject v then concat (map (\<lambda>p. if hidden_key (fst p) then [] else search_parts (snd p)) (entries v)) @ [v]
      else [v])"
  by pat_completeness auto
termination
  by (relation "measure size") (auto dest: size_entries)

declare search_parts.simps [simp del]

lemma deepCompare_whole:
  "isObject v \<Longrightarrow> \<not> isArray v \<Longrightarrow> \<not> negated e \<Longrightarrow> getTypeForFilter e \<noteq> J ''object'' \<Longrightarrow> deepCompare cmp k v e False False = cmp v e"
  by (subst deepCompare.simps) (cases v; simp)

lemma deepCompare_parts:
  assumes e: "\<not> negated e" "getTypeForFilter e \<noteq> J ''object''"
  shows "deepCompare cmp k v e True False \<longleftrightarrow> (\<exists>l \<in> set (search_parts v). cmp l e)"
proof (induction v rule: search_parts.induct)
  case (1 v)
  consider (arr) "isArray v" | (fn) "isFunction v" | (obj) "isObject v" "\<not> isArray v" | (prim) "\<not> isArray v" "\<not> isFunction v" "\<not> isObject v"
    by blast
  then show ?case
  proof cases
    case arr
    then show ?thesis
      using 1(1) e by (subst deepCompare.simps, subst search_parts.simps) (auto simp: list_ex_iff)
  next
    case fn
    then have "\<not> isArray v"
      by (cases v) auto
    then show ?thesis
      using fn e by (subst deepCompare.simps, subst search_parts.simps) simp
  next
    case obj
    then have "\<not> isFunction v"
      by (cases v) auto
    then show ?thesis
      using 1(2) obj e by (subst deepCompare.simps, subst search_parts.simps) (auto simp: list_ex_iff deepCompare_whole)
  next
    case prim
    then show ?thesis
      using e by (subst deepCompare.simps, subst search_parts.simps) simp
  qed
qed

definition bangs :: "jstring \<Rightarrow> nat" where
  "bangs s = length (takeWhile (\<lambda>c. c = 33) s)"

lemma deepCompare_text:
  "deepCompare cmp k v (TStr s) True False \<longleftrightarrow>
     even (bangs s) = (\<exists>l \<in> set (search_parts v). cmp l (TStr (dropWhile (\<lambda>c. c = 33) s)))"
proof (induction s)
  case Nil
  show ?case
    using deepCompare_parts [of "TStr []"] by (simp add: bangs_def negated_def getTypeForFilter_def typeof_tree_def)
next
  case (Cons c s)
  show ?case
  proof (cases "c = 33")
    case True
    then have "deepCompare cmp k v (TStr (c # s)) True False \<longleftrightarrow> \<not> deepCompare cmp k v (TStr s) True False"
      by (subst deepCompare.simps) (simp add: negated_def)
    with Cons True show ?thesis
      by (auto simp: bangs_def)
  next
    case False
    then show ?thesis
      using deepCompare_parts [of "TStr (c # s)"] by (simp add: bangs_def negated_def getTypeForFilter_def typeof_tree_def)
  qed
qed

text \<open>
  Filtering an array by a text keeps, in their order, exactly the items one of whose parts (the
  item, and through arrays and through properties not hidden by a dollar sign all that it contains)
  the comparator accepts; each leading exclamation mark negates this.
\<close>

theorem filter_by_text:
  "filterFilter pg (TArr items) (TStr s) comparator anyKey =
     Inr (TArr (filter (\<lambda>item. even (bangs s) =
       (\<exists>l \<in> set (search_parts item). comparator_of pg comparator l (TStr (dropWhile (\<lambda>c. c = 33) s)))) items))"
proof -
  have "createPredicateFn pg (TStr s) comparator k True = (\<lambda>item. even (bangs s) =
       (\<exists>l \<in> set (search_parts item). comparator_of pg comparator l (TStr (dropWhile (\<lambda>c. c = 33) s))))" for k
    by (rule ext) (simp add: createPredicateFn_def deepCompare_text)
  then show ?thesis
    by (simp add: filterFilter_def isArrayLike_def array_items_def)
qed

subsection \<open>What limitTo takes\<close>

lemma rat_trunc_of_int [simp]: "rat_trunc (of_int k) = k"
  by (simp add: rat_trunc_def)

lemma slice_index_of_int: "slice_index n (Fin (of_int k)) = (if k < 0 then nat (int n + k) else min (nat k) n)"
  by (simp add: slice_index_def)

lemma sliceFn_of_int:
  "0 \<le> i \<Longrightarrow> 0 \<le> j \<Longrightarrow> sliceFn xs (Fin (of_int i)) (Fin (of_int j)) = take (nat j - nat i) (drop (nat i) xs)"
  by (auto simp: sliceFn_def slice_index_of_int min_def Let_def)

lemma num_add_of_int:
  "\<bar>i + j\<bar> < 2 ^ 53 \<Longrightarrow> num_add (Fin (of_int i)) (Fin (of_int j)) = Fin (of_int (i + j))"
  using num_of_int_small [of "i + j"] by (simp add: num_add_def num_of_int_def)

text \<open>
  When the limit and the start come out as integers \<open>k\<close> and \<open>b\<close> (within the exact range),
  \<open>limitTo\<close> of an array gives the first \<open>k\<close> items from \<open>b\<close> on, and for a negative limit the last
  \<open>|k|\<close> items, or, with a start, the last \<open>|k|\<close> items before it.
\<close>

theorem limitTo_takes:
  assumes k: "limit_number pg limit = Fin (of_int k)" "\<bar>k\<bar> < 2 ^ 51"
    and b: "begin_number pg (length xs) start = Fin (of_int b)" "0 \<le> b" "b < 2 ^ 51"
    and n: "length xs < 2 ^ 51"
  shows "limitToFilter pg (TArr xs) limit start =
     TArr (if 0 \<le> k then take (nat k) (drop (nat b) xs)
           else if b = 0 then drop (length xs - nat (- k)) xs
           else drop (nat (b + k)) (take (nat b) xs))"
proof -
  have add: "num_add (Fin (of_int b)) (Fin (of_int k)) = Fin (of_int (b + k))"
    using k b by (intro num_add_of_int) simp
  have len: "num_of_int (int (length xs)) = Fin (of_int (int (length xs)))"
    using n by (intro num_of_int_small) simp
  have le: "num_le (Fin 0) (Fin (of_int k)) \<longleftrightarrow> 0 \<le> k" "num_eq (Fin (of_int b)) (Fin 0) \<longleftrightarrow> b = 0"
    by (auto simp: num_le_def)
  have lt: "num_lt (Fin 0) (Fin (of_int (b + k))) \<longleftrightarrow> 0 < b + k"
    by (simp flip: of_int_add)
  have "limit_list pg (Fin (of_int k)) start xs =
    (if 0 \<le> k then take (nat k) (drop (nat b) xs)
     else if b = 0 then drop (length xs - nat (- k)) xs else drop (nat (b + k)) (take (nat b) xs))"
  proof -
    consider "0 \<le> k" | "k < 0" "b = 0" | "k < 0" "0 < b" "0 < b + k" | "k < 0" "0 < b" "b + k \<le> 0"
      using b(2) by linarith
    then show ?thesis
    proof cases
      case 1
      then show ?thesis
        using b sliceFn_of_int [of b "b + k" xs] by (simp add: limit_list_def Let_def add le nat_add_distrib)
    next
      case 2
      have "slice_index (length xs) (num_of_int (int (length xs))) = length xs"
        unfolding len slice_index_of_int by simp
      moreover have "nat (int (length xs) + k) = length xs - nat (- k)"
        using 2 by linarith
      ultimately have "sliceFn xs (Fin (of_int k)) (num_of_int (int (length xs))) = drop (length xs - nat (- k)) xs"
        using 2 by (simp add: sliceFn_def slice_index_of_int Let_def)
      with 2 b show ?thesis
        by (simp add: limit_list_def Let_def le)
    next
      case 3
      then show ?thesis
        using b sliceFn_of_int [of "b + k" b xs] by (simp add: limit_list_def Let_def add le lt drop_take)
    next
      case 4
      then show ?thesis
        using b sliceFn_of_int [of 0 b xs] by (simp add: limit_list_def Let_def add le lt)
    qed
  qed
  then show ?thesis
    using k by (simp add: limitToFilter_def isArrayLike_def array_items_def)
qed

definition plain_page :: page where
  "plain_page = \<lparr>lower_case = id, host_text = (\<lambda>_. []), host_call = (\<lambda>_ _. TUndef)\<rparr>"

theorem limitTo_takes_witness:
  "limitToFilter plain_page (TArr [TNull, TUndef, TBool True]) (TStr (J ''-2'')) TUndef =
     TArr (if 0 \<le> (- 2 :: int) then take (nat (- 2)) (drop (nat 0) [TNull, TUndef, TBool True])
           else if (0::int) = 0 then drop (length [TNull, TUndef, TBool True] - nat (- (- 2))) [TNull, TUndef, TBool True]
           else drop (nat (0 + - 2)) (take (nat 0) [TNull, TUndef, TBool True]))"
  by (rule limitTo_takes)
    (simp_all add: limit_number_def begin_number_def parse_int_def num_of_string_def trim_def is_ws_def is_digit_def
      digits_val_def signed_decimal_def decimal_val_def exponent_part_def pow10_def)

end
