(* ===== verification/NgOrderBy.thy ===== *)
theory NgOrderBy
  imports NgFilter "HOL-Library.Multiset"
begin

section \<open>The filter orderBy\<close>


record cmp_value =
  cv_value :: jtree
  cv_type :: jstring
  cv_index :: nat




subsection \<open>Predicates\<close>





subsection \<open>Values to compare\<close>







definition tie_value :: "nat \<Rightarrow> cmp_value" where
  "tie_value i = \<lparr>cv_value = TNum (Fin (of_nat i)), cv_type = J ''number'', cv_index = i\<rparr>"


subsection \<open>Comparing\<close>








subsection \<open>Sorting\<close>

fun insert_by :: "('a \<Rightarrow> 'a \<Rightarrow> int) \<Rightarrow> 'a \<Rightarrow> 'a list \<Rightarrow> 'a list" where
  "insert_by cmp x [] = [x]"
| "insert_by cmp x (y # ys) = (if cmp x y \<le> 0 then x # y # ys else y # insert_by cmp x ys)"

definition sort_by :: "('a \<Rightarrow> 'a \<Rightarrow> int) \<Rightarrow> 'a list \<Rightarrow> 'a list" where
  "sort_by cmp xs = foldr (insert_by cmp) xs []"




subsection \<open>Orderings\<close>

lemma set_insert_by [simp]: "set (insert_by cmp x ys) = insert x (set ys)"
  by (induction ys) auto

lemma mset_insert_by [simp]: "mset (insert_by cmp x ys) = add_mset x (mset ys)"
  by (induction ys) auto

lemma sort_by_simps [simp]: "sort_by cmp [] = []" "sort_by cmp (x # xs) = insert_by cmp x (sort_by cmp xs)"
  by (simp_all add: sort_by_def)

lemma mset_sort_by [simp]: "mset (sort_by cmp xs) = mset xs"
  by (induction xs) auto

lemma set_sort_by [simp]: "set (sort_by cmp xs) = set xs"
  by (metis mset_sort_by set_mset_mset)


subsection \<open>The default comparator is an ordering\<close>


















subsection \<open>What orderBy returns\<close>













lemma tie_value_inject [simp]: "tie_value i = tie_value j \<longleftrightarrow> i = j"
  by (auto simp: tie_value_def)








end
