(* ===== verification/NgForm.thy ===== *)
theory NgForm
  imports Prelude "HOL-Library.AList"
begin

section \<open>Forms and validity\<close>

text \<open>
  \<open>FormController\<close>, the validity part of \<open>NgModelController\<close> and \<open>addSetValidityMethod\<close>. The controllers of
  a page are a list of records, a reference is a position in it. \<open>$error\<close>, \<open>$$success\<close> and \<open>$pending\<close> map a
  validation key to the controls of a form that have this state, and to \<open>true\<close> (the empty list here)
  in an input. The keys are names of validators, no names of methods that every object inherits, and
  control names do not begin with a dollar sign. \<open>$animate\<close> changes the classes of an element at once.
\<close>

subsection \<open>Controllers\<close>

datatype control_kind = FormKind | ModelKind

type_synonym vmap = "(jstring \<times> nat list) list"

record control =
  c_kind :: control_kind
  c_name :: jstring
  c_error :: vmap
  c_success :: vmap
  c_pending :: "vmap option"
  c_valid :: "bool option"
  c_invalid :: "bool option"
  c_dirty :: bool
  c_pristine :: bool
  c_touched :: bool
  c_untouched :: bool
  c_submitted :: bool
  c_parent :: "nat option" \<comment> \<open>\<open>None\<close> is \<open>nullFormCtrl\<close>\<close>
  c_controls :: "nat list"
  c_named :: "(jstring \<times> nat) list"
  c_null :: bool \<comment> \<open>the methods of \<open>nullFormCtrl\<close> were copied over its own\<close>
  classCache :: "(jstring \<times> bool) list"
  classes :: "jstring list"

type_synonym forms = "control list"

datatype vstate = VUndefined | VNull | VBool bool

definition VALID_CLASS :: jstring where "VALID_CLASS = J ''ng-valid''"
definition INVALID_CLASS :: jstring where "INVALID_CLASS = J ''ng-invalid''"
definition PENDING_CLASS :: jstring where "PENDING_CLASS = J ''ng-pending''"
definition PRISTINE_CLASS :: jstring where "PRISTINE_CLASS = J ''ng-pristine''"
definition DIRTY_CLASS :: jstring where "DIRTY_CLASS = J ''ng-dirty''"
definition UNTOUCHED_CLASS :: jstring where "UNTOUCHED_CLASS = J ''ng-untouched''"
definition TOUCHED_CLASS :: jstring where "TOUCHED_CLASS = J ''ng-touched''"
definition SUBMITTED_CLASS :: jstring where "SUBMITTED_CLASS = J ''ng-submitted''"

definition addClass :: "jstring \<Rightarrow> control \<Rightarrow> control" where
  "addClass c ctl = (if c \<in> set (classes ctl) then ctl else ctl\<lparr>classes := classes ctl @ [c]\<rparr>)"

definition removeClass :: "jstring \<Rightarrow> control \<Rightarrow> control" where
  "removeClass c ctl = ctl\<lparr>classes := removeAll c (classes ctl)\<rparr>"

text \<open>A new controller; the directive has given its element the classes for pristine and valid.\<close>

definition new_control :: "control_kind \<Rightarrow> jstring \<Rightarrow> control" where
  "new_control k name =
     \<lparr>c_kind = k, c_name = name, c_error = [], c_success = [], c_pending = None, c_valid = Some True, c_invalid = Some False,
      c_dirty = False, c_pristine = True, c_touched = False, c_untouched = True, c_submitted = False,
      c_parent = None, c_controls = [], c_named = [], c_null = False,
      classCache = [(VALID_CLASS, True), (INVALID_CLASS, False)],
      classes = (if k = FormKind then [PRISTINE_CLASS, VALID_CLASS] else [PRISTINE_CLASS, UNTOUCHED_CLASS, VALID_CLASS])\<rparr>"

subsection \<open>setValidity\<close>

definition set_key :: "control_kind \<Rightarrow> jstring \<Rightarrow> nat \<Rightarrow> vmap \<Rightarrow> vmap" where
  "set_key kd k c m =
     (case kd of
        ModelKind \<Rightarrow> AList.update k [] m
      | FormKind \<Rightarrow>
          (case map_of m k of
             None \<Rightarrow> AList.update k [c] m
           | Some cs \<Rightarrow> if c \<in> set cs then m else AList.update k (cs @ [c]) m))"

definition unset_key :: "control_kind \<Rightarrow> jstring \<Rightarrow> nat \<Rightarrow> vmap \<Rightarrow> vmap" where
  "unset_key kd k c m =
     (case kd of
        ModelKind \<Rightarrow> AList.delete k m
      | FormKind \<Rightarrow>
          (case map_of m k of
             None \<Rightarrow> m
           | Some cs \<Rightarrow>
               (let cs' = remove1 c cs in if cs' = [] then AList.delete k m else AList.update k cs' m)))"

definition createAndSet :: "control_kind \<Rightarrow> jstring \<Rightarrow> nat \<Rightarrow> vmap option \<Rightarrow> vmap option" where
  "createAndSet kd k c m = Some (set_key kd k c (case m of Some m \<Rightarrow> m | None \<Rightarrow> []))"

definition unsetAndCleanup :: "control_kind \<Rightarrow> jstring \<Rightarrow> nat \<Rightarrow> vmap option \<Rightarrow> vmap option" where
  "unsetAndCleanup kd k c m =
     (case m of Some m \<Rightarrow> (let m' = unset_key kd k c m in if m' = [] then None else Some m') | None \<Rightarrow> None)"

fun snake_tail :: "jstring \<Rightarrow> jstring" where
  "snake_tail [] = []"
| "snake_tail (c # s) = (if 65 \<le> c \<and> c \<le> 90 then 45 # (c + 32) # snake_tail s else c # snake_tail s)"

definition snake_case :: "jstring \<Rightarrow> jstring" where
  "snake_case name =
     (case name of [] \<Rightarrow> [] | c # s \<Rightarrow> (if 65 \<le> c \<and> c \<le> 90 then c + 32 else c) # snake_tail s)"

definition cachedToggleClass :: "jstring \<Rightarrow> bool \<Rightarrow> control \<Rightarrow> control" where
  "cachedToggleClass className switchValue ctl =
     (if switchValue \<and> map_of (classCache ctl) className \<noteq> Some True then
        (addClass className ctl)\<lparr>classCache := AList.update className True (classCache ctl)\<rparr>
      else if \<not> switchValue \<and> map_of (classCache ctl) className = Some True then
        (removeClass className ctl)\<lparr>classCache := AList.update className False (classCache ctl)\<rparr>
      else ctl)"

definition toggleValidationCss :: "jstring \<Rightarrow> vstate \<Rightarrow> control \<Rightarrow> control" where
  "toggleValidationCss key isValid ctl =
     (let suffix = (if key = [] then [] else 45 # snake_case key)
      in cachedToggleClass (INVALID_CLASS @ suffix) (isValid = VBool False)
           (cachedToggleClass (VALID_CLASS @ suffix) (isValid = VBool True) ctl))"

definition mark_keys :: "jstring \<Rightarrow> vstate \<Rightarrow> nat \<Rightarrow> control \<Rightarrow> control" where
  "mark_keys k st c ctl =
     (let kd = c_kind ctl
      in ctl\<lparr>c_pending := (if st = VUndefined then createAndSet kd k c (c_pending ctl) else unsetAndCleanup kd k c (c_pending ctl)),
             c_error := (if st = VBool False then set_key kd k c (c_error ctl) else unset_key kd k c (c_error ctl)),
             c_success := (if st = VBool True then set_key kd k c (c_success ctl) else unset_key kd k c (c_success ctl))\<rparr>)"

definition mark_valid :: "control \<Rightarrow> control" where
  "mark_valid ctl =
     (if c_pending ctl \<noteq> None then
        toggleValidationCss [] VNull ((cachedToggleClass PENDING_CLASS True ctl)\<lparr>c_valid := None, c_invalid := None\<rparr>)
      else
        (let v = (c_error ctl = [])
         in toggleValidationCss [] (VBool v)
              ((cachedToggleClass PENDING_CLASS False ctl)\<lparr>c_valid := Some v, c_invalid := Some (\<not> v)\<rparr>)))"

definition combined :: "jstring \<Rightarrow> control \<Rightarrow> vstate" where
  "combined k ctl =
     (if (case c_pending ctl of Some m \<Rightarrow> map_of m k \<noteq> None | None \<Rightarrow> False) then VUndefined
      else if map_of (c_error ctl) k \<noteq> None then VBool False
      else if map_of (c_success ctl) k \<noteq> None then VBool True
      else VNull)"

definition update_validity :: "jstring \<Rightarrow> vstate \<Rightarrow> nat \<Rightarrow> control \<Rightarrow> control" where
  "update_validity k st c ctl =
     (let ctl = mark_valid (mark_keys k st c ctl) in toggleValidationCss k (combined k ctl) ctl)"

text \<open>
  \<open>$setValidity\<close> goes up the chain of parents; the fuel bounds its length (\<open>None\<close> is the overflow of
  the stack that a cycle of parents would lead to).
\<close>

fun set_validity :: "nat \<Rightarrow> nat \<Rightarrow> jstring \<Rightarrow> vstate \<Rightarrow> nat \<Rightarrow> forms \<Rightarrow> forms option" where
  "set_validity 0 i k st c s = None"
| "set_validity (Suc n) i k st c s =
     (if c_null (s ! i) then Some s
      else
        (let ctl = update_validity k st c (s ! i); s' = s[i := ctl]
         in case c_parent ctl of
              None \<Rightarrow> Some s'
            | Some p \<Rightarrow> set_validity n p k (combined k ctl) i s'))"

definition setValidity :: "nat \<Rightarrow> jstring \<Rightarrow> vstate \<Rightarrow> nat \<Rightarrow> forms \<Rightarrow> forms option" where
  "setValidity i k st c s = set_validity (Suc (length s)) i k st c s"

subsection \<open>FormController\<close>

definition addControl :: "nat \<Rightarrow> nat \<Rightarrow> forms \<Rightarrow> forms option" where
  "addControl f c s =
     (if c_null (s ! f) then Some s
      else if c_name (s ! c) = J ''hasOwnProperty'' then None
      else
        (let name = c_name (s ! c);
             s = s[f := (s ! f)\<lparr>c_controls := c_controls (s ! f) @ [c],
                   c_named := (if name \<noteq> [] then AList.update name c (c_named (s ! f)) else c_named (s ! f))\<rparr>]
         in Some (s[c := (s ! c)\<lparr>c_parent := Some f\<rparr>])))"

definition renameControl :: "nat \<Rightarrow> nat \<Rightarrow> jstring \<Rightarrow> forms \<Rightarrow> forms" where
  "renameControl f c newName s =
     (let old = c_name (s ! c);
          named = (if map_of (c_named (s ! f)) old = Some c then AList.delete old (c_named (s ! f)) else c_named (s ! f));
          s = (if c_null (s ! f) then s else s[f := (s ! f)\<lparr>c_named := AList.update newName c named\<rparr>])
      in s[c := (s ! c)\<lparr>c_name := newName\<rparr>])"

fun clear_keys :: "nat \<Rightarrow> nat \<Rightarrow> jstring list \<Rightarrow> forms \<Rightarrow> forms option" where
  "clear_keys f c [] s = Some s"
| "clear_keys f c (k # ks) s = Option.bind (setValidity f k VNull c s) (clear_keys f c ks)"

definition removeControl :: "nat \<Rightarrow> nat \<Rightarrow> forms \<Rightarrow> forms option" where
  "removeControl f c s =
     (if c_null (s ! f) then Some s
      else
        (let name = c_name (s ! c);
             s0 = (if name \<noteq> [] \<and> map_of (c_named (s ! f)) name = Some c
                   then s[f := (s ! f)\<lparr>c_named := AList.delete name (c_named (s ! f))\<rparr>] else s)
         in Option.bind (clear_keys f c (case c_pending (s0 ! f) of Some m \<Rightarrow> map fst m | None \<Rightarrow> []) s0) (\<lambda>s1.
            Option.bind (clear_keys f c (map fst (c_error (s1 ! f))) s1) (\<lambda>s2.
            Option.bind (clear_keys f c (map fst (c_success (s2 ! f))) s2) (\<lambda>s3.
            let s4 = s3[f := (s3 ! f)\<lparr>c_controls := remove1 c (c_controls (s3 ! f))\<rparr>]
            in Some (s4[c := (s4 ! c)\<lparr>c_parent := None\<rparr>]))))))"

text \<open>What happens when the element of a form is destroyed.\<close>

definition destroy_form :: "nat \<Rightarrow> forms \<Rightarrow> forms option" where
  "destroy_form f s =
     Option.bind (case c_parent (s ! f) of Some p \<Rightarrow> removeControl p f s | None \<Rightarrow> Some s) (\<lambda>s.
     Some (s[f := (s ! f)\<lparr>c_null := True\<rparr>]))"

subsection \<open>Dirty, pristine, touched, submitted\<close>

fun setDirty :: "nat \<Rightarrow> nat \<Rightarrow> forms \<Rightarrow> forms option" where
  "setDirty 0 i s = None"
| "setDirty (Suc n) i s =
     (if c_null (s ! i) then Some s
      else
        (let ctl = (addClass DIRTY_CLASS (removeClass PRISTINE_CLASS (s ! i)))\<lparr>c_dirty := True, c_pristine := False\<rparr>
         in case c_parent ctl of None \<Rightarrow> Some (s[i := ctl]) | Some p \<Rightarrow> setDirty n p (s[i := ctl])))"

fun setSubmitted :: "nat \<Rightarrow> nat \<Rightarrow> forms \<Rightarrow> forms option" where
  "setSubmitted 0 i s = None"
| "setSubmitted (Suc n) i s =
     (if c_null (s ! i) then Some s
      else
        (let ctl = (addClass SUBMITTED_CLASS (s ! i))\<lparr>c_submitted := True\<rparr>
         in case c_parent ctl of None \<Rightarrow> Some (s[i := ctl]) | Some p \<Rightarrow> setSubmitted n p (s[i := ctl])))"

definition pristine_control :: "control \<Rightarrow> control" where
  "pristine_control ctl =
     (case c_kind ctl of
        ModelKind \<Rightarrow> (addClass PRISTINE_CLASS (removeClass DIRTY_CLASS (ctl\<lparr>c_dirty := False, c_pristine := True\<rparr>)))
      | FormKind \<Rightarrow> (addClass PRISTINE_CLASS (removeClass SUBMITTED_CLASS (removeClass DIRTY_CLASS
          (ctl\<lparr>c_dirty := False, c_pristine := True, c_submitted := False\<rparr>)))))"

definition untouched_control :: "control \<Rightarrow> control" where
  "untouched_control ctl =
     (case c_kind ctl of
        ModelKind \<Rightarrow> addClass UNTOUCHED_CLASS (removeClass TOUCHED_CLASS (ctl\<lparr>c_touched := False, c_untouched := True\<rparr>))
      | FormKind \<Rightarrow> ctl)"

definition setTouched :: "nat \<Rightarrow> forms \<Rightarrow> forms" where
  "setTouched i s =
     s[i := addClass TOUCHED_CLASS (removeClass UNTOUCHED_CLASS ((s ! i)\<lparr>c_touched := True, c_untouched := False\<rparr>))]"

text \<open>
  \<open>$setPristine\<close> and \<open>$setUntouched\<close> of a form apply themselves to all its controls; on an input
  there are none. The fuel bounds the depth.
\<close>

fun all_controls :: "bool \<Rightarrow> (control \<Rightarrow> control) \<Rightarrow> nat \<Rightarrow> nat \<Rightarrow> forms \<Rightarrow> forms option" where
  "all_controls stop_at_null g 0 i s = None"
| "all_controls stop_at_null g (Suc n) i s =
     (if stop_at_null \<and> c_null (s ! i) then Some s
      else fold (\<lambda>c r. Option.bind r (all_controls stop_at_null g n c)) (c_controls (s ! i)) (Some (s[i := g (s ! i)])))"

definition setPristine :: "nat \<Rightarrow> forms \<Rightarrow> forms option" where
  "setPristine i s = all_controls True pristine_control (Suc (length s)) i s"

definition setUntouched :: "nat \<Rightarrow> forms \<Rightarrow> forms option" where
  "setUntouched i s = all_controls False untouched_control (Suc (length s)) i s"

end
