(* ===== verification/NgFormInv.thy ===== *)
theory NgFormInv
  imports NgForm
begin

section \<open>The validity of a form is the validity of its inputs\<close>

text \<open>
  The invariant of a page of forms: each form lists, for each key, exactly the controls registered
  with it whose own combined state for that key is invalid, valid or pending, and \<open>$valid\<close> says whether
  there is an error. It is kept by every operation of the directives.
\<close>

subsection \<open>Maps of keys\<close>

definition listed :: "vmap \<Rightarrow> jstring \<Rightarrow> nat \<Rightarrow> bool" where
  "listed m k c \<longleftrightarrow> (\<exists>cs. map_of m k = Some cs \<and> c \<in> set cs)"

definition listed_opt :: "vmap option \<Rightarrow> jstring \<Rightarrow> nat \<Rightarrow> bool" where
  "listed_opt pm k c \<longleftrightarrow> (\<exists>m. pm = Some m \<and> listed m k c)"

definition lists_ok :: "vmap \<Rightarrow> bool" where
  "lists_ok m \<longleftrightarrow> (\<forall>k cs. map_of m k = Some cs \<longrightarrow> cs \<noteq> [] \<and> distinct cs)"

lemma map_of_key_ops:
  "k' \<noteq> k \<Longrightarrow> map_of (set_key kd k c m) k' = map_of m k'"
  "k' \<noteq> k \<Longrightarrow> map_of (unset_key kd k c m) k' = map_of m k'"
  by (auto simp: set_key_def unset_key_def update_conv' delete_conv' Let_def split: control_kind.split option.split)

lemma lists_ok_ops:
  "lists_ok m \<Longrightarrow> lists_ok (set_key FormKind k c m)" "lists_ok m \<Longrightarrow> lists_ok (unset_key FormKind k c m)"
  by (auto simp: lists_ok_def set_key_def unset_key_def update_conv' delete_conv' Let_def split: option.split)

lemma listed_set: "listed (set_key FormKind k c m) k' c' \<longleftrightarrow> listed m k' c' \<or> k' = k \<and> c' = c"
  by (auto simp: listed_def set_key_def update_conv' split: option.split)

lemma listed_unset:
  assumes "lists_ok m"
  shows "listed (unset_key FormKind k c m) k' c' \<longleftrightarrow> listed m k' c' \<and> \<not> (k' = k \<and> c' = c)"
proof (cases "map_of m k")
  case None
  then show ?thesis
    by (auto simp: listed_def unset_key_def)
next
  case (Some cs)
  then have "set (remove1 c cs) = set cs - {c}"
    using assms by (intro set_remove1_eq) (auto simp: lists_ok_def)
  moreover have "remove1 c cs = [] \<longleftrightarrow> set (remove1 c cs) = {}"
    by simp
  ultimately show ?thesis
    using Some by (auto simp: listed_def unset_key_def update_conv' delete_conv' Let_def)
qed

subsection \<open>One controller\<close>

lemma toggle_fields [simp]:
  "c_kind (toggleValidationCss k v ctl) = c_kind ctl" "c_error (toggleValidationCss k v ctl) = c_error ctl"
  "c_success (toggleValidationCss k v ctl) = c_success ctl" "c_pending (toggleValidationCss k v ctl) = c_pending ctl"
  "c_valid (toggleValidationCss k v ctl) = c_valid ctl" "c_invalid (toggleValidationCss k v ctl) = c_invalid ctl"
  "c_parent (toggleValidationCss k v ctl) = c_parent ctl" "c_null (toggleValidationCss k v ctl) = c_null ctl"
  "c_kind (cachedToggleClass n b ctl) = c_kind ctl" "c_error (cachedToggleClass n b ctl) = c_error ctl"
  "c_success (cachedToggleClass n b ctl) = c_success ctl" "c_pending (cachedToggleClass n b ctl) = c_pending ctl"
  "c_parent (cachedToggleClass n b ctl) = c_parent ctl" "c_null (cachedToggleClass n b ctl) = c_null ctl"
  by (auto simp: toggleValidationCss_def cachedToggleClass_def addClass_def removeClass_def Let_def)

lemma mark_valid_fields [simp]:
  "c_kind (mark_valid ctl) = c_kind ctl" "c_error (mark_valid ctl) = c_error ctl" "c_success (mark_valid ctl) = c_success ctl"
  "c_pending (mark_valid ctl) = c_pending ctl" "c_parent (mark_valid ctl) = c_parent ctl" "c_null (mark_valid ctl) = c_null ctl"
  by (simp_all add: mark_valid_def Let_def)

lemma mark_keys_fields [simp]:
  "c_kind (mark_keys k st c ctl) = c_kind ctl" "c_parent (mark_keys k st c ctl) = c_parent ctl" "c_null (mark_keys k st c ctl) = c_null ctl"
  by (simp_all add: mark_keys_def Let_def)

lemma update_validity_fields [simp]:
  "c_kind (update_validity k st c ctl) = c_kind ctl" "c_parent (update_validity k st c ctl) = c_parent ctl"
  "c_null (update_validity k st c ctl) = c_null ctl"
  "c_error (update_validity k st c ctl) = c_error (mark_keys k st c ctl)"
  "c_success (update_validity k st c ctl) = c_success (mark_keys k st c ctl)"
  "c_pending (update_validity k st c ctl) = c_pending (mark_keys k st c ctl)"
  by (simp_all add: update_validity_def Let_def)

definition valid_ok :: "control \<Rightarrow> bool" where
  "valid_ok ctl \<longleftrightarrow> c_pending ctl \<noteq> Some [] \<and>
     c_valid ctl = (if c_pending ctl = None then Some (c_error ctl = []) else None) \<and> c_invalid ctl = map_option Not (c_valid ctl)"

definition maps_ok :: "control \<Rightarrow> bool" where
  "maps_ok ctl \<longleftrightarrow> lists_ok (c_error ctl) \<and> lists_ok (c_success ctl) \<and> (\<forall>m. c_pending ctl = Some m \<longrightarrow> lists_ok m)"

lemma set_key_not_Nil: "set_key kd k c m \<noteq> []"
proof -
  have "map_of (set_key kd k c m) k \<noteq> None"
    by (auto simp: set_key_def update_conv' split: control_kind.split option.split)
  then show ?thesis
    by auto
qed

lemma update_validity_ok: "valid_ok (update_validity k st c ctl)"
proof -
  have "c_pending (mark_keys k st c ctl) \<noteq> Some []"
    by (auto simp: mark_keys_def Let_def createAndSet_def unsetAndCleanup_def set_key_not_Nil split: option.splits if_splits)
  then show ?thesis
    by (simp add: valid_ok_def update_validity_def mark_valid_def Let_def)
qed

lemma update_validity_maps: "maps_ok ctl \<Longrightarrow> c_kind ctl = FormKind \<Longrightarrow> maps_ok (update_validity k st c ctl)"
  by (auto simp: maps_ok_def mark_keys_def Let_def createAndSet_def unsetAndCleanup_def lists_ok_ops
      split: option.splits if_splits intro!: lists_ok_ops simp: lists_ok_def [of "[]"])

lemma combined_other: "k' \<noteq> k \<Longrightarrow> combined k' (update_validity k st c ctl) = combined k' ctl"
  by (auto simp: combined_def mark_keys_def Let_def createAndSet_def unsetAndCleanup_def map_of_key_ops
      split: option.splits if_splits) (metis map_of_key_ops(2) map_of.simps(1) option.distinct(1))+

text \<open>The three lists of a form after a report \<open>st\<close> of its control \<open>c\<close> for the key \<open>k\<close>.\<close>

lemma update_validity_lists:
  assumes "c_kind ctl = FormKind" "maps_ok ctl"
  shows "listed (c_error (update_validity k st c ctl)) k' c' \<longleftrightarrow> (if k' = k \<and> c' = c then st = VBool False else listed (c_error ctl) k' c')"
    "listed (c_success (update_validity k st c ctl)) k' c' \<longleftrightarrow> (if k' = k \<and> c' = c then st = VBool True else listed (c_success ctl) k' c')"
    "listed_opt (c_pending (update_validity k st c ctl)) k' c' \<longleftrightarrow> (if k' = k \<and> c' = c then st = VUndefined else listed_opt (c_pending ctl) k' c')"
proof -
  have n: "\<not> listed [] k' c'"
    by (simp add: listed_def)
  show "listed (c_error (update_validity k st c ctl)) k' c' \<longleftrightarrow> (if k' = k \<and> c' = c then st = VBool False else listed (c_error ctl) k' c')"
    "listed (c_success (update_validity k st c ctl)) k' c' \<longleftrightarrow> (if k' = k \<and> c' = c then st = VBool True else listed (c_success ctl) k' c')"
    using assms by (auto simp: mark_keys_def Let_def listed_set listed_unset maps_ok_def)
  show "listed_opt (c_pending (update_validity k st c ctl)) k' c' \<longleftrightarrow> (if k' = k \<and> c' = c then st = VUndefined else listed_opt (c_pending ctl) k' c')"
  proof (cases "c_pending ctl")
    case None
    then show ?thesis
      using assms n by (auto simp: mark_keys_def Let_def createAndSet_def unsetAndCleanup_def listed_opt_def listed_set)
  next
    case (Some m)
    then have u: "listed (unset_key FormKind k c m) k' c' \<longleftrightarrow> listed m k' c' \<and> \<not> (k' = k \<and> c' = c)"
      using assms by (intro listed_unset) (auto simp: maps_ok_def)
    show ?thesis
      using Some assms n u by (auto simp: mark_keys_def Let_def createAndSet_def unsetAndCleanup_def listed_opt_def listed_set)
  qed
qed

subsection \<open>The forms of a page\<close>

definition child :: "forms \<Rightarrow> nat \<Rightarrow> nat \<Rightarrow> bool" where
  "child s f c \<longleftrightarrow> c < length s \<and> c_parent (s ! c) = Some f"

definition tracks :: "forms \<Rightarrow> nat \<Rightarrow> jstring \<Rightarrow> nat \<Rightarrow> bool" where
  "tracks s f k c \<longleftrightarrow>
     (listed (c_error (s ! f)) k c \<longleftrightarrow> child s f c \<and> combined k (s ! c) = VBool False) \<and>
     (listed (c_success (s ! f)) k c \<longleftrightarrow> child s f c \<and> combined k (s ! c) = VBool True) \<and>
     (listed_opt (c_pending (s ! f)) k c \<longleftrightarrow> child s f c \<and> combined k (s ! c) = VUndefined)"

definition live_form :: "forms \<Rightarrow> nat \<Rightarrow> bool" where
  "live_form s f \<longleftrightarrow> f < length s \<and> c_kind (s ! f) = FormKind \<and> \<not> c_null (s ! f)"

definition control_ok :: "forms \<Rightarrow> nat \<Rightarrow> bool" where
  "control_ok s i \<longleftrightarrow> valid_ok (s ! i) \<and> (c_kind (s ! i) = FormKind \<longrightarrow> maps_ok (s ! i)) \<and>
     (\<forall>p. c_parent (s ! i) = Some p \<longrightarrow> p < i \<and> c_kind (s ! p) = FormKind \<and> (c_null (s ! i) \<longrightarrow> c_null (s ! p)))"

text \<open>The invariant, except for what the reports in \<open>E\<close> concern.\<close>

definition inv_except :: "(nat \<times> jstring \<times> nat) set \<Rightarrow> forms \<Rightarrow> bool" where
  "inv_except E s \<longleftrightarrow> (\<forall>i < length s. control_ok s i) \<and>
     (\<forall>f k c. live_form s f \<longrightarrow> (f, k, c) \<notin> E \<longrightarrow> tracks s f k c)"

definition form_inv :: "forms \<Rightarrow> bool" where
  "form_inv s \<longleftrightarrow> inv_except {} s"

text \<open>What an operation on the controllers up to \<open>i\<close> leaves alone.\<close>

definition same_frame :: "nat \<Rightarrow> forms \<Rightarrow> forms \<Rightarrow> bool" where
  "same_frame i s s' \<longleftrightarrow> length s' = length s \<and> (\<forall>j < length s. i < j \<longrightarrow> s' ! j = s ! j) \<and>
     (\<forall>j < length s. c_kind (s' ! j) = c_kind (s ! j) \<and> c_parent (s' ! j) = c_parent (s ! j) \<and> c_null (s' ! j) = c_null (s ! j))"

lemma same_frame_refl: "same_frame i s s"
  by (simp add: same_frame_def)

lemma same_frame_trans: "same_frame i s t \<Longrightarrow> same_frame j t u \<Longrightarrow> j \<le> i \<Longrightarrow> same_frame i s u"
  by (simp add: same_frame_def)

lemma same_frame_update:
  "c_kind x = c_kind (s ! i) \<Longrightarrow> c_parent x = c_parent (s ! i) \<Longrightarrow> c_null x = c_null (s ! i) \<Longrightarrow> same_frame i s (s[i := x])"
  by (cases "i < length s") (auto simp: same_frame_def nth_list_update)

text \<open>One report: the update of controller \<open>i\<close> itself.\<close>

lemma own_update:
  assumes inv: "inv_except E s" and i: "i < length s" "\<not> c_null (s ! i)"
    and E': "E' = (if child s i c \<and> st = combined k (s ! c) then E - {(i, k, c)} else insert (i, k, c) E)"
    and P: "P = (case c_parent (s ! i) of Some p \<Rightarrow> {(p, k, i)} | None \<Rightarrow> {})"
  shows "inv_except (E' \<union> P) (s[i := update_validity k st c (s ! i)])" (is "inv_except _ ?t")
proof -
  let ?u = "update_validity k st c (s ! i)"
  have ok: "control_ok s j" if "j < length s" for j
    using inv that by (simp add: inv_except_def)
  have live: "live_form ?t f \<longleftrightarrow> live_form s f" for f
    using i by (auto simp: live_form_def nth_list_update)
  have ch: "child ?t f c' \<longleftrightarrow> child s f c'" for f c'
    using i by (auto simp: child_def nth_list_update)
  have cok: "control_ok ?t j" if "j < length s" for j
    using ok [OF that] i update_validity_ok update_validity_maps
    by (auto simp: control_ok_def nth_list_update)
  have "tracks ?t f k' c'" if "live_form s f" "(f, k', c') \<notin> E' \<union> P" for f k' c'
  proof (cases "f = i")
    case f: True
    have lists: "c_kind (s ! i) = FormKind" "maps_ok (s ! i)"
      using that(1) f ok [OF i(1)] by (auto simp: live_form_def control_ok_def)
    note L = update_validity_lists [OF lists, of k st c k' c']
    have "c' \<noteq> i" if "child s i c'"
      using ok [of c'] that by (auto simp: child_def control_ok_def)
    then have comb: "child s i c' \<Longrightarrow> ?t ! c' = s ! c'"
      by auto
    show ?thesis
    proof (cases "k' = k \<and> c' = c")
      case True
      with that(2) f have "child s i c" "st = combined k (s ! c)"
        by (auto simp: E' split: if_splits)
      with True f i L comb ch [of i c] show ?thesis
        by (simp add: tracks_def)
    next
      case False
      then have "(f, k', c') \<notin> E"
        using that(2) f by (auto simp: E' split: if_splits)
      then have t: "tracks s i k' c'"
        using inv that(1) f by (auto simp: inv_except_def)
      have "child s i c' \<and> combined k' (?t ! c') = v \<longleftrightarrow> child s i c' \<and> combined k' (s ! c') = v" for v
        using comb by auto
      moreover have "(k' = k \<and> c' = c) = False"
        using False by blast
      note L' = L [unfolded this if_False]
      ultimately show ?thesis
        using f i L' t by (simp add: tracks_def ch)
    qed
  next
    case f: False
    then have notE: "(f, k', c') \<notin> E"
      using that(2) by (auto simp: E' split: if_splits)
    then have t: "tracks s f k' c'"
      using inv that(1) by (auto simp: inv_except_def)
    have "child s f c' \<and> combined k' (?t ! c') = v \<longleftrightarrow> child s f c' \<and> combined k' (s ! c') = v" for v
    proof (cases "c' = i \<and> child s f c'")
      case True
      then have "k' \<noteq> k"
        using that(2) by (auto simp: P child_def split: option.splits)
      then show ?thesis
        using True i combined_other [of k' k st c] by simp
    next
      case False
      then show ?thesis
        by (cases "c' = i") auto
    qed
    with f t show ?thesis
      by (simp add: tracks_def ch)
  qed
  then show ?thesis
    using cok live by (simp add: inv_except_def)
qed

definition after_report :: "forms \<Rightarrow> nat \<Rightarrow> jstring \<Rightarrow> vstate \<Rightarrow> nat \<Rightarrow> (nat \<times> jstring \<times> nat) set \<Rightarrow> (nat \<times> jstring \<times> nat) set" where
  "after_report s i k st c E = (if child s i c \<and> st = combined k (s ! c) then E - {(i, k, c)} else insert (i, k, c) E)"

lemma inv_except_mono: "inv_except E s \<Longrightarrow> E \<subseteq> E' \<Longrightarrow> inv_except E' s"
  unfolding inv_except_def by blast

lemma inv_except_dead: "inv_except E s \<Longrightarrow> \<not> live_form s f \<Longrightarrow> inv_except (E - {(f, k, c)}) s"
  by (auto simp: inv_except_def)

lemma set_validity_inv:
  assumes "inv_except E s" "i < length s" "i < n"
  shows "\<exists>s'. set_validity n i k st c s = Some s' \<and> inv_except (after_report s i k st c E) s' \<and> same_frame i s s' \<and>
    (\<not> c_null (s ! i) \<longrightarrow> c_error (s' ! i) = c_error (update_validity k st c (s ! i)) \<and>
       c_success (s' ! i) = c_success (update_validity k st c (s ! i)) \<and> c_pending (s' ! i) = c_pending (update_validity k st c (s ! i)))"
  using assms
proof (induction n arbitrary: i st c s E)
  case (Suc n)
  let ?u = "update_validity k st c (s ! i)" and ?t = "s[i := update_validity k st c (s ! i)]"
  show ?case
  proof (cases "c_null (s ! i)")
    case True
    then have "inv_except (E - {(i, k, c)}) s"
      using Suc.prems by (intro inv_except_dead) (auto simp: live_form_def)
    then have "inv_except (after_report s i k st c E) s"
      by (rule inv_except_mono) (auto simp: after_report_def)
    with True show ?thesis
      by (simp add: same_frame_refl)
  next
    case False
    have own: "inv_except (after_report s i k st c E \<union> (case c_parent (s ! i) of Some p \<Rightarrow> {(p, k, i)} | None \<Rightarrow> {})) ?t"
      by (rule own_update [OF Suc.prems(1,2) False after_report_def refl])
    have fr: "same_frame i s ?t"
      by (rule same_frame_update) simp_all
    show ?thesis
    proof (cases "c_parent (s ! i)")
      case None
      with False own fr Suc.prems show ?thesis
        by (simp add: Let_def)
    next
      case (Some p)
      then have p: "p < i"
        using Suc.prems by (auto simp: inv_except_def control_ok_def)
      obtain s' where s': "set_validity n p k (combined k ?u) i ?t = Some s'"
        "inv_except (after_report ?t p k (combined k ?u) i (after_report s i k st c E \<union> {(p, k, i)})) s'" "same_frame p ?t s'"
        using Suc.IH [of "after_report s i k st c E \<union> {(p, k, i)}" ?t p "combined k ?u" i] own Some p Suc.prems by auto
      have "child ?t p i"
        using Some Suc.prems by (simp add: child_def)
      then have "inv_except (after_report s i k st c E) s'"
        using s'(2) Suc.prems(2) by (auto simp: after_report_def [of ?t] elim: inv_except_mono)
      moreover have "same_frame i s s'"
        using same_frame_trans [OF fr s'(3)] p by simp
      moreover have "s' ! i = ?t ! i"
        using s'(3) p Suc.prems by (simp add: same_frame_def)
      ultimately show ?thesis
        using False Some s'(1) Suc.prems by (simp add: Let_def)
    qed
  qed
qed simp

subsection \<open>Every operation keeps the invariant\<close>

lemma setValidity_inv:
  assumes "form_inv s" "i < length s" "c_kind (s ! i) = ModelKind"
  shows "\<exists>s'. setValidity i k st i s = Some s' \<and> form_inv s'"
proof -
  obtain s' where s': "setValidity i k st i s = Some s'" "inv_except (after_report s i k st i {}) s'" "same_frame i s s'"
    using set_validity_inv [of "{}" s i "Suc (length s)" k st i] assms by (auto simp: setValidity_def form_inv_def)
  have "\<not> live_form s' i"
    using s'(3) assms by (auto simp: live_form_def same_frame_def)
  then have "inv_except (after_report s i k st i {} - {(i, k, i)}) s'"
    using s'(2) by (intro inv_except_dead)
  then have "form_inv s'"
    unfolding form_inv_def by (rule inv_except_mono) (auto simp: after_report_def split: if_splits)
  with s'(1) show ?thesis
    by blast
qed

text \<open>Updates of fields the invariant does not read.\<close>

definition same_validity :: "control \<Rightarrow> control \<Rightarrow> bool" where
  "same_validity x y \<longleftrightarrow> c_kind x = c_kind y \<and> c_parent x = c_parent y \<and> c_null x = c_null y \<and> c_error x = c_error y \<and>
     c_success x = c_success y \<and> c_pending x = c_pending y \<and> c_valid x = c_valid y \<and> c_invalid x = c_invalid y"

lemma combined_same: "same_validity x y \<Longrightarrow> combined k x = combined k y"
  by (simp add: same_validity_def combined_def)

lemma inv_same:
  assumes "inv_except E s" "length t = length s" "\<forall>j < length s. same_validity (t ! j) (s ! j)"
  shows "inv_except E t"
proof -
  have sv: "same_validity (t ! j) (s ! j)" if "j < length s" for j
    using assms(3) that by blast
  have "control_ok t j" if "j < length s" for j
  proof -
    have "control_ok s j"
      using assms(1) that by (simp add: inv_except_def)
    moreover from this have "c_parent (s ! j) = Some p \<Longrightarrow> p < length s" for p
      using that by (auto simp: control_ok_def)
    ultimately show ?thesis
      using sv [OF that] sv by (fastforce simp: control_ok_def same_validity_def valid_ok_def maps_ok_def)
  qed
  moreover have "tracks t f k c \<longleftrightarrow> tracks s f k c" if "f < length s" for f k c
  proof -
    have "child t f c \<and> combined k (t ! c) = v \<longleftrightarrow> child s f c \<and> combined k (s ! c) = v" for v
      using sv [of c] combined_same [of "t ! c" "s ! c" k] assms(2) by (auto simp: child_def same_validity_def)
    then show ?thesis
      using sv [OF that] by (simp add: tracks_def same_validity_def)
  qed
  moreover have "live_form t f \<longleftrightarrow> live_form s f" for f
    using sv [of f] assms(2) by (auto simp: live_form_def same_validity_def)
  ultimately show ?thesis
    using assms(1,2) by (auto simp: inv_except_def live_form_def)
qed

lemma same_validity_refl [simp]: "same_validity x x"
  by (simp add: same_validity_def)

lemma inv_update_same:
  assumes "inv_except E s" "same_validity x (s ! i)"
  shows "inv_except E (s[i := x])"
proof (rule inv_same [OF assms(1)])
  have "same_validity (s[i := x] ! j) (s ! j)" if "j < length s" for j
    using assms(2) that by (cases "j = i") auto
  then show "\<forall>j < length s. same_validity (s[i := x] ! j) (s ! j)"
    by blast
qed simp

definition fresh_control :: "forms \<Rightarrow> nat \<Rightarrow> bool" where
  "fresh_control s c \<longleftrightarrow> c < length s \<and> c_parent (s ! c) = None \<and> \<not> c_null (s ! c) \<and> c_error (s ! c) = [] \<and>
     c_success (s ! c) = [] \<and> c_pending (s ! c) = None"

lemma addControl_inv:
  assumes inv: "form_inv s" and c: "fresh_control s c" and f: "f < c" "c_kind (s ! f) = FormKind" "\<not> c_null (s ! f)"
    and r: "addControl f c s = Some s'"
  shows "form_inv s'"
proof -
  define t where "t = s[f := (s ! f)\<lparr>c_controls := c_controls (s ! f) @ [c],
      c_named := (if c_name (s ! c) \<noteq> [] then AList.update (c_name (s ! c)) c (c_named (s ! f)) else c_named (s ! f))\<rparr>]"
  have s': "s' = t[c := (t ! c)\<lparr>c_parent := Some f\<rparr>]"
    using r f by (auto simp: addControl_def t_def Let_def split: if_splits)
  have t: "inv_except {} t"
    unfolding t_def by (rule inv_update_same [OF inv [unfolded form_inv_def]]) (simp add: same_validity_def)
  have len: "length t = length s" "c < length s"
    using c by (simp_all add: t_def fresh_control_def)
  have tc: "t ! c = s ! c" "c_kind (t ! f) = FormKind" "\<not> c_null (t ! f)"
    using f len by (auto simp: t_def)
  have comb: "combined k (s' ! j) = combined k (t ! j)" for k j
    using len by (cases "j = c") (auto simp: s' combined_def)
  have nc: "combined k (t ! c) = VNull" for k
    using c by (simp add: tc combined_def fresh_control_def)
  have chn: "j \<noteq> c \<Longrightarrow> child s' g j \<longleftrightarrow> child t g j" for g j
    by (simp add: s' child_def)
  have "child s' g j \<and> combined k (s' ! j) = v \<longleftrightarrow> child t g j \<and> combined k (t ! j) = v" if "v \<noteq> VNull" for g j k v
    using that comb [of k j] nc [of k] chn by (cases "j = c") auto
  moreover have "c_error (s' ! g) = c_error (t ! g)" "c_success (s' ! g) = c_success (t ! g)" "c_pending (s' ! g) = c_pending (t ! g)"
    "live_form s' g = live_form t g" for g
    using len by (cases "g = c"; simp add: s' live_form_def)+
  ultimately have "tracks s' g k j \<longleftrightarrow> tracks t g k j" for g k j
    by (simp add: tracks_def)
  moreover have "control_ok s' j" if "j < length s" for j
  proof -
    have "control_ok t j"
      using t that len by (simp add: inv_except_def)
    then show ?thesis
      using len f c tc by (cases "j = c") (auto simp: s' control_ok_def valid_ok_def maps_ok_def fresh_control_def nth_list_update)
  qed
  ultimately show ?thesis
    using t len \<open>\<And>g. live_form s' g = live_form t g\<close> by (simp add: form_inv_def inv_except_def) (simp add: s')
qed

lemma new_control_inv:
  assumes "form_inv s"
  shows "form_inv (s @ [new_control kd name])"
proof -
  let ?t = "s @ [new_control kd name]" and ?x = "new_control kd name"
  have x: "c_parent ?x = None" "c_error ?x = []" "c_success ?x = []" "c_pending ?x = None" "valid_ok ?x" "maps_ok ?x"
    by (simp_all add: new_control_def valid_ok_def maps_ok_def lists_ok_def)
  have ok: "control_ok ?t j" if "j < length ?t" for j
  proof (cases "j < length s")
    case True
    then have "control_ok s j"
      using assms by (simp add: form_inv_def inv_except_def)
    with True show ?thesis
      by (auto simp: control_ok_def nth_append)
  qed (use that x in \<open>auto simp: control_ok_def nth_append less_Suc_eq\<close>)
  have ch: "child ?t f c \<longleftrightarrow> child s f c" for f c
    using x by (auto simp: child_def nth_append less_Suc_eq)
  have "tracks ?t f k c" if "live_form ?t f" for f k c
  proof (cases "f < length s")
    case True
    then have "tracks s f k c"
      using that assms by (auto simp: form_inv_def inv_except_def live_form_def nth_append)
    then show ?thesis
      using True ch by (auto simp: tracks_def nth_append child_def)
  next
    case False
    then have f: "?t ! f = ?x" "f = length s"
      using that by (auto simp: live_form_def nth_append less_Suc_eq)
    have "\<not> child s f c"
      using assms f(2) by (fastforce simp: child_def form_inv_def inv_except_def control_ok_def)
    then show ?thesis
      using f x ch by (simp add: tracks_def listed_def listed_opt_def)
  qed
  with ok show ?thesis
    by (simp add: form_inv_def inv_except_def)
qed

subsection \<open>Removing a control\<close>

definition lists_control :: "forms \<Rightarrow> nat \<Rightarrow> nat \<Rightarrow> jstring \<Rightarrow> bool \<times> bool \<times> bool" where
  "lists_control s f c k = (listed_opt (c_pending (s ! f)) k c, listed (c_error (s ! f)) k c, listed (c_success (s ! f)) k c)"

definition fewer_lists :: "nat \<Rightarrow> nat \<Rightarrow> forms \<Rightarrow> forms \<Rightarrow> bool" where
  "fewer_lists f c s s' \<longleftrightarrow> (\<forall>k. (listed_opt (c_pending (s' ! f)) k c \<longrightarrow> listed_opt (c_pending (s ! f)) k c) \<and>
     (listed (c_error (s' ! f)) k c \<longrightarrow> listed (c_error (s ! f)) k c) \<and>
     (listed (c_success (s' ! f)) k c \<longrightarrow> listed (c_success (s ! f)) k c))"

definition about_control :: "nat \<Rightarrow> nat \<Rightarrow> (nat \<times> jstring \<times> nat) set" where
  "about_control f c = {x. fst x = f \<and> snd (snd x) = c}"

lemma clear_key_inv:
  assumes "inv_except (about_control f c) s" "live_form s f"
  shows "\<exists>s'. setValidity f k VNull c s = Some s' \<and> inv_except (about_control f c) s' \<and> same_frame f s s' \<and>
    fewer_lists f c s s' \<and> lists_control s' f c k = (False, False, False)"
proof -
  have f: "f < length s" "\<not> c_null (s ! f)" "c_kind (s ! f) = FormKind" "maps_ok (s ! f)"
    using assms by (auto simp: live_form_def inv_except_def control_ok_def)
  obtain s' where s': "setValidity f k VNull c s = Some s'" "inv_except (after_report s f k VNull c (about_control f c)) s'"
    "same_frame f s s'" "c_error (s' ! f) = c_error (update_validity k VNull c (s ! f))"
    "c_success (s' ! f) = c_success (update_validity k VNull c (s ! f))"
    "c_pending (s' ! f) = c_pending (update_validity k VNull c (s ! f))"
    using set_validity_inv [OF assms(1) f(1), of "Suc (length s)" k VNull c] f unfolding setValidity_def by auto
  have "inv_except (about_control f c) s'"
    using s'(2) by (rule inv_except_mono) (auto simp: after_report_def about_control_def)
  then show ?thesis
    using s' update_validity_lists [OF f(3,4), of k VNull c _ c]
    by (auto simp: fewer_lists_def lists_control_def simp del: update_validity_fields)
qed

lemma live_form_frame: "same_frame i s s' \<Longrightarrow> live_form s' f = live_form s f"
  by (auto simp: live_form_def same_frame_def)

lemma fewer_lists_trans: "fewer_lists f c s t \<Longrightarrow> fewer_lists f c t u \<Longrightarrow> fewer_lists f c s u"
  by (simp add: fewer_lists_def)

lemma clear_keys_inv:
  "inv_except (about_control f c) s \<Longrightarrow> live_form s f \<Longrightarrow>
   \<exists>s'. clear_keys f c ks s = Some s' \<and> inv_except (about_control f c) s' \<and> same_frame f s s' \<and> fewer_lists f c s s' \<and>
     (\<forall>k \<in> set ks. lists_control s' f c k = (False, False, False))"
proof (induction ks arbitrary: s)
  case Nil
  then show ?case
    by (simp add: same_frame_refl fewer_lists_def)
next
  case (Cons k ks)
  obtain t where t: "setValidity f k VNull c s = Some t" "inv_except (about_control f c) t" "same_frame f s t"
    "fewer_lists f c s t" "lists_control t f c k = (False, False, False)"
    using clear_key_inv [OF Cons.prems] by blast
  obtain u where u: "clear_keys f c ks t = Some u" "inv_except (about_control f c) u" "same_frame f t u" "fewer_lists f c t u"
    "\<forall>k \<in> set ks. lists_control u f c k = (False, False, False)"
    using Cons.IH [OF t(2)] Cons.prems(2) live_form_frame [OF t(3)] by auto
  have "lists_control u f c k = (False, False, False)"
    using t(5) u(4) by (auto simp: lists_control_def fewer_lists_def)
  then show ?case
    using t u same_frame_trans [OF t(3) u(3)] fewer_lists_trans [OF t(4) u(4)] by auto
qed

lemma listed_key: "listed m k c \<Longrightarrow> k \<in> set (map fst m)"
  by (auto simp: listed_def dest!: map_of_SomeD intro: rev_image_eqI)

lemma removeControl_inv:
  assumes inv: "form_inv s" and f: "live_form s f" and c: "child s f c"
  shows "\<exists>s'. removeControl f c s = Some s' \<and> form_inv s' \<and> length s' = length s \<and> c_parent (s' ! c) = None \<and>
    (\<forall>j. j < length s \<longrightarrow> c_kind (s' ! j) = c_kind (s ! j) \<and> c_null (s' ! j) = c_null (s ! j) \<and> (j \<noteq> c \<longrightarrow> c_parent (s' ! j) = c_parent (s ! j)))"
proof -
  define s0 where "s0 = (if c_name (s ! c) \<noteq> [] \<and> map_of (c_named (s ! f)) (c_name (s ! c)) = Some c
      then s[f := (s ! f)\<lparr>c_named := AList.delete (c_name (s ! c)) (c_named (s ! f))\<rparr>] else s)"
  have "inv_except {} s0"
    unfolding s0_def using inv by (auto simp: form_inv_def intro!: inv_update_same simp: same_validity_def)
  then have i0: "inv_except (about_control f c) s0"
    by (rule inv_except_mono) simp
  have fr0: "same_frame f s s0"
    unfolding s0_def using same_frame_update [of "_" s f] same_frame_refl by auto
  have l0: "live_form s0 f"
    using f live_form_frame [OF fr0] by simp
  obtain s1 where s1: "clear_keys f c (case c_pending (s0 ! f) of Some m \<Rightarrow> map fst m | None \<Rightarrow> []) s0 = Some s1"
    "inv_except (about_control f c) s1" "same_frame f s0 s1" "fewer_lists f c s0 s1"
    "\<forall>k \<in> set (case c_pending (s0 ! f) of Some m \<Rightarrow> map fst m | None \<Rightarrow> []). lists_control s1 f c k = (False, False, False)"
    using clear_keys_inv [OF i0 l0] by blast
  have l1: "live_form s1 f"
    using l0 live_form_frame [OF s1(3)] by simp
  obtain s2 where s2: "clear_keys f c (map fst (c_error (s1 ! f))) s1 = Some s2"
    "inv_except (about_control f c) s2" "same_frame f s1 s2" "fewer_lists f c s1 s2"
    "\<forall>k \<in> set (map fst (c_error (s1 ! f))). lists_control s2 f c k = (False, False, False)"
    using clear_keys_inv [OF s1(2) l1] by blast
  have l2: "live_form s2 f"
    using l1 live_form_frame [OF s2(3)] by simp
  obtain s3 where s3: "clear_keys f c (map fst (c_success (s2 ! f))) s2 = Some s3"
    "inv_except (about_control f c) s3" "same_frame f s2 s3" "fewer_lists f c s2 s3"
    "\<forall>k \<in> set (map fst (c_success (s2 ! f))). lists_control s3 f c k = (False, False, False)"
    using clear_keys_inv [OF s2(2) l2] by blast
  have fr: "same_frame f s s3"
    using same_frame_trans [OF fr0 same_frame_trans [OF s1(3) same_frame_trans [OF s2(3) s3(3)]]] by simp
  have p: "\<not> listed_opt (c_pending (s3 ! f)) k c" for k
  proof
    assume "listed_opt (c_pending (s3 ! f)) k c"
    then have a: "listed_opt (c_pending (s1 ! f)) k c" "listed_opt (c_pending (s0 ! f)) k c"
      using s1(4) s2(4) s3(4) by (auto simp: fewer_lists_def)
    then have "k \<in> set (case c_pending (s0 ! f) of Some m \<Rightarrow> map fst m | None \<Rightarrow> [])"
      by (auto simp: listed_opt_def dest: listed_key)
    with a s1(5) show False
      by (auto simp: lists_control_def)
  qed
  have e: "\<not> listed (c_error (s3 ! f)) k c" for k
  proof
    assume "listed (c_error (s3 ! f)) k c"
    then have "listed (c_error (s2 ! f)) k c" "listed (c_error (s1 ! f)) k c"
      using s2(4) s3(4) by (auto simp: fewer_lists_def)
    then show False
      using s2(5) listed_key by (fastforce simp: lists_control_def)
  qed
  have u: "\<not> listed (c_success (s3 ! f)) k c" for k
  proof
    assume "listed (c_success (s3 ! f)) k c"
    then have "listed (c_success (s2 ! f)) k c"
      using s3(4) by (auto simp: fewer_lists_def)
    then show False
      using s3(5) listed_key \<open>listed (c_success (s3 ! f)) k c\<close> by (fastforce simp: lists_control_def)
  qed
  define s4 where "s4 = s3[f := (s3 ! f)\<lparr>c_controls := remove1 c (c_controls (s3 ! f))\<rparr>]"
  define s5 where "s5 = s4[c := (s4 ! c)\<lparr>c_parent := None\<rparr>]"
  have r: "removeControl f c s = Some s5"
    using f s1(1) s2(1) s3(1) unfolding removeControl_def live_form_def s0_def [symmetric] Let_def
    by (simp add: s4_def s5_def)
  have i4: "inv_except (about_control f c) s4"
    unfolding s4_def by (rule inv_update_same [OF s3(2)]) (simp add: same_validity_def)
  have c': "c < length s" "c_parent (s ! c) = Some f" "f < c"
    using c inv by (auto simp: child_def form_inv_def inv_except_def control_ok_def)
  have len: "length s4 = length s" "length s5 = length s"
    using fr by (simp_all add: s4_def s5_def same_frame_def)
  have fields4: "c_kind (s4 ! j) = c_kind (s ! j) \<and> c_null (s4 ! j) = c_null (s ! j) \<and> c_parent (s4 ! j) = c_parent (s ! j)"
    if "j < length s" for j
    using fr that by (cases "j = f") (auto simp: s4_def same_frame_def)
  have comb: "combined k (s5 ! j) = combined k (s4 ! j)" for k j
    using len c'(1) by (cases "j = c") (simp_all add: s5_def combined_def)
  have maps: "c_error (s5 ! j) = c_error (s4 ! j)" "c_success (s5 ! j) = c_success (s4 ! j)" "c_pending (s5 ! j) = c_pending (s4 ! j)"
    "c_kind (s5 ! j) = c_kind (s4 ! j)" "c_null (s5 ! j) = c_null (s4 ! j)" "c_valid (s5 ! j) = c_valid (s4 ! j)"
    "c_invalid (s5 ! j) = c_invalid (s4 ! j)" for j
    using len c'(1) by (cases "j = c"; simp add: s5_def)+
  have ch: "child s5 g j \<longleftrightarrow> child s4 g j \<and> j \<noteq> c" for g j
    using len c' by (cases "j = c") (auto simp: child_def s5_def)
  have live: "live_form s5 g = live_form s4 g" for g
    using len maps by (simp add: live_form_def)
  have "tracks s5 g k j" if "live_form s5 g" for g k j
  proof (cases "j = c")
    case True
    have "\<not> listed (c_error (s5 ! g)) k c \<and> \<not> listed (c_success (s5 ! g)) k c \<and> \<not> listed_opt (c_pending (s5 ! g)) k c"
    proof (cases "g = f")
      case True
      then show ?thesis
        using p e u c' fr by (simp add: maps s4_def same_frame_def)
    next
      case False
      then have "tracks s4 g k c"
        using i4 that live by (auto simp: inv_except_def about_control_def)
      moreover have "\<not> child s4 g c"
        using False c' fields4 [of c] by (auto simp: child_def)
      ultimately show ?thesis
        by (simp add: tracks_def maps)
    qed
    with True ch show ?thesis
      by (simp add: tracks_def)
  next
    case False
    then have "tracks s4 g k j"
      using i4 that live by (auto simp: inv_except_def about_control_def)
    with False ch maps comb show ?thesis
      by (simp add: tracks_def)
  qed
  moreover have "control_ok s5 j" if "j < length s5" for j
  proof -
    have "control_ok s4 j"
      using i4 that len by (simp add: inv_except_def)
    moreover have "c_parent (s5 ! j) = (if j = c then None else c_parent (s4 ! j))"
      using c' len by (simp add: s5_def)
    ultimately show ?thesis
      using maps by (auto simp: control_ok_def valid_ok_def maps_ok_def)
  qed
  ultimately have "form_inv s5"
    by (simp add: form_inv_def inv_except_def)
  moreover have "c_parent (s5 ! c) = None" "\<forall>j. j < length s \<longrightarrow> c_kind (s5 ! j) = c_kind (s ! j) \<and> c_null (s5 ! j) = c_null (s ! j) \<and>
      (j \<noteq> c \<longrightarrow> c_parent (s5 ! j) = c_parent (s ! j))"
    using c' len fields4 maps by (auto simp: s5_def nth_list_update)
  ultimately show ?thesis
    using r len by blast
qed

subsection \<open>Destruction, and operations beside validity\<close>

lemma null_inv:
  assumes inv: "form_inv s" and f: "\<forall>p. c_parent (s ! f) = Some p \<longrightarrow> c_null (s ! p)"
  shows "form_inv (s[f := (s ! f)\<lparr>c_null := True\<rparr>])" (is "form_inv ?t")
proof (cases "f < length s")
  case True
  have fields: "c_kind (?t ! j) = c_kind (s ! j)" "c_parent (?t ! j) = c_parent (s ! j)" "c_error (?t ! j) = c_error (s ! j)"
    "c_success (?t ! j) = c_success (s ! j)" "c_pending (?t ! j) = c_pending (s ! j)" "c_valid (?t ! j) = c_valid (s ! j)"
    "c_invalid (?t ! j) = c_invalid (s ! j)" "c_null (?t ! j) \<longleftrightarrow> c_null (s ! j) \<or> j = f" for j
    using True by (cases "j = f"; simp)+
  have "tracks ?t g k c" if "live_form ?t g" for g k c
  proof -
    have "tracks s g k c"
      using that inv by (auto simp: live_form_def form_inv_def inv_except_def fields)
    then show ?thesis
      by (simp add: tracks_def child_def combined_def fields)
  qed
  moreover have "control_ok ?t j" if "j < length ?t" for j
  proof -
    have "control_ok s j"
      using inv that by (simp add: form_inv_def inv_except_def)
    then show ?thesis
      using f by (auto simp: control_ok_def valid_ok_def maps_ok_def fields)
  qed
  ultimately show ?thesis
    by (simp add: form_inv_def inv_except_def)
next
  case False
  then have "s[f := (s ! f)\<lparr>c_null := True\<rparr>] = s"
    by (intro list_update_beyond) simp
  with inv show ?thesis
    by metis
qed

lemma destroy_form_inv:
  assumes inv: "form_inv s" and f: "f < length s" and r: "destroy_form f s = Some s'"
  shows "form_inv s'"
proof (cases "c_parent (s ! f)")
  case None
  with r null_inv [OF inv] show ?thesis
    by (auto simp: destroy_form_def)
next
  case (Some p)
  have p: "p < length s" "c_kind (s ! p) = FormKind"
    using inv f Some by (fastforce simp: form_inv_def inv_except_def control_ok_def)+
  show ?thesis
  proof (cases "c_null (s ! p)")
    case True
    with r Some null_inv [OF inv] show ?thesis
      by (auto simp: destroy_form_def removeControl_def)
  next
    case False
    then obtain t where t: "removeControl p f s = Some t" "form_inv t" "c_parent (t ! f) = None"
      using removeControl_inv [OF inv, of p f] p f Some by (auto simp: live_form_def child_def)
    with r Some null_inv [OF t(2), of f] show ?thesis
      by (auto simp: destroy_form_def)
  qed
qed

lemma class_fields [simp]:
  "c_kind (addClass n ctl) = c_kind ctl" "c_parent (addClass n ctl) = c_parent ctl" "c_null (addClass n ctl) = c_null ctl"
  "c_error (addClass n ctl) = c_error ctl" "c_success (addClass n ctl) = c_success ctl" "c_pending (addClass n ctl) = c_pending ctl"
  "c_valid (addClass n ctl) = c_valid ctl" "c_invalid (addClass n ctl) = c_invalid ctl"
  "c_kind (removeClass n ctl) = c_kind ctl" "c_parent (removeClass n ctl) = c_parent ctl" "c_null (removeClass n ctl) = c_null ctl"
  "c_error (removeClass n ctl) = c_error ctl" "c_success (removeClass n ctl) = c_success ctl"
  "c_pending (removeClass n ctl) = c_pending ctl" "c_valid (removeClass n ctl) = c_valid ctl"
  "c_invalid (removeClass n ctl) = c_invalid ctl"
  by (auto simp: addClass_def removeClass_def)

lemma setDirty_inv: "setDirty n i s = Some s' \<Longrightarrow> inv_except E s \<Longrightarrow> inv_except E s'"
proof (induction n arbitrary: i s)
  case (Suc n)
  define x where "x = (addClass DIRTY_CLASS (removeClass PRISTINE_CLASS (s ! i)))\<lparr>c_dirty := True, c_pristine := False\<rparr>"
  have e: "inv_except E (s[i := x])"
    using Suc.prems(2) by (rule inv_update_same) (simp add: same_validity_def x_def)
  show ?case
    using Suc.prems Suc.IH [OF _ e] e unfolding setDirty.simps Let_def x_def [symmetric]
    by (auto split: if_splits option.splits)
qed simp

lemma setSubmitted_inv: "setSubmitted n i s = Some s' \<Longrightarrow> inv_except E s \<Longrightarrow> inv_except E s'"
proof (induction n arbitrary: i s)
  case (Suc n)
  define x where "x = (addClass SUBMITTED_CLASS (s ! i))\<lparr>c_submitted := True\<rparr>"
  have e: "inv_except E (s[i := x])"
    using Suc.prems(2) by (rule inv_update_same) (simp add: same_validity_def x_def)
  show ?case
    using Suc.prems Suc.IH [OF _ e] e unfolding setSubmitted.simps Let_def x_def [symmetric]
    by (auto split: if_splits option.splits)
qed simp

lemma fold_bind_inv:
  "\<forall>c s s'. g c s = Some s' \<longrightarrow> P s \<longrightarrow> P s' \<Longrightarrow> fold (\<lambda>c r. Option.bind r (g c)) cs r = Some s' \<Longrightarrow>
   \<forall>s. r = Some s \<longrightarrow> P s \<Longrightarrow> P s'"
proof (induction cs arbitrary: r)
  case (Cons c cs)
  have "\<forall>s. Option.bind r (g c) = Some s \<longrightarrow> P s"
    using Cons.prems(1,3) by (auto simp: Option.bind_eq_Some_conv)
  then show ?case
    using Cons.IH [of "Option.bind r (g c)"] Cons.prems by simp
qed simp

lemma all_controls_inv:
  assumes "\<And>x. same_validity (g x) x"
  shows "all_controls b g n i s = Some s' \<Longrightarrow> inv_except E s \<Longrightarrow> inv_except E s'"
proof (induction n arbitrary: i s s')
  case (Suc n)
  show ?case
  proof (cases "b \<and> c_null (s ! i)")
    case True
    with Suc.prems show ?thesis
      by simp
  next
    case False
    then have r: "fold (\<lambda>c r. Option.bind r (all_controls b g n c)) (c_controls (s ! i)) (Some (s[i := g (s ! i)])) = Some s'"
      using Suc.prems by auto
    show ?thesis
    proof (rule fold_bind_inv [OF _ r])
      show "\<forall>c s s'. all_controls b g n c s = Some s' \<longrightarrow> inv_except E s \<longrightarrow> inv_except E s'"
        using Suc.IH by blast
      show "\<forall>t. Some (s[i := g (s ! i)]) = Some t \<longrightarrow> inv_except E t"
        using inv_update_same [OF Suc.prems(2) assms] by simp
    qed
  qed
qed simp

lemma pristine_same: "same_validity (pristine_control x) x" "same_validity (untouched_control x) x"
  by (simp_all add: same_validity_def pristine_control_def untouched_control_def split: control_kind.split)

subsection \<open>Runs\<close>

text \<open>
  The operations as the directives of a page perform them: a controller is built, registered with the
  form around it while it has no state yet (the form was built before it), reports its validity, is
  removed; a form is destroyed; the flags that do not concern validity change.
\<close>

inductive forms_step :: "forms \<Rightarrow> forms \<Rightarrow> bool" where
  build: "forms_step s (s @ [new_control kd name])"
| register: "fresh_control s c \<Longrightarrow> f < c \<Longrightarrow> c_kind (s ! f) = FormKind \<Longrightarrow> addControl f c s = Some s' \<Longrightarrow> forms_step s s'"
| report: "i < length s \<Longrightarrow> c_kind (s ! i) = ModelKind \<Longrightarrow> setValidity i k st i s = Some s' \<Longrightarrow> forms_step s s'"
| remove: "child s f c \<Longrightarrow> f < length s \<Longrightarrow> removeControl f c s = Some s' \<Longrightarrow> forms_step s s'"
| destroy: "f < length s \<Longrightarrow> c_kind (s ! f) = FormKind \<Longrightarrow> destroy_form f s = Some s' \<Longrightarrow> forms_step s s'"
| dirty: "setDirty n i s = Some s' \<Longrightarrow> forms_step s s'"
| submitted: "setSubmitted n i s = Some s' \<Longrightarrow> forms_step s s'"
| pristine: "setPristine i s = Some s' \<Longrightarrow> forms_step s s'"
| untouched: "setUntouched i s = Some s' \<Longrightarrow> forms_step s s'"
| touched: "forms_step s (setTouched i s)"
| rename: "forms_step s (renameControl f c name s)"

inductive forms_run :: "forms \<Rightarrow> bool" where
  empty: "forms_run []"
| step: "forms_run s \<Longrightarrow> forms_step s s' \<Longrightarrow> forms_run s'"

lemma forms_step_inv:
  assumes "forms_step s s'" "form_inv s"
  shows "form_inv s'"
  using assms(1)
proof cases
  case (build kd name)
  with assms(2) new_control_inv show ?thesis by simp
next
  case (register c f)
  then show ?thesis
    using addControl_inv [OF assms(2)] assms(2) by (cases "c_null (s ! f)") (auto simp: addControl_def)
next
  case (report i k st)
  then show ?thesis
    using setValidity_inv [OF assms(2), of i k st] by auto
next
  case (remove f c)
  have "c_kind (s ! f) = FormKind"
    using remove(1) assms(2) by (auto simp: child_def form_inv_def inv_except_def control_ok_def)
  then show ?thesis
    using removeControl_inv [OF assms(2), of f c] remove assms(2)
    by (cases "c_null (s ! f)") (auto simp: live_form_def removeControl_def)
next
  case (destroy f)
  then show ?thesis
    using destroy_form_inv [OF assms(2)] by blast
next
  case (dirty n i)
  then show ?thesis
    using setDirty_inv assms(2) by (auto simp: form_inv_def)
next
  case (submitted n i)
  then show ?thesis
    using setSubmitted_inv assms(2) by (auto simp: form_inv_def)
next
  case (pristine i)
  then show ?thesis
    using all_controls_inv [OF pristine_same(1) pristine(1) [unfolded setPristine_def]] assms(2) by (simp add: form_inv_def)
next
  case (untouched i)
  then show ?thesis
    using all_controls_inv [OF pristine_same(2) untouched(1) [unfolded setUntouched_def]] assms(2) by (simp add: form_inv_def)
next
  case (touched i)
  then show ?thesis
    using assms(2) inv_update_same [of "{}" s _ i]
    by (auto simp: form_inv_def setTouched_def same_validity_def intro!: inv_update_same)
next
  case (rename f c name)
  then show ?thesis
    using assms(2)
    by (auto simp: form_inv_def renameControl_def Let_def same_validity_def intro!: inv_update_same)
qed

lemma forms_run_inv: "forms_run s \<Longrightarrow> form_inv s"
proof (induction rule: forms_run.induct)
  case empty
  show ?case
    by (simp add: form_inv_def inv_except_def live_form_def)
next
  case (step s s')
  then show ?case
    using forms_step_inv by blast
qed

subsection \<open>The inputs below a form\<close>

inductive below :: "forms \<Rightarrow> nat \<Rightarrow> nat \<Rightarrow> bool" for s where
  child: "child s f c \<Longrightarrow> below s f c"
| deeper: "child s f g \<Longrightarrow> below s g c \<Longrightarrow> below s f c"

inductive_simps below_unfold: "below s f c"

lemma inv_child:
  assumes "form_inv s" "live_form s f" "child s f c"
  shows "f < c" "c_kind (s ! c) = FormKind \<Longrightarrow> live_form s c" "valid_ok (s ! c)"
proof -
  have "control_ok s c" "c < length s" "c_parent (s ! c) = Some f"
    using assms by (auto simp: form_inv_def inv_except_def child_def)
  then show "f < c" "c_kind (s ! c) = FormKind \<Longrightarrow> live_form s c" "valid_ok (s ! c)"
    using assms(2) by (auto simp: control_ok_def live_form_def)
qed

lemma inv_live:
  assumes "form_inv s" "live_form s f"
  shows "valid_ok (s ! f)" "maps_ok (s ! f)" "tracks s f k c"
  using assms by (auto simp: form_inv_def inv_except_def live_form_def control_ok_def)

lemma lists_ok_listed: "lists_ok m \<Longrightarrow> m \<noteq> [] \<longleftrightarrow> (\<exists>k c. listed m k c)"
proof
  assume ok: "lists_ok m" and "m \<noteq> []"
  then obtain k cs r where "m = (k, cs) # r"
    by (cases m) auto
  then have "map_of m k = Some cs"
    by simp
  with ok have "listed m k (hd cs)"
    by (auto simp: lists_ok_def listed_def)
  then show "\<exists>k c. listed m k c"
    by blast
qed (auto simp: listed_def)

lemma not_Nil_key: "m \<noteq> [] \<longleftrightarrow> (\<exists>k. map_of m k \<noteq> None)"
  by (cases m) (auto simp: map_of_eq_None_iff)

lemma pending_children:
  assumes inv: "form_inv s" and live: "live_form s f"
  shows "c_pending (s ! f) \<noteq> None \<longleftrightarrow> (\<exists>c. child s f c \<and> c_pending (s ! c) \<noteq> None)"
proof -
  have "c_pending (s ! f) \<noteq> None \<longleftrightarrow> (\<exists>k c. listed_opt (c_pending (s ! f)) k c)"
    using inv_live(1,2) [OF inv live] lists_ok_listed
    by (cases "c_pending (s ! f)") (auto simp: listed_opt_def valid_ok_def maps_ok_def)
  also have "\<dots> \<longleftrightarrow> (\<exists>k c. child s f c \<and> combined k (s ! c) = VUndefined)"
    using inv_live(3) [OF inv live] unfolding tracks_def by blast
  also have "\<dots> \<longleftrightarrow> (\<exists>c. child s f c \<and> c_pending (s ! c) \<noteq> None)"
  proof -
    have "(\<exists>k. combined k (s ! c) = VUndefined) \<longleftrightarrow> c_pending (s ! c) \<noteq> None" if "child s f c" for c
    proof (cases "c_pending (s ! c)")
      case (Some m)
      have v: "valid_ok (s ! c)"
        by (rule inv_child(3) [OF inv live that])
      from Some obtain k where "map_of m k \<noteq> None"
        using v not_Nil_key [of m] by (auto simp: valid_ok_def)
      with Some have "combined k (s ! c) = VUndefined"
        by (simp add: combined_def)
      with Some show ?thesis
        by auto
    qed (auto simp: combined_def)
    then show ?thesis
      by blast
  qed
  finally show ?thesis .
qed

lemma error_children:
  assumes inv: "form_inv s" and live: "live_form s f" and p: "c_pending (s ! f) = None"
  shows "c_error (s ! f) \<noteq> [] \<longleftrightarrow> (\<exists>c. child s f c \<and> c_error (s ! c) \<noteq> [])"
proof -
  have "c_error (s ! f) \<noteq> [] \<longleftrightarrow> (\<exists>k c. listed (c_error (s ! f)) k c)"
    using inv_live(2) [OF inv live] lists_ok_listed by (auto simp: maps_ok_def)
  also have "\<dots> \<longleftrightarrow> (\<exists>k c. child s f c \<and> combined k (s ! c) = VBool False)"
    using inv_live(3) [OF inv live] unfolding tracks_def by blast
  also have "\<dots> \<longleftrightarrow> (\<exists>c. child s f c \<and> c_error (s ! c) \<noteq> [])"
  proof -
    have "(\<exists>k. combined k (s ! c) = VBool False) \<longleftrightarrow> c_error (s ! c) \<noteq> []" if "child s f c" for c
    proof -
      have "c_pending (s ! c) = None"
        using pending_children [OF inv live] p that by auto
      then show ?thesis
        using not_Nil_key [of "c_error (s ! c)"] by (auto simp: combined_def)
    qed
    then show ?thesis
      by blast
  qed
  finally show ?thesis .
qed

text \<open>A property of a form that says whether one of its controls has it is one of the inputs below.\<close>

lemma exists_below:
  assumes inv: "form_inv s" and up: "\<And>f. live_form s f \<Longrightarrow> Q f \<Longrightarrow> P f \<longleftrightarrow> (\<exists>c. child s f c \<and> P c)"
    and down: "\<And>f c. live_form s f \<Longrightarrow> Q f \<Longrightarrow> child s f c \<Longrightarrow> Q c"
  shows "live_form s f \<Longrightarrow> Q f \<Longrightarrow> P f \<longleftrightarrow> (\<exists>c. below s f c \<and> c_kind (s ! c) = ModelKind \<and> P c)"
proof (induction "length s - f" arbitrary: f rule: less_induct)
  case less
  have below: "(\<exists>d. below s c d \<and> c_kind (s ! d) = ModelKind \<and> P d) \<longleftrightarrow> P c"
    if "child s f c" "c_kind (s ! c) = FormKind" for c
  proof -
    have "f < c" "live_form s c"
      using inv_child [OF inv less.prems(1) that(1)] that(2) by auto
    then show ?thesis
      using less.hyps [of c] down [OF less.prems that(1)] by (auto simp: live_form_def)
  qed
  have leaf: "\<not> below s c d" if "child s f c" "c_kind (s ! c) = ModelKind" for c d
  proof
    assume "below s c d"
    then obtain e where e: "child s c e"
      by (auto elim: below.cases)
    then have "control_ok s e"
      using inv by (auto simp: form_inv_def inv_except_def child_def)
    with e that(2) show False
      by (auto simp: control_ok_def child_def)
  qed
  have "P f \<longleftrightarrow> (\<exists>c. child s f c \<and> P c)"
    by (rule up [OF less.prems])
  also have "\<dots> \<longleftrightarrow> (\<exists>d. below s f d \<and> c_kind (s ! d) = ModelKind \<and> P d)" (is "?l \<longleftrightarrow> ?r")
  proof
    assume ?l
    then obtain c where c: "child s f c" "P c"
      by blast
    show ?r
    proof (cases "c_kind (s ! c)")
      case FormKind
      with c below show ?thesis
        by (meson below.deeper)
    next
      case ModelKind
      with c show ?thesis
        by (meson below.child)
    qed
  next
    assume ?r
    then obtain d where d: "below s f d" "c_kind (s ! d) = ModelKind" "P d"
      by blast
    from d(1) show ?l
    proof cases
      case child
      with d show ?thesis
        by blast
    next
      case (deeper g)
      then have "c_kind (s ! g) = FormKind"
        using leaf [of g d] by (cases "c_kind (s ! g)") auto
      with deeper d below show ?thesis
        by blast
    qed
  qed
  finally show ?case .
qed

text \<open>
  C31. After any sequence of registrations, reports of validators, removals, destructions, renames and
  changes of the other flags, a form that is not destroyed is pending just when an input in it or in one of
  its nested forms is pending; and when it is not, it is valid just when none of these inputs has an
  error, and invalid otherwise.
\<close>

theorem form_validity:
  assumes "forms_run s" "live_form s f"
  shows "c_valid (s ! f) =
      (if \<exists>c. below s f c \<and> c_kind (s ! c) = ModelKind \<and> c_pending (s ! c) \<noteq> None then None
       else Some (\<forall>c. below s f c \<and> c_kind (s ! c) = ModelKind \<longrightarrow> c_error (s ! c) = []))
    \<and> c_invalid (s ! f) = map_option Not (c_valid (s ! f))"
proof -
  have inv: "form_inv s"
    using assms(1) by (rule forms_run_inv)
  have p: "c_pending (s ! f) \<noteq> None \<longleftrightarrow> (\<exists>c. below s f c \<and> c_kind (s ! c) = ModelKind \<and> c_pending (s ! c) \<noteq> None)"
    using exists_below [OF inv, of "\<lambda>_. True" "\<lambda>f. c_pending (s ! f) \<noteq> None"] pending_children [OF inv] assms(2) by blast
  have e: "c_error (s ! f) \<noteq> [] \<longleftrightarrow> (\<exists>c. below s f c \<and> c_kind (s ! c) = ModelKind \<and> c_error (s ! c) \<noteq> [])"
    if "c_pending (s ! f) = None"
  proof (rule exists_below [OF inv, of "\<lambda>f. c_pending (s ! f) = None" "\<lambda>f. c_error (s ! f) \<noteq> []"])
    show "\<And>g. live_form s g \<Longrightarrow> c_pending (s ! g) = None \<Longrightarrow> c_error (s ! g) \<noteq> [] \<longleftrightarrow> (\<exists>c. child s g c \<and> c_error (s ! c) \<noteq> [])"
      by (rule error_children [OF inv])
    show "\<And>g c. live_form s g \<Longrightarrow> c_pending (s ! g) = None \<Longrightarrow> child s g c \<Longrightarrow> c_pending (s ! c) = None"
      using pending_children [OF inv] by blast
  qed (use assms(2) that in auto)
  show ?thesis
    using inv_live(1) [OF inv assms(2)] p e by (auto simp: valid_ok_def)
qed

text \<open>A form with one input, which a validator finds empty.\<close>

definition demo_controls :: forms where
  "demo_controls = [new_control FormKind (J ''user'')] @ [new_control ModelKind (J ''name'')]"

definition demo_forms :: forms where
  "demo_forms = the (setValidity 1 (J ''required'') (VBool False) 1 (the (addControl 0 1 demo_controls)))"

lemma demo_forms_run: "forms_run demo_forms"
proof -
  have "forms_step [] [new_control FormKind (J ''user'')]"
    using forms_step.build [of "[]" FormKind "J ''user''"] by simp
  then have 1: "forms_run [new_control FormKind (J ''user'')]"
    by (rule forms_run.step [OF forms_run.empty])
  have 2: "forms_run demo_controls"
    unfolding demo_controls_def by (rule forms_run.step [OF 1 forms_step.build])
  have "fresh_control demo_controls 1" "c_kind (demo_controls ! 0) = FormKind"
    by (simp_all add: demo_controls_def fresh_control_def new_control_def)
  moreover have "addControl 0 1 demo_controls = Some (the (addControl 0 1 demo_controls))"
    by (simp add: demo_controls_def addControl_def new_control_def J_def Let_def)
  ultimately have 3: "forms_run (the (addControl 0 1 demo_controls))"
    by (intro forms_run.step [OF 2 forms_step.register [of demo_controls 1 0]]) simp_all
  have "forms_step (the (addControl 0 1 demo_controls)) demo_forms"
    by (rule forms_step.report [of 1 _ "J ''required''" "VBool False"]; code_simp)
  with 3 show ?thesis
    by (rule forms_run.step)
qed

theorem form_validity_witness: "c_valid (demo_forms ! 0) = Some False \<and> below demo_forms 0 1"
proof -
  have "live_form demo_forms 0" "child demo_forms 0 1" "c_valid (demo_forms ! 0) \<noteq> None"
    "c_kind (demo_forms ! 1) = ModelKind" "c_error (demo_forms ! 1) \<noteq> []"
    by code_simp+
  moreover from this(2) have "below demo_forms 0 1"
    by (rule below.child)
  ultimately show ?thesis
    using form_validity [OF demo_forms_run, of 0] by (auto split: if_splits)
qed

end
