(* ===== verification/NgModelCtl.thy ===== *)
theory NgModelCtl
  imports NgFormInv JsValue
begin

section \<open>The controller of an input\<close>

text \<open>
  \<open>NgModelController\<close>: the way from a view value over parsers and validators to the model, and back
  over the formatters. Parsers, formatters, validators and view change listeners are functions of the
  page; an asynchronous validator only says whether it returned a promise, its answer is a later event.
  Listeners may write the model again. The controls of the page, among them the one of this input, are
  the list of NgForm.
\<close>

subsection \<open>State\<close>

record input_code =
  parsers :: "(val \<Rightarrow> val) list"
  formatters :: "(val \<Rightarrow> val) list"
  validators :: "(jstring \<times> (val \<Rightarrow> val \<Rightarrow> bool)) list"
  asyncValidators :: "(jstring \<times> (val \<Rightarrow> val \<Rightarrow> bool)) list"
  viewChangeListeners :: "(val \<Rightarrow> val) list" \<comment> \<open>what the listener leaves in the model\<close>
  parserName :: jstring
  hasNativeValidators :: bool
  allowInvalid :: bool
  updateOnDefault :: bool
  debounce :: "jnum + (jstring \<times> jnum) list"

datatype done_callback =
    NoCallback
  | AfterParse val              \<comment> \<open>\<open>prevModelValue\<close>\<close>
  | AfterValidate "bool option" val \<comment> \<open>\<open>prevValid\<close>, \<open>prevModelValue\<close>\<close>

record async_run =
  r_id :: nat
  r_model :: val
  r_done :: done_callback
  r_waiting :: "jstring list"
  r_allValid :: bool
  r_joined :: bool \<comment> \<open>\<open>$q.all\<close> has been called\<close>

record model_ctl =
  controls :: forms
  self :: nat
  viewValue :: val
  modelValue :: val
  rawModelValue :: val
  lastCommitted :: val
  parserValid :: "bool option"
  currentRun :: nat
  runs :: "async_run list"
  debounced :: bool \<comment> \<open>a commit waits for \<open>$timeout\<close>\<close>
  scopeValue :: val \<comment> \<open>the model on the scope\<close>

definition new_model_ctl :: "forms \<Rightarrow> nat \<Rightarrow> val \<Rightarrow> model_ctl" where
  "new_model_ctl s i v =
     \<lparr>controls = s, self = i, viewValue = Num NaN, modelValue = Num NaN, rawModelValue = Undef, lastCommitted = Undef,
      parserValid = None, currentRun = 0, runs = [], debounced = False, scopeValue = v\<rparr>"

text \<open>An exception carries the state it leaves behind.\<close>

datatype model_error = NoPromise | StackOverflow

type_synonym 'a outcome = "(model_error \<times> model_ctl) + 'a"

definition EMPTY_CLASS :: jstring where "EMPTY_CLASS = J ''ng-empty''"
definition NOT_EMPTY_CLASS :: jstring where "NOT_EMPTY_CLASS = J ''ng-not-empty''"

definition isEmpty :: "val \<Rightarrow> bool" where
  "isEmpty v \<longleftrightarrow> v = Undef \<or> strict_eq v (Str []) \<or> v = Null \<or> \<not> strict_eq v v"

definition updateEmptyClasses :: "val \<Rightarrow> model_ctl \<Rightarrow> model_ctl" where
  "updateEmptyClasses v m =
     m\<lparr>controls := (controls m)[self m :=
         (if isEmpty v then addClass EMPTY_CLASS (removeClass NOT_EMPTY_CLASS (controls m ! self m))
          else addClass NOT_EMPTY_CLASS (removeClass EMPTY_CLASS (controls m ! self m)))]\<rparr>"

subsection \<open>Validators\<close>

definition report_key :: "jstring \<Rightarrow> vstate \<Rightarrow> model_ctl \<Rightarrow> model_ctl outcome" where
  "report_key k st m =
     (case setValidity (self m) k st (self m) (controls m) of
        None \<Rightarrow> Inl (StackOverflow, m)
      | Some s \<Rightarrow> Inr (m\<lparr>controls := s\<rparr>))"

fun report_all :: "(jstring \<times> vstate) list \<Rightarrow> model_ctl \<Rightarrow> model_ctl outcome" where
  "report_all [] m = Inr m"
| "report_all ((k, st) # ks) m = bindE (report_key k st m) (report_all ks)"

definition skipped :: "(jstring \<times> 'f) list \<Rightarrow> (jstring \<times> vstate) list" where
  "skipped vs = map (\<lambda>(k, _). (k, VNull)) vs"

definition errorKey :: "input_code \<Rightarrow> jstring" where
  "errorKey u = (if parserName u = [] then J ''parse'' else parserName u)"

definition processParseErrors :: "input_code \<Rightarrow> model_ctl \<Rightarrow> (bool \<times> model_ctl) outcome" where
  "processParseErrors u m =
     (case parserValid m of
        None \<Rightarrow> bindE (report_key (errorKey u) VNull m) (\<lambda>m. Inr (True, m))
      | Some ok \<Rightarrow>
          bindE (if ok then Inr m else bindE (report_all (skipped (validators u)) m) (report_all (skipped (asyncValidators u)))) (\<lambda>m.
          bindE (report_key (errorKey u) (VBool ok) m) (\<lambda>m. Inr (ok, m))))"

definition sync_results :: "input_code \<Rightarrow> val \<Rightarrow> val \<Rightarrow> (jstring \<times> bool) list" where
  "sync_results u md vw = map (\<lambda>(k, f). (k, f md vw)) (validators u)"

definition processSyncValidators :: "input_code \<Rightarrow> val \<Rightarrow> val \<Rightarrow> model_ctl \<Rightarrow> (bool \<times> model_ctl) outcome" where
  "processSyncValidators u md vw m =
     bindE (report_all (map (\<lambda>(k, b). (k, VBool b)) (sync_results u md vw)) m) (\<lambda>m.
     if list_all snd (sync_results u md vw) then Inr (True, m)
     else bindE (report_all (skipped (asyncValidators u)) m) (\<lambda>m. Inr (False, m)))"

definition writeModelToScope :: "input_code \<Rightarrow> model_ctl \<Rightarrow> model_ctl" where
  "writeModelToScope u m = m\<lparr>scopeValue := fold (\<lambda>f v. f v) (viewChangeListeners u) (modelValue m)\<rparr>"

definition writeToModelIfNeeded :: "input_code \<Rightarrow> val \<Rightarrow> model_ctl \<Rightarrow> model_ctl" where
  "writeToModelIfNeeded u prev m = (if strict_eq (modelValue m) prev then m else writeModelToScope u m)"

definition call_done :: "input_code \<Rightarrow> done_callback \<Rightarrow> val \<Rightarrow> bool \<Rightarrow> model_ctl \<Rightarrow> model_ctl" where
  "call_done u d md allValid m =
     (case d of
        NoCallback \<Rightarrow> m
      | AfterParse prev \<Rightarrow>
          (if allowInvalid u then m
           else writeToModelIfNeeded u prev (m\<lparr>modelValue := (if allValid then md else Undef)\<rparr>))
      | AfterValidate prevValid prev \<Rightarrow>
          (if \<not> allowInvalid u \<and> prevValid \<noteq> Some allValid
           then writeToModelIfNeeded u prev (m\<lparr>modelValue := (if allValid then md else Undef)\<rparr>) else m))"

definition validationDone :: "input_code \<Rightarrow> nat \<Rightarrow> done_callback \<Rightarrow> val \<Rightarrow> bool \<Rightarrow> model_ctl \<Rightarrow> model_ctl" where
  "validationDone u localRun d md allValid m = (if localRun = currentRun m then call_done u d md allValid m else m)"

text \<open>The run at the head of the list is the one that collects its promises.\<close>

definition collect :: "jstring \<Rightarrow> async_run list \<Rightarrow> async_run list" where
  "collect k rs = (case rs of [] \<Rightarrow> [] | r # rs \<Rightarrow> r\<lparr>r_waiting := r_waiting r @ [k]\<rparr> # rs)"

fun start_async :: "val \<Rightarrow> val \<Rightarrow> (jstring \<times> (val \<Rightarrow> val \<Rightarrow> bool)) list \<Rightarrow> model_ctl \<Rightarrow> model_ctl outcome" where
  "start_async md vw [] m = Inr m"
| "start_async md vw ((k, f) # vs) m =
     (if \<not> f md vw then Inl (NoPromise, m)
      else bindE (report_key k VUndefined m) (\<lambda>m. start_async md vw vs (m\<lparr>runs := collect k (runs m)\<rparr>)))"

definition processAsyncValidators :: "input_code \<Rightarrow> done_callback \<Rightarrow> val \<Rightarrow> val \<Rightarrow> model_ctl \<Rightarrow> model_ctl outcome" where
  "processAsyncValidators u d md vw m =
     (let r = \<lparr>r_id = currentRun m, r_model = md, r_done = d, r_waiting = [], r_allValid = True, r_joined = False\<rparr>
      in bindE (start_async md vw (asyncValidators u) (m\<lparr>runs := r # runs m\<rparr>)) (\<lambda>m.
         if r_waiting (hd (runs m)) = [] then Inr (validationDone u (currentRun m) d md True (m\<lparr>runs := tl (runs m)\<rparr>))
         else Inr (m\<lparr>runs := (hd (runs m))\<lparr>r_joined := True\<rparr> # tl (runs m)\<rparr>)))"

definition runValidators :: "input_code \<Rightarrow> val \<Rightarrow> val \<Rightarrow> done_callback \<Rightarrow> model_ctl \<Rightarrow> model_ctl outcome" where
  "runValidators u md vw d m =
     (let m = m\<lparr>currentRun := Suc (currentRun m)\<rparr>; localRun = currentRun m
      in bindE (processParseErrors u m) (\<lambda>(ok, m).
         if \<not> ok then Inr (validationDone u localRun d md False m)
         else bindE (processSyncValidators u md vw m) (\<lambda>(ok, m).
         if \<not> ok then Inr (validationDone u localRun d md False m)
         else processAsyncValidators u d md vw m)))"

text \<open>The handlers of the promises: one per answer, and one when all promises of the run are settled.\<close>

definition asyncAnswer :: "async_run \<Rightarrow> jstring \<Rightarrow> bool \<Rightarrow> model_ctl \<Rightarrow> model_ctl outcome" where
  "asyncAnswer r k ok m =
     (let r' = r\<lparr>r_waiting := remove1 k (r_waiting r), r_allValid := (r_allValid r \<and> ok)\<rparr>;
          m' = m\<lparr>runs := map (\<lambda>q. if r_id q = r_id r then r' else q) (runs m)\<rparr>
      in if r_id r = currentRun m then report_key k (VBool ok) m' else Inr m')"

definition asyncDone :: "input_code \<Rightarrow> async_run \<Rightarrow> model_ctl \<Rightarrow> model_ctl" where
  "asyncDone u r m =
     validationDone u (r_id r) (r_done r) (r_model r) (r_allValid r) (m\<lparr>runs := filter (\<lambda>q. r_id q \<noteq> r_id r) (runs m)\<rparr>)"

subsection \<open>From the view to the model\<close>

definition validate :: "input_code \<Rightarrow> model_ctl \<Rightarrow> model_ctl outcome" where
  "validate u m =
     (if modelValue m = Num NaN then Inr m
      else runValidators u (rawModelValue m) (lastCommitted m) (AfterValidate (c_valid (controls m ! self m)) (modelValue m)) m)"

fun run_parsers :: "(val \<Rightarrow> val) list \<Rightarrow> val \<Rightarrow> val" where
  "run_parsers [] v = v"
| "run_parsers (f # fs) v = (if f v = Undef then Undef else run_parsers fs (f v))"

definition parseAndValidate :: "input_code \<Rightarrow> model_ctl \<Rightarrow> model_ctl outcome" where
  "parseAndValidate u m =
     (let view = lastCommitted m;
          md = (if view = Undef then Undef else run_parsers (parsers u) view);
          m = m\<lparr>parserValid := (if view = Undef then None else Some (md \<noteq> Undef))\<rparr>;
          m = (if modelValue m = Num NaN then m\<lparr>modelValue := scopeValue m\<rparr> else m);
          prev = modelValue m;
          m = m\<lparr>rawModelValue := md\<rparr>;
          m = (if allowInvalid u then writeToModelIfNeeded u prev (m\<lparr>modelValue := md\<rparr>) else m)
      in runValidators u md (lastCommitted m) (AfterParse prev) m)"

definition commit_changed :: "input_code \<Rightarrow> model_ctl \<Rightarrow> model_ctl outcome" where
  "commit_changed u m =
     (if c_pristine (controls m ! self m)
      then (case setDirty (Suc (length (controls m))) (self m) (controls m) of
              None \<Rightarrow> Inl (StackOverflow, m)
            | Some s \<Rightarrow> parseAndValidate u (m\<lparr>controls := s\<rparr>))
      else parseAndValidate u m)"

definition commitViewValue :: "input_code \<Rightarrow> model_ctl \<Rightarrow> model_ctl outcome" where
  "commitViewValue u m =
     (if strict_eq (lastCommitted m) (viewValue m) \<and> (viewValue m \<noteq> Str [] \<or> \<not> hasNativeValidators u)
      then Inr (m\<lparr>debounced := False\<rparr>)
      else commit_changed u ((updateEmptyClasses (viewValue m) (m\<lparr>debounced := False\<rparr>))\<lparr>lastCommitted := viewValue m\<rparr>))"

definition debounce_delay :: "input_code \<Rightarrow> jstring \<Rightarrow> jnum option" where
  "debounce_delay u trigger =
     (case debounce u of
        Inl n \<Rightarrow> Some n
      | Inr ds \<Rightarrow> (case map_of ds trigger of Some n \<Rightarrow> Some n | None \<Rightarrow> map_of ds (J ''default'')))"

definition debounceViewValueCommit :: "input_code \<Rightarrow> jstring \<Rightarrow> model_ctl \<Rightarrow> model_ctl outcome" where
  "debounceViewValueCommit u trigger m =
     (let m = m\<lparr>debounced := False\<rparr>
      in if (case debounce_delay u trigger of Some n \<Rightarrow> num_lt (Fin 0) n | None \<Rightarrow> False) then Inr (m\<lparr>debounced := True\<rparr>)
         else commitViewValue u m)"

definition setViewValue :: "input_code \<Rightarrow> val \<Rightarrow> jstring \<Rightarrow> model_ctl \<Rightarrow> model_ctl outcome" where
  "setViewValue u v trigger m =
     (let m = m\<lparr>viewValue := v\<rparr> in if updateOnDefault u then debounceViewValueCommit u trigger m else Inr m)"

definition rollbackViewValue :: "model_ctl \<Rightarrow> model_ctl" where
  "rollbackViewValue m = m\<lparr>debounced := False, viewValue := lastCommitted m\<rparr>"

subsection \<open>From the model to the view\<close>

definition format_value :: "input_code \<Rightarrow> val \<Rightarrow> val" where
  "format_value u v = foldr (\<lambda>f v. f v) (formatters u) v"

definition processModelValue :: "input_code \<Rightarrow> model_ctl \<Rightarrow> model_ctl outcome" where
  "processModelValue u m =
     (let v = format_value u (modelValue m)
      in if strict_eq (viewValue m) v then Inr m
         else
           (let m = (updateEmptyClasses v m)\<lparr>viewValue := v, lastCommitted := v\<rparr>
            in runValidators u (modelValue m) (viewValue m) NoCallback m))"

definition setModelValue :: "input_code \<Rightarrow> val \<Rightarrow> model_ctl \<Rightarrow> model_ctl outcome" where
  "setModelValue u v m = processModelValue u (m\<lparr>modelValue := v, rawModelValue := v, parserValid := None\<rparr>)"

definition ngModelWatch :: "input_code \<Rightarrow> model_ctl \<Rightarrow> model_ctl outcome" where
  "ngModelWatch u m =
     (let v = scopeValue m
      in if \<not> strict_eq v (modelValue m) \<and> (strict_eq (modelValue m) (modelValue m) \<or> strict_eq v v)
         then setModelValue u v m else Inr m)"

end
