(* ===== verification/NgModelInv.thy ===== *)
theory NgModelInv
  imports NgModelCtl
begin

section \<open>Validation runs of an input\<close>

text \<open>
  What a validation run reports, as a list, and the invariant that the input is pending just as long as
  its latest run waits for an answer, whatever answers of earlier runs arrive in between.
\<close>

subsection \<open>One report of an input\<close>

definition pend_keys :: "control \<Rightarrow> jstring set" where
  "pend_keys ctl = (case c_pending ctl of Some m \<Rightarrow> dom (map_of m) | None \<Rightarrow> {})"

lemma pend_keys_update:
  "c_kind ctl = ModelKind \<Longrightarrow>
   pend_keys (update_validity k st c ctl) = (if st = VUndefined then insert k (pend_keys ctl) else pend_keys ctl - {k})"
  by (auto simp: pend_keys_def mark_keys_def Let_def createAndSet_def unsetAndCleanup_def set_key_def unset_key_def
      update_conv' delete_conv' split: option.splits if_splits)
    (metis delete_conv' fun_upd_apply map_of.simps(1) option.distinct(1))+

lemma combined_own:
  assumes "c_kind ctl = ModelKind"
  shows "combined k (update_validity k st c ctl) = st"
proof -
  have "map_of (unset_key ModelKind k c m) k = None" "map_of (set_key ModelKind k c m) k = Some []" for m
    by (simp_all add: unset_key_def set_key_def delete_conv' update_conv')
  then show ?thesis
    using assms
    by (cases st) (auto simp: combined_def mark_keys_def Let_def createAndSet_def unsetAndCleanup_def split: option.splits if_splits)
qed

lemma pending_iff_keys: "valid_ok ctl \<Longrightarrow> c_pending ctl \<noteq> None \<longleftrightarrow> pend_keys ctl \<noteq> {}"
  by (auto simp: valid_ok_def pend_keys_def dom_map_of_conv_image_fst split: option.splits)

definition reported :: "nat \<Rightarrow> (jstring \<times> vstate) list \<Rightarrow> control \<Rightarrow> control" where
  "reported i ks ctl = fold (\<lambda>(k, st). update_validity k st i) ks ctl"

lemma reported_simps [simp]:
  "reported i [] ctl = ctl"
  "reported i ((k, st) # ks) ctl = reported i ks (update_validity k st i ctl)"
  "reported i (ks @ ks') ctl = reported i ks' (reported i ks ctl)"
  by (simp_all add: reported_def)

lemma reported_kind [simp]: "c_kind (reported i ks ctl) = c_kind ctl"
  by (induction ks arbitrary: ctl) auto

lemma combined_reported:
  "c_kind ctl = ModelKind \<Longrightarrow>
   combined k (reported i ks ctl) = (case map_of (rev ks) k of Some st \<Rightarrow> st | None \<Rightarrow> combined k ctl)"
proof (induction ks arbitrary: ctl)
  case (Cons p ks)
  then show ?case
    using combined_own [of ctl] combined_other [of k "fst p" "snd p" i ctl]
    by (cases p; cases "fst p = k") (auto simp: map_add_def split: option.split)
qed simp

lemma pend_keys_settled:
  "c_kind ctl = ModelKind \<Longrightarrow> VUndefined \<notin> snd ` set ks \<Longrightarrow> pend_keys (reported i ks ctl) = pend_keys ctl - fst ` set ks"
  by (induction ks arbitrary: ctl) (auto simp: pend_keys_update; force)+

lemma pend_keys_waiting:
  "c_kind ctl = ModelKind \<Longrightarrow> pend_keys (reported i (map (\<lambda>(k, _). (k, VUndefined)) vs) ctl) = pend_keys ctl \<union> fst ` set vs"
  by (induction vs arbitrary: ctl) (auto simp: pend_keys_update; force)+

subsection \<open>Reports and the page\<close>

definition ctl_of :: "model_ctl \<Rightarrow> control" where
  "ctl_of m = controls m ! self m"

definition ctl_ok :: "model_ctl \<Rightarrow> bool" where
  "ctl_ok m \<longleftrightarrow> form_inv (controls m) \<and> self m < length (controls m) \<and> c_kind (ctl_of m) = ModelKind \<and> \<not> c_null (ctl_of m)"

lemma set_validity_frame:
  assumes "\<And>j p. j < length s \<Longrightarrow> c_parent (s ! j) = Some p \<Longrightarrow> p < j"
  shows "set_validity n i k st c s = Some s' \<Longrightarrow> i < length s \<Longrightarrow> length s' = length s \<and> (\<forall>j > i. s' ! j = s ! j)"
  using assms
proof (induction n arbitrary: i st c s)
  case (Suc n)
  define u where "u = update_validity k st c (s ! i)"
  have parents: "p < j" if "j < length (s[i := u])" "c_parent (s[i := u] ! j) = Some p" for j p
    using Suc.prems(3) [of j p] that by (cases "j = i") (auto simp: u_def)
  show ?case
  proof (cases "c_null (s ! i) \<or> c_parent (s ! i) = None")
    case True
    with Suc.prems(1) show ?thesis
      by (auto simp: Let_def split: if_splits)
  next
    case False
    then obtain p where p: "c_parent (s ! i) = Some p" "\<not> c_null (s ! i)"
      by auto
    then have "p < i"
      using Suc.prems(2,3) by blast
    moreover have "set_validity n p k (combined k u) i (s[i := u]) = Some s'"
      using Suc.prems(1) p by (simp add: u_def Let_def)
    ultimately have "length s' = length (s[i := u]) \<and> (\<forall>j > p. s' ! j = s[i := u] ! j)"
      using Suc.prems(2) by (intro Suc.IH [OF _ _ parents]) auto
    with \<open>p < i\<close> show ?thesis
      by auto
  qed
qed simp

lemma setValidity_self:
  assumes inv: "form_inv s" and i: "i < length s" "\<not> c_null (s ! i)" and r: "setValidity i k st i s = Some s'"
  shows "length s' = length s \<and> s' ! i = update_validity k st i (s ! i)"
proof -
  define u where "u = update_validity k st i (s ! i)"
  have parents: "p < j" if "j < length s" "c_parent (s ! j) = Some p" for j p
    using inv that by (auto simp: form_inv_def inv_except_def control_ok_def)
  show ?thesis
  proof (cases "c_parent (s ! i)")
    case None
    with r i show ?thesis
      by (auto simp: setValidity_def Let_def)
  next
    case (Some p)
    have "set_validity (length s) p k (combined k u) i (s[i := u]) = Some s'"
      using r i Some by (simp add: setValidity_def u_def Let_def)
    moreover have "q < j" if "j < length (s[i := u])" "c_parent (s[i := u] ! j) = Some q" for j q
      using parents [of j q] that i by (cases "j = i") (auto simp: u_def)
    ultimately have "length s' = length (s[i := u]) \<and> (\<forall>j > p. s' ! j = s[i := u] ! j)"
      using parents [OF i(1) Some] i by (intro set_validity_frame) auto
    then show ?thesis
      using parents [OF i(1) Some] i by (simp add: u_def)
  qed
qed

text \<open>\<open>m'\<close> is \<open>m\<close> after the reports \<open>ks\<close>.\<close>

definition reports_to :: "(jstring \<times> vstate) list \<Rightarrow> model_ctl \<Rightarrow> model_ctl \<Rightarrow> bool" where
  "reports_to ks m m' \<longleftrightarrow> ctl_ok m' \<and> m' = m\<lparr>controls := controls m'\<rparr> \<and> ctl_of m' = reported (self m) ks (ctl_of m)"

lemma controls_same [simp]: "m\<lparr>controls := controls m\<rparr> = m"
  by (cases m) simp

lemma reports_to_fields:
  assumes "reports_to ks m m'"
  shows "self m' = self m" "viewValue m' = viewValue m" "modelValue m' = modelValue m" "rawModelValue m' = rawModelValue m"
    "lastCommitted m' = lastCommitted m" "parserValid m' = parserValid m" "currentRun m' = currentRun m" "runs m' = runs m"
    "scopeValue m' = scopeValue m" "ctl_ok m'"
proof -
  have e: "m' = m\<lparr>controls := controls m'\<rparr>" and ok: "ctl_ok m'"
    using assms by (simp_all add: reports_to_def)
  show "ctl_ok m'"
    by (rule ok)
  show "self m' = self m" "viewValue m' = viewValue m" "modelValue m' = modelValue m" "rawModelValue m' = rawModelValue m"
    "lastCommitted m' = lastCommitted m" "parserValid m' = parserValid m" "currentRun m' = currentRun m" "runs m' = runs m"
    "scopeValue m' = scopeValue m"
    by (subst e; simp)+
qed

lemma reports_to_Nil: "ctl_ok m \<Longrightarrow> reports_to [] m m"
  by (simp add: reports_to_def)

lemma reports_to_trans:
  assumes "reports_to ks m m'" "reports_to ks' m' m''"
  shows "reports_to (ks @ ks') m m''"
proof -
  have "m'' = m\<lparr>controls := controls m''\<rparr>"
    using assms by (metis (no_types) reports_to_def model_ctl.update_convs(1) model_ctl.surjective)
  then show ?thesis
    using assms reports_to_fields(1) [OF assms(1)] by (simp add: reports_to_def)
qed

lemma report_ok:
  assumes "ctl_ok m"
  shows "\<exists>m'. report_key k st m = Inr m' \<and> reports_to [(k, st)] m m'"
proof -
  obtain s where s: "setValidity (self m) k st (self m) (controls m) = Some s" "form_inv s"
    using setValidity_inv [of "controls m" "self m" k st] assms by (auto simp: ctl_ok_def ctl_of_def)
  then have "length s = length (controls m)" "s ! self m = update_validity k st (self m) (ctl_of m)"
    using setValidity_self [OF _ _ _ s(1)] assms by (auto simp: ctl_ok_def ctl_of_def)
  with s assms show ?thesis
    by (auto simp: report_key_def reports_to_def ctl_ok_def ctl_of_def)
qed

lemma report_all_ok: "ctl_ok m \<Longrightarrow> \<exists>m'. report_all ks m = Inr m' \<and> reports_to ks m m'"
proof (induction ks arbitrary: m)
  case Nil
  then show ?case
    by (simp add: reports_to_Nil)
next
  case (Cons p ks)
  obtain k st where p: "p = (k, st)"
    by force
  obtain m1 where m1: "report_key k st m = Inr m1" "reports_to [(k, st)] m m1"
    using report_ok Cons.prems by blast
  then obtain m2 where "report_all ks m1 = Inr m2" "reports_to ks m1 m2"
    using Cons.IH reports_to_fields(10) by blast
  with m1 p reports_to_trans [OF m1(2)] show ?case
    by fastforce
qed

subsection \<open>What a validation run reports\<close>

definition promises :: "input_code \<Rightarrow> bool" where
  "promises u \<longleftrightarrow> (\<forall>(k, f) \<in> set (asyncValidators u). \<forall>md vw. f md vw) \<and> distinct (map fst (asyncValidators u))"

definition parse_reports :: "input_code \<Rightarrow> bool option \<Rightarrow> (jstring \<times> vstate) list" where
  "parse_reports u pv =
     (case pv of
        None \<Rightarrow> [(errorKey u, VNull)]
      | Some ok \<Rightarrow> (if ok then [] else skipped (validators u) @ skipped (asyncValidators u)) @ [(errorKey u, VBool ok)])"

definition sync_ok :: "input_code \<Rightarrow> val \<Rightarrow> val \<Rightarrow> bool" where
  "sync_ok u md vw \<longleftrightarrow> (\<forall>(k, f) \<in> set (validators u). f md vw)"

definition sync_reports :: "input_code \<Rightarrow> val \<Rightarrow> val \<Rightarrow> (jstring \<times> vstate) list" where
  "sync_reports u md vw =
     map (\<lambda>(k, f). (k, VBool (f md vw))) (validators u) @
     (if sync_ok u md vw then map (\<lambda>(k, _). (k, VUndefined)) (asyncValidators u) else skipped (asyncValidators u))"

definition run_reports :: "input_code \<Rightarrow> bool option \<Rightarrow> val \<Rightarrow> val \<Rightarrow> (jstring \<times> vstate) list" where
  "run_reports u pv md vw = parse_reports u pv @ (if pv = Some False then [] else sync_reports u md vw)"

text \<open>The verdict of a run, when it needs no answer.\<close>

definition verdict :: "input_code \<Rightarrow> bool option \<Rightarrow> val \<Rightarrow> val \<Rightarrow> bool option" where
  "verdict u pv md vw =
     (if pv = Some False \<or> \<not> sync_ok u md vw then Some False else if asyncValidators u = [] then Some True else None)"

lemma processParseErrors_ok:
  assumes "ctl_ok m"
  shows "\<exists>m'. processParseErrors u m = Inr (parserValid m \<noteq> Some False, m') \<and> reports_to (parse_reports u (parserValid m)) m m'"
proof (cases "parserValid m")
  case None
  then show ?thesis
    using report_ok [OF assms, of "errorKey u" VNull] by (auto simp: processParseErrors_def parse_reports_def)
next
  case (Some ok)
  let ?ks = "if ok then [] else skipped (validators u) @ skipped (asyncValidators u)"
  obtain m1 where m1: "(if ok then Inr m else bindE (report_all (skipped (validators u)) m) (report_all (skipped (asyncValidators u)))) = Inr m1"
    "reports_to ?ks m m1"
  proof (cases ok)
    case True
    with assms that show ?thesis
      by (simp add: reports_to_Nil)
  next
    case False
    obtain m1 where m1: "report_all (skipped (validators u)) m = Inr m1" "reports_to (skipped (validators u)) m m1"
      using report_all_ok [OF assms] by blast
    obtain m2 where "report_all (skipped (asyncValidators u)) m1 = Inr m2" "reports_to (skipped (asyncValidators u)) m1 m2"
      using report_all_ok [OF reports_to_fields(10) [OF m1(2)]] by blast
    with m1 False that reports_to_trans show ?thesis
      by fastforce
  qed
  obtain m2 where m2: "report_key (errorKey u) (VBool ok) m1 = Inr m2" "reports_to [(errorKey u, VBool ok)] m1 m2"
    using report_ok [OF reports_to_fields(10) [OF m1(2)]] by blast
  have "reports_to (parse_reports u (parserValid m)) m m2"
    using reports_to_trans [OF m1(2) m2(2)] Some by (simp add: parse_reports_def)
  then show ?thesis
    using Some m1(1) m2(1) by (simp add: processParseErrors_def)
qed

lemma sync_results_snd: "list_all snd (sync_results u md vw) \<longleftrightarrow> sync_ok u md vw"
  by (auto simp: sync_results_def sync_ok_def list_all_iff)

lemma sync_results_reports:
  "map (\<lambda>(k, b). (k, VBool b)) (sync_results u md vw) = map (\<lambda>(k, f). (k, VBool (f md vw))) (validators u)"
  by (auto simp: sync_results_def)

lemma processSyncValidators_ok:
  assumes "ctl_ok m"
  shows "\<exists>m'. processSyncValidators u md vw m = Inr (sync_ok u md vw, m') \<and>
    reports_to (map (\<lambda>(k, f). (k, VBool (f md vw))) (validators u) @ (if sync_ok u md vw then [] else skipped (asyncValidators u))) m m'"
proof -
  obtain m1 where m1: "report_all (map (\<lambda>(k, f). (k, VBool (f md vw))) (validators u)) m = Inr m1"
    "reports_to (map (\<lambda>(k, f). (k, VBool (f md vw))) (validators u)) m m1"
    using report_all_ok [OF assms] by blast
  obtain m2 where "report_all (skipped (asyncValidators u)) m1 = Inr m2" "reports_to (skipped (asyncValidators u)) m1 m2"
    using report_all_ok [OF reports_to_fields(10) [OF m1(2)]] by blast
  with m1 reports_to_trans [OF m1(2)] show ?thesis
    by (auto simp: processSyncValidators_def sync_results_reports sync_results_snd)
qed

lemma start_async_ok:
  "ctl_ok m \<Longrightarrow> runs m = r # rs \<Longrightarrow> \<forall>(k, f) \<in> set vs. \<forall>md vw. f md vw \<Longrightarrow>
   \<exists>m' m1. start_async md vw vs m = Inr m' \<and> reports_to (map (\<lambda>(k, _). (k, VUndefined)) vs) m m1 \<and>
     m' = m1\<lparr>runs := r\<lparr>r_waiting := r_waiting r @ map fst vs\<rparr> # rs\<rparr>"
proof (induction vs arbitrary: m r)
  case Nil
  then have "m\<lparr>runs := r # rs\<rparr> = m"
    by (cases m) simp
  with Nil show ?case
    using reports_to_Nil by fastforce
next
  case (Cons v vs)
  obtain k f where v: "v = (k, f)"
    by force
  obtain m1 where m1: "report_key k VUndefined m = Inr m1" "reports_to [(k, VUndefined)] m m1"
    using report_ok [OF Cons.prems(1)] by blast
  let ?r = "r\<lparr>r_waiting := r_waiting r @ [k]\<rparr>" and ?m = "m1\<lparr>runs := collect k (runs m1)\<rparr>"
  have "runs ?m = ?r # rs" "ctl_ok ?m"
    using reports_to_fields(8,10) [OF m1(2)] Cons.prems(2) by (simp_all add: collect_def ctl_ok_def ctl_of_def)
  then obtain m' m2 where m2: "start_async md vw vs ?m = Inr m'" "reports_to (map (\<lambda>(k, _). (k, VUndefined)) vs) ?m m2"
    "m' = m2\<lparr>runs := ?r\<lparr>r_waiting := r_waiting ?r @ map fst vs\<rparr> # rs\<rparr>"
    using Cons.IH [of ?m ?r] Cons.prems(3) by auto
  have "reports_to (map (\<lambda>(k, _). (k, VUndefined)) vs) m1 (m2\<lparr>runs := runs m1\<rparr>)"
    using m2(2) by (cases m1; cases m2) (simp add: reports_to_def ctl_ok_def ctl_of_def)
  from reports_to_trans [OF m1(2) this] m1(1) m2(1,3) Cons.prems(3) v show ?case
    by (intro exI [of _ m'] exI [of _ "m2\<lparr>runs := runs m1\<rparr>"]) auto
qed

lemma processAsyncValidators_ok:
  assumes ok: "ctl_ok m" and u: "promises u"
  shows "\<exists>m1. reports_to (map (\<lambda>(k, _). (k, VUndefined)) (asyncValidators u)) m m1 \<and>
    processAsyncValidators u d md vw m =
      Inr (if asyncValidators u = [] then call_done u d md True m1
           else m1\<lparr>runs := \<lparr>r_id = currentRun m, r_model = md, r_done = d, r_waiting = map fst (asyncValidators u),
                            r_allValid = True, r_joined = True\<rparr> # runs m\<rparr>)"
proof -
  let ?r = "\<lparr>r_id = currentRun m, r_model = md, r_done = d, r_waiting = [], r_allValid = True, r_joined = False\<rparr>"
  let ?m = "m\<lparr>runs := ?r # runs m\<rparr>"
  have a: "ctl_ok ?m" "runs ?m = ?r # runs m" "\<forall>(k, f) \<in> set (asyncValidators u). \<forall>md vw. f md vw"
    using ok u by (simp_all add: ctl_ok_def ctl_of_def promises_def)
  obtain m' m1 where m1: "start_async md vw (asyncValidators u) ?m = Inr m'"
    "reports_to (map (\<lambda>(k, _). (k, VUndefined)) (asyncValidators u)) ?m m1"
    "m' = m1\<lparr>runs := ?r\<lparr>r_waiting := map fst (asyncValidators u)\<rparr> # runs m\<rparr>"
    using start_async_ok [OF a, of md vw] by (elim exE conjE) simp
  have rep: "reports_to (map (\<lambda>(k, _). (k, VUndefined)) (asyncValidators u)) m (m1\<lparr>runs := runs m\<rparr>)"
    using m1(2) by (cases m; cases m1) (simp add: reports_to_def ctl_ok_def ctl_of_def)
  have c: "currentRun m1 = currentRun m"
    using reports_to_fields(7) [OF m1(2)] by simp
  show ?thesis
    using m1(1,3) c by (intro exI [of _ "m1\<lparr>runs := runs m\<rparr>"] conjI rep) (simp add: processAsyncValidators_def validationDone_def)
qed

text \<open>A run as a whole.\<close>

lemma runValidators_ok:
  assumes ok: "ctl_ok m" and u: "promises u"
  shows "\<exists>m1. reports_to (run_reports u (parserValid m) md vw) (m\<lparr>currentRun := Suc (currentRun m)\<rparr>) m1 \<and>
    runValidators u md vw d m =
      Inr (case verdict u (parserValid m) md vw of
             Some b \<Rightarrow> call_done u d md b m1
           | None \<Rightarrow> m1\<lparr>runs := \<lparr>r_id = Suc (currentRun m), r_model = md, r_done = d, r_waiting = map fst (asyncValidators u),
                                  r_allValid = True, r_joined = True\<rparr> # runs m\<rparr>)"
proof -
  let ?m = "m\<lparr>currentRun := Suc (currentRun m)\<rparr>"
  have "ctl_ok ?m" "parserValid ?m = parserValid m"
    using ok by (simp_all add: ctl_ok_def ctl_of_def)
  then obtain m1 where m1: "processParseErrors u ?m = Inr (parserValid m \<noteq> Some False, m1)"
    "reports_to (parse_reports u (parserValid m)) ?m m1"
    using processParseErrors_ok [of ?m u] by auto
  note f1 = reports_to_fields [OF m1(2)]
  show ?thesis
  proof (cases "parserValid m = Some False")
    case True
    with m1 f1 show ?thesis
      by (auto simp: runValidators_def run_reports_def verdict_def validationDone_def Let_def)
  next
    case False
    let ?ks = "map (\<lambda>(k, f). (k, VBool (f md vw))) (validators u)"
    obtain m2 where m2: "processSyncValidators u md vw m1 = Inr (sync_ok u md vw, m2)"
      "reports_to (?ks @ (if sync_ok u md vw then [] else skipped (asyncValidators u))) m1 m2"
      using processSyncValidators_ok [OF f1(10)] by blast
    note f2 = reports_to_fields [OF m2(2)]
    note t2 = reports_to_trans [OF m1(2) m2(2)]
    show ?thesis
    proof (cases "sync_ok u md vw")
      case False
      then have "reports_to (run_reports u (parserValid m) md vw) ?m m2"
        using t2 \<open>parserValid m \<noteq> Some False\<close> by (simp add: run_reports_def sync_reports_def)
      with False m1 m2 f1 f2 \<open>parserValid m \<noteq> Some False\<close> show ?thesis
        by (auto simp: runValidators_def verdict_def validationDone_def Let_def)
    next
      case True
      obtain m3 where m3: "reports_to (map (\<lambda>(k, _). (k, VUndefined)) (asyncValidators u)) m2 m3"
        "processAsyncValidators u d md vw m2 =
          Inr (if asyncValidators u = [] then call_done u d md True m3
               else m3\<lparr>runs := \<lparr>r_id = currentRun m2, r_model = md, r_done = d, r_waiting = map fst (asyncValidators u),
                                r_allValid = True, r_joined = True\<rparr> # runs m2\<rparr>)"
        using processAsyncValidators_ok [OF f2(10) u] by blast
      have "reports_to (run_reports u (parserValid m) md vw) ?m m3"
        using reports_to_trans [OF t2 m3(1)] True False by (simp add: run_reports_def sync_reports_def)
      moreover have "currentRun m2 = Suc (currentRun m)" "runs m2 = runs m"
        using f1(7,8) f2(7,8) by simp_all
      moreover have "runValidators u md vw d m = processAsyncValidators u d md vw m2"
        using m1(1) m2(1) True False by (simp add: runValidators_def Let_def)
      ultimately show ?thesis
        using m3(2) True False by (intro exI [of _ m3]) (simp add: verdict_def)
    qed
  qed
qed

subsection \<open>The invariant\<close>

definition waiting :: "model_ctl \<Rightarrow> jstring set" where
  "waiting m = (\<Union>r \<in> {r \<in> set (runs m). r_id r = currentRun m}. set (r_waiting r))"

definition run_ok :: "input_code \<Rightarrow> nat \<Rightarrow> async_run \<Rightarrow> bool" where
  "run_ok u n r \<longleftrightarrow> r_id r \<le> n \<and> distinct (r_waiting r) \<and> set (r_waiting r) \<subseteq> fst ` set (asyncValidators u)"

definition model_inv :: "input_code \<Rightarrow> model_ctl \<Rightarrow> bool" where
  "model_inv u m \<longleftrightarrow> ctl_ok m \<and> pend_keys (ctl_of m) = waiting m \<and> distinct (map r_id (runs m)) \<and>
     (\<forall>r \<in> set (runs m). run_ok u (currentRun m) r)"

lemma call_done_fields [simp]:
  "controls (call_done u d md b m) = controls m" "self (call_done u d md b m) = self m"
  "currentRun (call_done u d md b m) = currentRun m" "runs (call_done u d md b m) = runs m"
  by (auto simp: call_done_def writeToModelIfNeeded_def writeModelToScope_def split: done_callback.split)

lemma model_inv_cong:
  "controls m' = controls m \<Longrightarrow> self m' = self m \<Longrightarrow> currentRun m' = currentRun m \<Longrightarrow> runs m' = runs m \<Longrightarrow>
   model_inv u m' \<longleftrightarrow> model_inv u m"
  by (simp add: model_inv_def ctl_ok_def ctl_of_def waiting_def)

lemma model_inv_like:
  "model_inv u m \<Longrightarrow> controls m' = controls m \<Longrightarrow> self m' = self m \<Longrightarrow> currentRun m' = currentRun m \<Longrightarrow>
   runs m' = runs m \<Longrightarrow> model_inv u m'"
  by (rule iffD2 [OF model_inv_cong])

lemma model_inv_controls:
  assumes "model_inv u m" "form_inv s" "self m < length s" "c_kind (s ! self m) = c_kind (ctl_of m)"
    "c_null (s ! self m) = c_null (ctl_of m)" "c_pending (s ! self m) = c_pending (ctl_of m)"
  shows "model_inv u (m\<lparr>controls := s\<rparr>)"
  using assms by (simp add: model_inv_def ctl_ok_def ctl_of_def waiting_def pend_keys_def)

lemma same_validity_trans: "same_validity x y \<Longrightarrow> same_validity y z \<Longrightarrow> same_validity x z"
  by (simp add: same_validity_def)

lemma setDirty_same:
  "setDirty n i s = Some s' \<Longrightarrow> length s' = length s \<and> (\<forall>j < length s. same_validity (s' ! j) (s ! j))"
proof (induction n arbitrary: i s)
  case (Suc n)
  define x where "x = (addClass DIRTY_CLASS (removeClass PRISTINE_CLASS (s ! i)))\<lparr>c_dirty := True, c_pristine := False\<rparr>"
  have "same_validity x (s ! i)"
    by (simp add: x_def same_validity_def)
  then have "same_validity (s[i := x] ! j) (s ! j)" if "j < length s" for j
    using that by (cases "j = i") auto
  then have x: "\<forall>j < length s. same_validity (s[i := x] ! j) (s ! j)"
    by blast
  show ?case
  proof (cases "c_null (s ! i) \<or> c_parent (s ! i) = None")
    case True
    with Suc.prems x show ?thesis
      unfolding setDirty.simps Let_def x_def [symmetric] by (auto simp: x_def split: if_splits)
  next
    case False
    then obtain p where "c_parent (s ! i) = Some p" "\<not> c_null (s ! i)"
      by auto
    then have "setDirty n p (s[i := x]) = Some s'"
      using Suc.prems unfolding setDirty.simps Let_def x_def [symmetric] by (simp add: x_def)
    then have "length s' = length (s[i := x]) \<and> (\<forall>j < length (s[i := x]). same_validity (s' ! j) (s[i := x] ! j))"
      by (rule Suc.IH)
    with x show ?thesis
      using same_validity_trans by auto
  qed
qed simp

lemma setDirty_total:
  assumes "\<And>j p. j < length s \<Longrightarrow> c_parent (s ! j) = Some p \<Longrightarrow> p < j"
  shows "i < n \<Longrightarrow> i < length s \<Longrightarrow> \<exists>s'. setDirty n i s = Some s'"
  using assms
proof (induction n arbitrary: i s)
  case (Suc n)
  define x where "x = (addClass DIRTY_CLASS (removeClass PRISTINE_CLASS (s ! i)))\<lparr>c_dirty := True, c_pristine := False\<rparr>"
  have "p < j" if "j < length (s[i := x])" "c_parent (s[i := x] ! j) = Some p" for j p
    using Suc.prems(3) [of j p] that by (cases "j = i") (auto simp: x_def)
  moreover have "p < i" if "c_parent (s ! i) = Some p" for p
    using Suc.prems(2,3) that by blast
  ultimately have "\<exists>s'. setDirty n p (s[i := x]) = Some s'" if "c_parent (s ! i) = Some p" for p
    using Suc.IH [of p "s[i := x]"] Suc.prems(1,2) that by force
  then show ?case
    unfolding setDirty.simps Let_def x_def [symmetric] by (auto simp: x_def split: option.split)
qed simp

lemma pend_keys_run:
  assumes "c_kind ctl = ModelKind" "pend_keys ctl \<subseteq> fst ` set (asyncValidators u)"
  shows "pend_keys (reported i (run_reports u pv md vw) ctl) =
    (if verdict u pv md vw = None then fst ` set (asyncValidators u) else {})"
proof -
  let ?A = "fst ` set (asyncValidators u)" and ?sync = "map (\<lambda>(k, f). (k, VBool (f md vw))) (validators u)"
  have skip: "VUndefined \<notin> snd ` set (skipped vs)" "fst ` set (skipped vs) = fst ` set vs" for vs :: "(jstring \<times> (val \<Rightarrow> val \<Rightarrow> bool)) list"
    by (force simp: skipped_def)+
  have parse: "VUndefined \<notin> snd ` set (parse_reports u pv)"
    using skip by (auto simp: parse_reports_def split: option.split)
  have sync: "VUndefined \<notin> snd ` set ?sync"
    by auto
  show ?thesis
  proof (cases "pv = Some False \<or> \<not> sync_ok u md vw")
    case True
    have "VUndefined \<notin> snd ` set (run_reports u pv md vw)" "?A \<subseteq> fst ` set (run_reports u pv md vw)"
      using True parse sync skip by (auto simp: run_reports_def sync_reports_def parse_reports_def image_Un)
    then show ?thesis
      using assms True by (auto simp: pend_keys_settled verdict_def)
  next
    case False
    define pre where "pre = parse_reports u pv @ ?sync"
    have e: "run_reports u pv md vw = pre @ map (\<lambda>(k, _). (k, VUndefined)) (asyncValidators u)"
      using False by (simp add: run_reports_def sync_reports_def pre_def)
    have "VUndefined \<notin> snd ` set pre"
      using parse sync by (auto simp: pre_def)
    then have "pend_keys (reported i pre ctl) = pend_keys ctl - fst ` set pre"
      by (rule pend_keys_settled [OF assms(1)])
    then have "pend_keys (reported i (run_reports u pv md vw) ctl) = (pend_keys ctl - fst ` set pre) \<union> ?A"
      using assms(1) pend_keys_waiting [of "reported i pre ctl" i "asyncValidators u"] by (simp add: e)
    then show ?thesis
      using assms(2) False by (auto simp: verdict_def)
  qed
qed

lemma runValidators_inv:
  assumes inv: "model_inv u m" and u: "promises u" and r: "runValidators u md vw d m = Inr m'"
  shows "model_inv u m'"
proof -
  let ?m = "m\<lparr>currentRun := Suc (currentRun m)\<rparr>"
  have ok: "ctl_ok m" and runs: "\<forall>r \<in> set (runs m). run_ok u (currentRun m) r" "distinct (map r_id (runs m))"
    using inv by (simp_all add: model_inv_def)
  obtain m1 where m1: "reports_to (run_reports u (parserValid m) md vw) ?m m1"
    "m' = (case verdict u (parserValid m) md vw of
             Some b \<Rightarrow> call_done u d md b m1
           | None \<Rightarrow> m1\<lparr>runs := \<lparr>r_id = Suc (currentRun m), r_model = md, r_done = d, r_waiting = map fst (asyncValidators u),
                                  r_allValid = True, r_joined = True\<rparr> # runs m\<rparr>)"
    using runValidators_ok [OF ok u, of md vw d] r by auto
  note f = reports_to_fields [OF m1(1)]
  have f': "currentRun m1 = Suc (currentRun m)" "runs m1 = runs m" "self m1 = self m"
    using f by simp_all
  have old: "pend_keys (ctl_of m) \<subseteq> fst ` set (asyncValidators u)"
    using inv runs by (auto simp: model_inv_def waiting_def run_ok_def)
  have "ctl_of m1 = reported (self m) (run_reports u (parserValid m) md vw) (ctl_of m)"
    using m1(1) by (simp add: reports_to_def ctl_of_def)
  then have pend: "pend_keys (ctl_of m1) = (if verdict u (parserValid m) md vw = None then fst ` set (asyncValidators u) else {})"
    using pend_keys_run [OF _ old] ok by (simp add: ctl_ok_def)
  have stale: "r_id r \<noteq> Suc (currentRun m)" if "r \<in> set (runs m)" for r
    using runs that by (auto simp: run_ok_def)
  have later: "\<forall>r \<in> set (runs m). run_ok u (Suc (currentRun m)) r"
    using runs by (auto simp: run_ok_def)
  have base: "ctl_ok m'" "ctl_of m' = ctl_of m1" "currentRun m' = Suc (currentRun m)"
    using m1(2) f(10) f'(1) by (cases "verdict u (parserValid m) md vw"; simp add: ctl_ok_def ctl_of_def)+
  show ?thesis
  proof (cases "verdict u (parserValid m) md vw")
    case None
    let ?r = "\<lparr>r_id = Suc (currentRun m), r_model = md, r_done = d, r_waiting = map fst (asyncValidators u),
                r_allValid = True, r_joined = True\<rparr>"
    have rs: "runs m' = ?r # runs m"
      using None m1(2) by simp
    have "{r \<in> set (runs m'). r_id r = currentRun m'} = {?r}"
      unfolding rs base(3) using stale by (auto simp del: not_None_eq)
    then have "waiting m' = fst ` set (asyncValidators u)"
      by (simp add: waiting_def)
    moreover have "run_ok u (Suc (currentRun m)) ?r"
      using u by (simp add: run_ok_def promises_def)
    moreover have "Suc (currentRun m) \<notin> r_id ` set (runs m)"
    proof
      assume "Suc (currentRun m) \<in> r_id ` set (runs m)"
      then obtain r where "r \<in> set (runs m)" "r_id r = Suc (currentRun m)"
        by (auto simp: image_iff)
      with stale show False
        by simp
    qed
    then have "distinct (map r_id (?r # runs m))"
      using runs(2) by simp
    ultimately show ?thesis
      using None base pend later unfolding model_inv_def rs by simp
  next
    case (Some b)
    then have rs: "runs m' = runs m"
      using m1(2) f'(2) by simp
    have "{r \<in> set (runs m'). r_id r = currentRun m'} = {}"
      unfolding rs base(3) using stale by blast
    then have "waiting m' = {}"
      unfolding waiting_def by (simp only: UN_empty)
    then show ?thesis
      using Some base pend runs(2) later unfolding model_inv_def rs by simp
  qed
qed

subsection \<open>Every operation keeps it\<close>

lemma updateEmptyClasses_inv: "model_inv u m \<Longrightarrow> model_inv u (updateEmptyClasses v m)"
proof -
  assume inv: "model_inv u m"
  define x where "x = (if isEmpty v then addClass EMPTY_CLASS (removeClass NOT_EMPTY_CLASS (controls m ! self m))
          else addClass NOT_EMPTY_CLASS (removeClass EMPTY_CLASS (controls m ! self m)))"
  have x: "same_validity x (controls m ! self m)"
    by (simp add: x_def same_validity_def)
  have "form_inv (controls m)" "self m < length (controls m)"
    using inv by (simp_all add: model_inv_def ctl_ok_def)
  with x have "form_inv ((controls m)[self m := x])" "(controls m)[self m := x] ! self m = x"
    by (simp_all add: form_inv_def inv_update_same)
  with inv x \<open>self m < length (controls m)\<close> show ?thesis
    unfolding updateEmptyClasses_def x_def [symmetric]
    by (intro model_inv_controls) (simp_all add: same_validity_def ctl_of_def)
qed

lemma setDirty_model_inv:
  assumes "model_inv u m" "setDirty n (self m) (controls m) = Some s"
  shows "model_inv u (m\<lparr>controls := s\<rparr>)"
proof (rule model_inv_controls [OF assms(1)])
  have "self m < length (controls m)"
    using assms(1) by (simp add: model_inv_def ctl_ok_def)
  with setDirty_same [OF assms(2)] show "self m < length s" "c_kind (s ! self m) = c_kind (ctl_of m)"
    "c_null (s ! self m) = c_null (ctl_of m)" "c_pending (s ! self m) = c_pending (ctl_of m)"
    by (simp_all add: same_validity_def ctl_of_def)
  show "form_inv s"
    using assms by (auto simp: form_inv_def model_inv_def ctl_ok_def intro: setDirty_inv)
qed

lemma validate_inv: "model_inv u m \<Longrightarrow> promises u \<Longrightarrow> validate u m = Inr m' \<Longrightarrow> model_inv u m'"
  by (auto simp: validate_def runValidators_inv split: if_splits)

lemma parseAndValidate_inv:
  assumes "model_inv u m" "promises u" "parseAndValidate u m = Inr m'"
  shows "model_inv u m'"
proof -
  obtain m1 md vw d where m1: "runValidators u md vw d m1 = Inr m'" "controls m1 = controls m" "self m1 = self m"
    "currentRun m1 = currentRun m" "runs m1 = runs m"
    using assms(3) by (simp add: parseAndValidate_def Let_def writeToModelIfNeeded_def writeModelToScope_def split: if_splits)
  have "model_inv u m1"
    by (rule model_inv_like [OF assms(1) m1(2-5)])
  then show ?thesis
    using assms(2) m1(1) by (rule runValidators_inv)
qed

lemma commitViewValue_inv:
  assumes inv: "model_inv u m" and u: "promises u" and r: "commitViewValue u m = Inr m'"
  shows "model_inv u m'"
proof (cases "strict_eq (lastCommitted m) (viewValue m) \<and> (viewValue m \<noteq> Str [] \<or> \<not> hasNativeValidators u)")
  case True
  then have "m' = m\<lparr>debounced := False\<rparr>"
    using r by (simp add: commitViewValue_def)
  then show ?thesis
    by (intro model_inv_like [OF inv]) simp_all
next
  case False
  define m1 where "m1 = (updateEmptyClasses (viewValue m) (m\<lparr>debounced := False\<rparr>))\<lparr>lastCommitted := viewValue m\<rparr>"
  have "model_inv u (m\<lparr>debounced := False\<rparr>)"
    by (rule model_inv_like [OF inv]) simp_all
  then have m1: "model_inv u m1"
    unfolding m1_def by (rule model_inv_like [OF updateEmptyClasses_inv]) simp_all
  have "(strict_eq (lastCommitted m) (viewValue m) \<and> (viewValue m \<noteq> Str [] \<or> \<not> hasNativeValidators u)) = False"
    using False by blast
  with r have r': "commit_changed u m1 = Inr m'"
    by (simp only: commitViewValue_def if_False m1_def)
  show ?thesis
  proof (cases "c_pristine (controls m1 ! self m1)")
    case True
    then obtain s where "setDirty (Suc (length (controls m1))) (self m1) (controls m1) = Some s"
      "parseAndValidate u (m1\<lparr>controls := s\<rparr>) = Inr m'"
      using r' by (auto simp: commit_changed_def split: option.splits)
    then show ?thesis
      using parseAndValidate_inv [OF setDirty_model_inv [OF m1] u] by blast
  next
    case False
    then show ?thesis
      using r' parseAndValidate_inv [OF m1 u] by (simp add: commit_changed_def)
  qed
qed

lemma setViewValue_inv:
  assumes "model_inv u m" "promises u" "setViewValue u v trigger m = Inr m'"
  shows "model_inv u m'"
proof -
  have inv: "model_inv u (m\<lparr>viewValue := v\<rparr>)" "model_inv u (m\<lparr>viewValue := v, debounced := b\<rparr>)" for b
    by (rule model_inv_like [OF assms(1)]; simp)+
  show ?thesis
    using assms(3) inv commitViewValue_inv [OF inv(2) assms(2)]
    by (auto simp: setViewValue_def debounceViewValueCommit_def Let_def split: if_splits)
qed

lemma processModelValue_inv:
  assumes inv: "model_inv u m" and u: "promises u" and r: "processModelValue u m = Inr m'"
  shows "model_inv u m'"
proof (cases "strict_eq (viewValue m) (format_value u (modelValue m))")
  case True
  with r inv show ?thesis
    by (simp add: processModelValue_def Let_def)
next
  case False
  define m1 where "m1 = (updateEmptyClasses (format_value u (modelValue m)) m)\<lparr>viewValue := format_value u (modelValue m),
    lastCommitted := format_value u (modelValue m)\<rparr>"
  have "model_inv u m1"
    unfolding m1_def by (rule model_inv_like [OF updateEmptyClasses_inv [OF inv]]) simp_all
  moreover have "runValidators u (modelValue m1) (viewValue m1) NoCallback m1 = Inr m'"
    using r False unfolding processModelValue_def Let_def m1_def by simp
  ultimately show ?thesis
    using u runValidators_inv by blast
qed

lemma ngModelWatch_inv:
  assumes "model_inv u m" "promises u" "ngModelWatch u m = Inr m'"
  shows "model_inv u m'"
proof -
  have "model_inv u (m\<lparr>modelValue := scopeValue m, rawModelValue := scopeValue m, parserValid := None\<rparr>)"
    by (rule model_inv_like [OF assms(1)]) simp_all
  then show ?thesis
    using assms processModelValue_inv by (auto simp: ngModelWatch_def setModelValue_def Let_def split: if_splits)
qed

lemma asyncAnswer_inv:
  assumes inv: "model_inv u m" and r: "r \<in> set (runs m)" and a: "asyncAnswer r k ok m = Inr m'"
  shows "model_inv u m'"
proof -
  let ?r = "r\<lparr>r_waiting := remove1 k (r_waiting r), r_allValid := (r_allValid r \<and> ok)\<rparr>"
  let ?rs = "map (\<lambda>q. if r_id q = r_id r then ?r else q) (runs m)"
  define m1 where "m1 = m\<lparr>runs := ?rs\<rparr>"
  have ok: "ctl_ok m" "distinct (map r_id (runs m))" "\<forall>q \<in> set (runs m). run_ok u (currentRun m) q" "pend_keys (ctl_of m) = waiting m"
    using inv by (simp_all add: model_inv_def)
  have only: "q = r" if "q \<in> set (runs m)" "r_id q = r_id r" for q
    using ok(2) r that by (auto simp: distinct_map dest: inj_onD)
  have ids: "map r_id ?rs = map r_id (runs m)"
    by (simp add: comp_def)
  have rs1: "runs m1 = ?rs"
    by (simp add: m1_def)
  have dist: "distinct (map r_id (runs m1))"
    unfolding rs1 ids by (rule ok(2))
  have rok: "run_ok u (currentRun m) ?r"
    using ok(3) r by (auto simp: run_ok_def dest: notin_set_remove1)
  then have rs_ok: "\<forall>q \<in> set (runs m1). run_ok u (currentRun m1) q"
    using ok(3) by (auto simp: m1_def)
  have ctl1: "ctl_ok m1" "ctl_of m1 = ctl_of m"
    using ok(1) by (simp_all add: m1_def ctl_ok_def ctl_of_def)
  show ?thesis
  proof (cases "r_id r = currentRun m")
    case True
    obtain m2 where m2: "report_key k (VBool ok) m1 = Inr m2" "reports_to [(k, VBool ok)] m1 m2"
      using report_ok [OF ctl1(1)] by blast
    then have e: "m' = m2"
      using a True by (simp add: asyncAnswer_def m1_def)
    note f = reports_to_fields [OF m2(2)]
    have "{q \<in> set (runs m). r_id q = r_id r} = {r}"
      using r only by blast
    then have "waiting m = set (r_waiting r)"
      by (simp add: waiting_def True)
    moreover have "{q \<in> set ?rs. r_id q = r_id r} = {?r}"
      using r by (auto split: if_splits intro!: rev_image_eqI [OF r])
    then have "waiting m2 = set (remove1 k (r_waiting r))"
      using f(7,8) True by (simp add: waiting_def m1_def)
    moreover have "set (remove1 k (r_waiting r)) = set (r_waiting r) - {k}"
      using ok(3) r by (intro set_remove1_eq) (auto simp: run_ok_def)
    moreover have "pend_keys (ctl_of m2) = pend_keys (ctl_of m) - {k}"
      using m2(2) ctl1 ok(1) by (simp add: reports_to_def pend_keys_update ctl_ok_def)
    ultimately have "pend_keys (ctl_of m2) = waiting m2"
      using ok(4) by simp
    then show ?thesis
      using e f(7,8,10) dist rs_ok by (simp only: model_inv_def)
  next
    case False
    then have "m' = m1"
      using a by (simp add: asyncAnswer_def m1_def)
    moreover have "waiting m1 = waiting m"
      using False by (force simp: waiting_def m1_def)
    ultimately show ?thesis
      using ctl1 ok(4) dist rs_ok by (simp only: model_inv_def)
  qed
qed

lemma asyncDone_inv:
  assumes inv: "model_inv u m" and r: "r \<in> set (runs m)" "r_waiting r = []"
  shows "model_inv u (asyncDone u r m)"
proof -
  let ?m = "m\<lparr>runs := filter (\<lambda>q. r_id q \<noteq> r_id r) (runs m)\<rparr>"
  have ok: "distinct (map r_id (runs m))"
    using inv by (simp add: model_inv_def)
  have only: "q = r" if "q \<in> set (runs m)" "r_id q = r_id r" for q
    using ok r that by (auto simp: distinct_map dest: inj_onD)
  then have "waiting ?m = waiting m"
    using r(2) by (force simp: waiting_def)
  then have "model_inv u ?m"
    using inv distinct_map_filter [OF ok] by (simp add: model_inv_def ctl_ok_def ctl_of_def)
  moreover have "model_inv u (asyncDone u r m) \<longleftrightarrow> model_inv u ?m"
    by (rule model_inv_cong) (simp_all add: asyncDone_def validationDone_def)
  ultimately show ?thesis
    by simp
qed

subsection \<open>Sessions with an input\<close>

text \<open>
  What can happen to an input: the user types or the element reports an event, a form or a timer commits,
  the page validates, rolls back, writes its model or runs a digest, a promise of any run is answered or
  found complete, and other controls of the page change.
\<close>

inductive model_step :: "input_code \<Rightarrow> model_ctl \<Rightarrow> model_ctl \<Rightarrow> bool" for u where
  input: "setViewValue u v trigger m = Inr m' \<Longrightarrow> model_step u m m'"
| event: "debounceViewValueCommit u trigger m = Inr m' \<Longrightarrow> model_step u m m'"
| commit: "commitViewValue u m = Inr m' \<Longrightarrow> model_step u m m'"
| rollback: "model_step u m (rollbackViewValue m)"
| validate: "validate u m = Inr m' \<Longrightarrow> model_step u m m'"
| process: "processModelValue u m = Inr m' \<Longrightarrow> model_step u m m'"
| digest: "ngModelWatch u m = Inr m' \<Longrightarrow> model_step u m m'"
| assign: "model_step u m (m\<lparr>scopeValue := v\<rparr>)"
| answer: "r \<in> set (runs m) \<Longrightarrow> k \<in> set (r_waiting r) \<Longrightarrow> asyncAnswer r k ok m = Inr m' \<Longrightarrow> model_step u m m'"
| complete: "r \<in> set (runs m) \<Longrightarrow> r_waiting r = [] \<Longrightarrow> r_joined r \<Longrightarrow> model_step u m (asyncDone u r m)"
| elsewhere: "forms_step (controls m) s \<Longrightarrow> self m < length s \<Longrightarrow> c_kind (s ! self m) = c_kind (ctl_of m) \<Longrightarrow>
    c_null (s ! self m) = c_null (ctl_of m) \<Longrightarrow> c_pending (s ! self m) = c_pending (ctl_of m) \<Longrightarrow>
    model_step u m (m\<lparr>controls := s\<rparr>)"

inductive model_run :: "input_code \<Rightarrow> model_ctl \<Rightarrow> bool" for u where
  start: "forms_run s \<Longrightarrow> i < length s \<Longrightarrow> c_kind (s ! i) = ModelKind \<Longrightarrow> \<not> c_null (s ! i) \<Longrightarrow> c_pending (s ! i) = None \<Longrightarrow>
    model_run u (new_model_ctl s i v)"
| step: "model_run u m \<Longrightarrow> model_step u m m' \<Longrightarrow> model_run u m'"

lemma debounce_inv:
  assumes "model_inv u m" "promises u" "debounceViewValueCommit u trigger m = Inr m'"
  shows "model_inv u m'"
proof -
  have inv: "model_inv u (m\<lparr>debounced := b\<rparr>)" for b
    by (rule model_inv_like [OF assms(1)]; simp)+
  show ?thesis
    using assms(3) inv commitViewValue_inv [OF inv assms(2)]
    by (auto simp: debounceViewValueCommit_def Let_def split: if_splits)
qed

lemma model_step_inv:
  assumes "model_step u m m'" "model_inv u m" "promises u"
  shows "model_inv u m'"
  using assms(1)
proof cases
  case (elsewhere s)
  have "form_inv s"
    using forms_step_inv [OF elsewhere(2)] assms(2) by (simp add: model_inv_def ctl_ok_def)
  then show ?thesis
    using elsewhere assms(2) by (simp add: model_inv_controls)
next
  case rollback
  then show ?thesis
    using model_inv_like [OF assms(2), of m'] by (simp add: rollbackViewValue_def)
next
  case (assign v)
  then show ?thesis
    using model_inv_like [OF assms(2), of m'] by simp
next
  case (answer r k ok)
  then show ?thesis
    using asyncAnswer_inv [OF assms(2)] by blast
next
  case (complete r)
  then show ?thesis
    using asyncDone_inv [OF assms(2)] by blast
qed (erule setViewValue_inv [OF assms(2,3)] debounce_inv [OF assms(2,3)] commitViewValue_inv [OF assms(2,3)]
    validate_inv [OF assms(2,3)] processModelValue_inv [OF assms(2,3)] ngModelWatch_inv [OF assms(2,3)])+

lemma model_run_inv: "model_run u m \<Longrightarrow> promises u \<Longrightarrow> model_inv u m"
proof (induction rule: model_run.induct)
  case (start s i v)
  then show ?case
    using forms_run_inv [OF start(1)]
    by (simp add: model_inv_def ctl_ok_def ctl_of_def new_model_ctl_def pend_keys_def waiting_def)
next
  case (step m m')
  then show ?case
    using model_step_inv by blast
qed

text \<open>
  C32. Whatever the user, the page and the promises do and in whatever order, an input is pending just
  when its latest validation run still waits for an answer; and an answer to an earlier run, or the
  completion of one, changes neither a control of the page nor the model.
\<close>

theorem pending_until_answered:
  assumes "model_run u m" "promises u"
  shows "(c_pending (ctl_of m) \<noteq> None \<longleftrightarrow> (\<exists>r \<in> set (runs m). r_id r = currentRun m \<and> r_waiting r \<noteq> [])) \<and>
    (\<forall>r \<in> set (runs m). r_id r \<noteq> currentRun m \<longrightarrow>
       (\<forall>k ok. \<exists>m'. asyncAnswer r k ok m = Inr m' \<and> controls m' = controls m \<and> modelValue m' = modelValue m \<and> scopeValue m' = scopeValue m) \<and>
       controls (asyncDone u r m) = controls m \<and> modelValue (asyncDone u r m) = modelValue m \<and>
       scopeValue (asyncDone u r m) = scopeValue m)"
proof -
  have inv: "model_inv u m"
    using assms by (rule model_run_inv)
  then have "valid_ok (ctl_of m)"
    by (auto simp: model_inv_def ctl_ok_def ctl_of_def form_inv_def inv_except_def control_ok_def)
  then have "c_pending (ctl_of m) \<noteq> None \<longleftrightarrow> waiting m \<noteq> {}"
    using inv pending_iff_keys by (simp add: model_inv_def)
  also have "\<dots> \<longleftrightarrow> (\<exists>r \<in> set (runs m). r_id r = currentRun m \<and> r_waiting r \<noteq> [])"
    by (auto simp: waiting_def)
  finally show ?thesis
    by (auto simp: asyncAnswer_def asyncDone_def validationDone_def Let_def)
qed

subsection \<open>A committed value\<close>

lemma run_reports_keys:
  assumes "distinct (map fst (validators u))" "errorKey u \<notin> fst ` set (validators u)" "asyncValidators u = []"
  shows "distinct (map fst (run_reports u pv md vw))"
proof -
  have "map fst (run_reports u pv md vw) =
    (if pv = Some False then map fst (validators u) @ [errorKey u] else errorKey u # map fst (validators u))"
    using assms(3)
    by (cases pv) (simp_all add: run_reports_def parse_reports_def sync_reports_def skipped_def case_prod_unfold comp_def)
  with assms(1,2) show ?thesis
    by simp
qed

lemma reported_own:
  assumes "c_kind ctl = ModelKind" "distinct (map fst ks)" "(k, st) \<in> set ks"
  shows "combined k (reported i ks ctl) = st"
proof -
  have "map_of (rev ks) k = Some st"
    using assms(2,3) by (intro map_of_is_SomeI) (simp_all add: rev_map [symmetric])
  then show ?thesis
    using combined_reported [OF assms(1)] by simp
qed

definition parsed_value :: "input_code \<Rightarrow> val \<Rightarrow> val" where
  "parsed_value u v = (if v = Undef then Undef else run_parsers (parsers u) v)"

lemma parseAndValidate_ok:
  assumes ok: "ctl_ok m" and u: "promises u" "asyncValidators u = []" "\<not> allowInvalid u"
    and keys: "distinct (map fst (validators u))" "errorKey u \<notin> fst ` set (validators u)"
    and v: "v = lastCommitted m" and md: "md = parsed_value u v" and parsed: "parsed \<longleftrightarrow> v = Undef \<or> md \<noteq> Undef"
  shows "\<exists>m'. parseAndValidate u m = Inr m' \<and> modelValue m' = (if parsed \<and> sync_ok u md v then md else Undef) \<and>
    combined (errorKey u) (ctl_of m') = (if v = Undef then VNull else VBool parsed) \<and>
    (\<forall>(k, f) \<in> set (validators u). combined k (ctl_of m') = (if parsed then VBool (f md v) else VNull)) \<and>
    scopeValue m' = (if strict_eq (modelValue m') (if modelValue m = Num NaN then scopeValue m else modelValue m)
      then scopeValue m else fold (\<lambda>f v. f v) (viewChangeListeners u) (modelValue m'))"
proof -
  define prev where "prev = (if modelValue m = Num NaN then scopeValue m else modelValue m)"
  define pv where "pv = (if v = Undef then None else Some (md \<noteq> Undef))"
  define m0 where "m0 = m\<lparr>parserValid := pv, modelValue := prev, rawModelValue := md\<rparr>"
  have ok0: "ctl_ok m0" "ctl_of m0 = ctl_of m" "parserValid m0 = pv" "scopeValue m0 = scopeValue m"
    using ok by (simp_all add: m0_def ctl_ok_def ctl_of_def)
  have run: "parseAndValidate u m = runValidators u md v (AfterParse prev) m0"
    using u(3) by (cases "modelValue m = Num NaN")
      (simp_all add: parseAndValidate_def Let_def m0_def prev_def pv_def v md parsed_value_def)
  obtain m1 where m1: "reports_to (run_reports u pv md v) (m0\<lparr>currentRun := Suc (currentRun m0)\<rparr>) m1"
    "runValidators u md v (AfterParse prev) m0 =
      Inr (case verdict u pv md v of
             Some b \<Rightarrow> call_done u (AfterParse prev) md b m1
           | None \<Rightarrow> m1\<lparr>runs := \<lparr>r_id = Suc (currentRun m0), r_model = md, r_done = AfterParse prev,
               r_waiting = map fst (asyncValidators u), r_allValid = True, r_joined = True\<rparr> # runs m0\<rparr>)"
    using runValidators_ok [OF ok0(1) u(1), of md v "AfterParse prev"] ok0(3) by auto
  define b where "b \<longleftrightarrow> parsed \<and> sync_ok u md v"
  have verd: "verdict u pv md v = Some b"
    using u(2) by (auto simp: verdict_def b_def parsed pv_def)
  let ?m' = "call_done u (AfterParse prev) md b m1"
  have ctl: "ctl_of ?m' = reported (self m0) (run_reports u pv md v) (ctl_of m)"
    using m1(1) ok0(2) by (simp add: reports_to_def ctl_of_def)
  have own: "combined k (ctl_of ?m') = st" if "(k, st) \<in> set (run_reports u pv md v)" for k st
    unfolding ctl using ok that by (intro reported_own run_reports_keys keys u(2)) (simp add: ctl_ok_def)
  have "(errorKey u, if v = Undef then VNull else VBool parsed) \<in> set (run_reports u pv md v)"
    by (auto simp: run_reports_def parse_reports_def pv_def parsed)
  moreover have "(k, if parsed then VBool (f md v) else VNull) \<in> set (run_reports u pv md v)" if "(k, f) \<in> set (validators u)" for k f
    using that by (force simp: run_reports_def parse_reports_def sync_reports_def pv_def parsed skipped_def)
  moreover have "scopeValue m1 = scopeValue m" "modelValue m1 = prev"
    using reports_to_fields(3,9) [OF m1(1)] by (simp_all add: m0_def)
  ultimately show ?thesis
    using run m1(2) verd own u(3)
    by (auto simp: call_done_def writeToModelIfNeeded_def writeModelToScope_def b_def prev_def [symmetric])
qed

text \<open>
  C33. When the view value has changed, the validators are synchronous and invalid values are not allowed,
  a commit ends without an exception. The model is then what the parsers make of the view value, if no
  parser fails and every validator accepts it, and \<open>undefined\<close> otherwise; each validator's key holds its
  verdict, or is skipped after a parse error; and the scope gets the model just when it differs from the
  one before.
\<close>

theorem commit_validates:
  assumes "model_run u m" "promises u" "asyncValidators u = []" "\<not> allowInvalid u"
    and "distinct (map fst (validators u))" "errorKey u \<notin> fst ` set (validators u)"
    and "\<not> strict_eq (lastCommitted m) (viewValue m)" "v = viewValue m" "md = parsed_value u v"
    and "parsed \<longleftrightarrow> v = Undef \<or> md \<noteq> Undef"
  shows "\<exists>m'. commitViewValue u m = Inr m' \<and> modelValue m' = (if parsed \<and> sync_ok u md v then md else Undef) \<and>
    combined (errorKey u) (ctl_of m') = (if v = Undef then VNull else VBool parsed) \<and>
    (\<forall>(k, f) \<in> set (validators u). combined k (ctl_of m') = (if parsed then VBool (f md v) else VNull)) \<and>
    scopeValue m' = (if strict_eq (modelValue m') (if modelValue m = Num NaN then scopeValue m else modelValue m)
      then scopeValue m else fold (\<lambda>f v. f v) (viewChangeListeners u) (modelValue m'))"
proof -
  define m1 where "m1 = (updateEmptyClasses (viewValue m) (m\<lparr>debounced := False\<rparr>))\<lparr>lastCommitted := viewValue m\<rparr>"
  have "model_inv u (m\<lparr>debounced := False\<rparr>)"
    by (rule model_inv_like [OF model_run_inv [OF assms(1,2)]]) simp_all
  then have inv1: "model_inv u m1"
    unfolding m1_def by (rule model_inv_like [OF updateEmptyClasses_inv]) simp_all
  have f1: "lastCommitted m1 = v" "modelValue m1 = modelValue m" "scopeValue m1 = scopeValue m"
    by (simp_all add: m1_def updateEmptyClasses_def assms(8))
  obtain s where s: "commit_changed u m1 = parseAndValidate u (m1\<lparr>controls := s\<rparr>)" "model_inv u (m1\<lparr>controls := s\<rparr>)"
  proof (cases "c_pristine (controls m1 ! self m1)")
    case True
    have "p < j" if "j < length (controls m1)" "c_parent (controls m1 ! j) = Some p" for j p
      using inv1 that by (auto simp: model_inv_def ctl_ok_def form_inv_def inv_except_def control_ok_def)
    then obtain s where "setDirty (Suc (length (controls m1))) (self m1) (controls m1) = Some s"
      using setDirty_total [of "controls m1" "self m1" "Suc (length (controls m1))"] inv1
      by (auto simp: model_inv_def ctl_ok_def)
    with True that [of s] setDirty_model_inv [OF inv1] show ?thesis
      by (simp add: commit_changed_def)
  next
    case False
    with that [of "controls m1"] inv1 show ?thesis
      by (simp add: commit_changed_def)
  qed
  define m2 where "m2 = m1\<lparr>controls := s\<rparr>"
  have e: "commitViewValue u m = parseAndValidate u m2"
    using assms(7) s(1) by (simp add: commitViewValue_def m1_def m2_def)
  have ok2: "ctl_ok m2"
    using s(2) by (simp add: model_inv_def m2_def)
  have f2: "v = lastCommitted m2" "modelValue m = modelValue m2" "scopeValue m = scopeValue m2"
    using f1 by (simp_all add: m2_def)
  show ?thesis
    unfolding e f2(2,3) by (rule parseAndValidate_ok [OF ok2 assms(2-6) f2(1) assms(9,10)])
qed

subsection \<open>An input for a user name\<close>

definition demo_user :: input_code where
  "demo_user = \<lparr>parsers = [], formatters = [], validators = [(J ''required'', \<lambda>m v. v \<noteq> Str [])],
     asyncValidators = [(J ''unique'', \<lambda>m v. True)], viewChangeListeners = [], parserName = [], hasNativeValidators = False,
     allowInvalid = False, updateOnDefault = True, debounce = Inl (Fin 0)\<rparr>"

definition demo_sync :: input_code where
  "demo_sync = demo_user\<lparr>asyncValidators := [], updateOnDefault := False\<rparr>"

definition demo_input :: model_ctl where
  "demo_input = new_model_ctl demo_forms 1 (Str (J ''a''))"

lemma demo_input_run: "model_run u demo_input"
  unfolding demo_input_def
  by (rule model_run.start [OF demo_forms_run]; code_simp)

lemma run_starts:
  assumes "model_inv u m" "promises u" "verdict u (parserValid m) md vw = None"
  shows "\<exists>m' r. runValidators u md vw d m = Inr m' \<and> runs m' = r # runs m \<and> r_id r = currentRun m' \<and> r_waiting r \<noteq> [] \<and>
    currentRun m' = Suc (currentRun m) \<and> modelValue m' = modelValue m \<and> rawModelValue m' = rawModelValue m \<and>
    parserValid m' = parserValid m \<and> lastCommitted m' = lastCommitted m"
proof -
  have "asyncValidators u \<noteq> []"
    using assms(3) by (auto simp: verdict_def split: if_splits)
  moreover obtain m1 where m1: "reports_to (run_reports u (parserValid m) md vw) (m\<lparr>currentRun := Suc (currentRun m)\<rparr>) m1"
    "runValidators u md vw d m = Inr (m1\<lparr>runs := \<lparr>r_id = Suc (currentRun m), r_model = md, r_done = d,
       r_waiting = map fst (asyncValidators u), r_allValid = True, r_joined = True\<rparr> # runs m\<rparr>)"
    using runValidators_ok [of m u md vw d] assms by (auto simp: model_inv_def)
  ultimately show ?thesis
    using reports_to_fields [OF m1(1)] by simp
qed

text \<open>A digest passes the model to the view, and the page validates again before the answer is there.\<close>

lemma demo_two_runs:
  "\<exists>m q r. model_run demo_user m \<and> runs m = [q, r] \<and> r_id q = currentRun m \<and> r_waiting q \<noteq> [] \<and> r_id r \<noteq> currentRun m"
proof -
  have u: "promises demo_user" "sync_ok demo_user (Str (J ''a'')) (Str (J ''a''))" "asyncValidators demo_user \<noteq> []" "formatters demo_user = []"
    by (simp_all add: promises_def demo_user_def sync_ok_def)
  define m0 where "m0 = demo_input\<lparr>modelValue := Str (J ''a''), rawModelValue := Str (J ''a''), parserValid := None\<rparr>"
  define m1 where "m1 = (updateEmptyClasses (Str (J ''a'')) m0)\<lparr>viewValue := Str (J ''a''), lastCommitted := Str (J ''a'')\<rparr>"
  have fields: "runs m1 = []" "currentRun m1 = 0" "modelValue m1 = Str (J ''a'')" "rawModelValue m1 = Str (J ''a'')"
    "lastCommitted m1 = Str (J ''a'')" "parserValid m1 = None" "viewValue m1 = Str (J ''a'')"
    by (simp_all add: m1_def m0_def updateEmptyClasses_def demo_input_def new_model_ctl_def)
  have "model_inv demo_user m0"
    by (rule model_inv_like [OF model_run_inv [OF demo_input_run u(1)]]) (simp_all add: m0_def)
  then have inv1: "model_inv demo_user m1"
    unfolding m1_def by (rule model_inv_like [OF updateEmptyClasses_inv]) simp_all
  have verd: "verdict demo_user None (Str (J ''a'')) (Str (J ''a'')) = None"
    using u(2,3) by (simp add: verdict_def)
  obtain m2 r where m2: "runValidators demo_user (Str (J ''a'')) (Str (J ''a'')) NoCallback m1 = Inr m2" "runs m2 = [r]" "r_id r = currentRun m2"
    "currentRun m2 = 1" "modelValue m2 = Str (J ''a'')" "rawModelValue m2 = Str (J ''a'')" "parserValid m2 = None"
    "lastCommitted m2 = Str (J ''a'')"
    using run_starts [OF inv1 u(1), of "Str (J ''a'')" "Str (J ''a'')" NoCallback] fields verd by auto
  have "ngModelWatch demo_user demo_input = Inr m2"
    using m2(1) fields(3,7) u(4) by (simp add: ngModelWatch_def setModelValue_def processModelValue_def format_value_def Let_def
        m1_def m0_def demo_input_def new_model_ctl_def)
  then have run2: "model_run demo_user m2"
    by (rule model_run.step [OF demo_input_run model_step.digest])
  obtain m3 q where m3: "validate demo_user m2 = Inr m3" "runs m3 = [q, r]" "r_id q = currentRun m3" "r_waiting q \<noteq> []" "currentRun m3 = 2"
    using run_starts [OF model_run_inv [OF run2 u(1)] u(1), of "Str (J ''a'')" "Str (J ''a'')"
        "AfterValidate (c_valid (controls m2 ! self m2)) (Str (J ''a''))"] m2 verd
    by (auto simp: validate_def)
  have "model_run demo_user m3"
    by (rule model_run.step [OF run2 model_step.validate [OF m3(1)]])
  with m3 m2(3,4) show ?thesis
    by (intro exI [of _ m3] exI [of _ q] exI [of _ r]) simp
qed

theorem pending_until_answered_witness:
  "\<exists>m r. model_run demo_user m \<and> c_pending (ctl_of m) \<noteq> None \<and> r \<in> set (runs m) \<and>
     (\<exists>m'. asyncAnswer r (J ''unique'') False m = Inr m' \<and> controls m' = controls m)"
proof -
  obtain m q r where m: "model_run demo_user m" "runs m = [q, r]" "r_id q = currentRun m" "r_waiting q \<noteq> []" "r_id r \<noteq> currentRun m"
    using demo_two_runs by blast
  have "promises demo_user"
    by (simp add: promises_def demo_user_def)
  from pending_until_answered [OF m(1) this] m show ?thesis
    by (intro exI [of _ m] exI [of _ r]) auto
qed

theorem commit_validates_witness:
  "\<exists>m'. commitViewValue demo_sync (demo_input\<lparr>viewValue := Str (J ''b'')\<rparr>) = Inr m' \<and> modelValue m' = Str (J ''b'') \<and>
     combined (J ''required'') (ctl_of m') = VBool True \<and> scopeValue m' = Str (J ''b'')"
  (is "\<exists>m'. commitViewValue _ ?m = _ \<and> _")
proof -
  have "setViewValue demo_sync (Str (J ''b'')) [] demo_input = Inr ?m"
    by (simp add: setViewValue_def demo_sync_def)
  then have run: "model_run demo_sync ?m"
    by (rule model_run.step [OF demo_input_run model_step.input])
  have u: "promises demo_sync" "asyncValidators demo_sync = []" "\<not> allowInvalid demo_sync" "viewChangeListeners demo_sync = []"
    "distinct (map fst (validators demo_sync))" "errorKey demo_sync \<notin> fst ` set (validators demo_sync)"
    "(J ''required'', \<lambda>m v. v \<noteq> Str []) \<in> set (validators demo_sync)"
    "sync_ok demo_sync (Str (J ''b'')) (Str (J ''b''))" "Str (J ''b'') = parsed_value demo_sync (Str (J ''b''))"
    by (simp_all add: promises_def demo_sync_def demo_user_def errorKey_def parsed_value_def sync_ok_def)
  have v: "\<not> strict_eq (lastCommitted ?m) (viewValue ?m)" "Str (J ''b'') = viewValue ?m" "modelValue ?m = Num NaN" "scopeValue ?m = Str (J ''a'')"
    by (simp_all add: demo_input_def new_model_ctl_def)
  have "True \<longleftrightarrow> Str (J ''b'') = Undef \<or> Str (J ''b'') \<noteq> Undef"
    by simp
  from commit_validates [OF run u(1-3,5,6) v(1,2) u(9) this] show ?thesis
    using u(4,7,8) v(3,4) by fastforce
qed

end
