(* ===== verification/NgRepeat.thy ===== *)
theory NgRepeat
  imports Prelude "HOL-Library.AList" "HOL-Library.Multiset"
begin

section \<open>Repeated blocks (ngRepeat)\<close>

text \<open>
  The link function of \<open>ngRepeat\<close>: the blocks of the last run, keyed by what the items are tracked by,
  and the nodes of the parent element. Nodes and scopes are numbers; the tracking function (\<open>hashKey\<close>
  or the \<open>track by\<close> expression) is a parameter, and so is which blocks are removed with an animation.
  Blocks are changed by the repeater only, and an array gives its indices as keys.
\<close>

subsection \<open>State\<close>

datatype rkey = Index nat | Name jstring

datatype 'v collection = Items "'v list" | Entries "(jstring \<times> 'v) list"

record 'v locals =
  l_value :: 'v
  l_key :: rkey
  l_index :: nat
  l_first :: bool
  l_last :: bool
  l_middle :: bool
  l_even :: bool
  l_odd :: bool

record block =
  b_id :: jstring
  b_scope :: nat
  b_clone :: "nat list"

record 'v repeater =
  siblings :: "nat list"
  anchor :: nat
  ng_removed :: "nat list"
  lastBlockMap :: "(jstring \<times> block) list"
  scopes :: "(nat \<times> 'v locals) list"
  next_node :: nat
  next_scope :: nat

definition updateScope :: "nat \<Rightarrow> 'v \<Rightarrow> rkey \<Rightarrow> nat \<Rightarrow> 'v locals" where
  "updateScope index value key arrayLength =
     (let first = (index = 0); last = (Suc index = arrayLength); even = (index mod 2 = 0)
      in \<lparr>l_value = value, l_key = key, l_index = index, l_first = first, l_last = last,
          l_middle = (\<not> (first \<or> last)), l_even = even, l_odd = (\<not> even)\<rparr>)"

definition collection_items :: "'v collection \<Rightarrow> (rkey \<times> 'v) list" where
  "collection_items coll =
     (case coll of
        Items vs \<Rightarrow> zip (map Index [0..<length vs]) vs
      | Entries es \<Rightarrow> map (\<lambda>(k, v). (Name k, v)) (filter (\<lambda>(k, _). k = [] \<or> hd k \<noteq> 36) es))"

subsection \<open>Locating the items\<close>

datatype slot = Seen block | Unseen jstring

definition restore :: "slot list \<Rightarrow> (jstring \<times> block) list \<Rightarrow> (jstring \<times> block) list" where
  "restore order m = fold (\<lambda>s m. case s of Seen b \<Rightarrow> AList.update (b_id b) b m | Unseen _ \<Rightarrow> m) order m"

text \<open>\<open>next\<close> are the keys of \<open>nextBlockMap\<close>; a duplicate gives its key and the restored map.\<close>

fun locate :: "(rkey \<Rightarrow> 'v \<Rightarrow> nat \<Rightarrow> jstring) \<Rightarrow> nat \<Rightarrow> (rkey \<times> 'v) list \<Rightarrow> (jstring \<times> block) list \<Rightarrow> jstring list \<Rightarrow>
    slot list \<Rightarrow> (jstring \<times> (jstring \<times> block) list) + (slot list \<times> (jstring \<times> block) list)" where
  "locate trackById index [] last_map next_ids order = Inr (order, last_map)"
| "locate trackById index ((key, value) # items) last_map next_ids order =
     (let i = trackById key value index
      in case map_of last_map i of
           Some b \<Rightarrow> locate trackById (Suc index) items (AList.delete i last_map) (i # next_ids) (order @ [Seen b])
         | None \<Rightarrow>
             if i \<in> set next_ids then Inl (i, restore order last_map)
             else locate trackById (Suc index) items last_map (i # next_ids) (order @ [Unseen i]))"

subsection \<open>Nodes\<close>

fun insert_after :: "nat \<Rightarrow> nat list \<Rightarrow> nat list \<Rightarrow> nat list" where
  "insert_after p ns [] = []"
| "insert_after p ns (x # xs) = (if x = p then x # ns @ xs else x # insert_after p ns xs)"

definition detach :: "nat list \<Rightarrow> nat list \<Rightarrow> nat list" where
  "detach ns xs = filter (\<lambda>x. x \<notin> set ns) xs"

definition next_node_after :: "nat \<Rightarrow> 'v repeater \<Rightarrow> nat option" where
  "next_node_after p r =
     (case dropWhile (\<lambda>x. x \<in> set (ng_removed r)) (tl (dropWhile (\<lambda>x. x \<noteq> p) (siblings r))) of
        [] \<Rightarrow> None | x # _ \<Rightarrow> Some x)"

definition leave :: "(jstring \<Rightarrow> bool) \<Rightarrow> block \<Rightarrow> 'v repeater \<Rightarrow> 'v repeater" where
  "leave animated b r =
     (let r = (if animated (b_id b) then r\<lparr>ng_removed := b_clone b @ ng_removed r\<rparr>
               else r\<lparr>siblings := detach (b_clone b) (siblings r)\<rparr>)
      in r\<lparr>scopes := AList.delete (b_scope b) (scopes r)\<rparr>)"

definition leave_all :: "(jstring \<Rightarrow> bool) \<Rightarrow> (jstring \<times> block) list \<Rightarrow> 'v repeater \<Rightarrow> 'v repeater" where
  "leave_all animated bs r = fold (\<lambda>(_, b). leave animated b) bs r"

subsection \<open>Rendering\<close>

definition show_old :: "nat \<Rightarrow> block \<Rightarrow> 'v locals \<Rightarrow> 'v repeater \<Rightarrow> 'v repeater" where
  "show_old previousNode b loc r =
     (let r = (if next_node_after previousNode r = Some (hd (b_clone b)) then r
               else r\<lparr>siblings := insert_after previousNode (b_clone b) (detach (b_clone b) (siblings r))\<rparr>)
      in r\<lparr>scopes := AList.update (b_scope b) loc (scopes r)\<rparr>)"

definition new_block :: "nat \<Rightarrow> jstring \<Rightarrow> 'v repeater \<Rightarrow> block" where
  "new_block width i r = \<lparr>b_id = i, b_scope = next_scope r, b_clone = [next_node r..<Suc (next_node r + width)]\<rparr>"

definition show_new :: "nat \<Rightarrow> block \<Rightarrow> 'v locals \<Rightarrow> 'v repeater \<Rightarrow> 'v repeater" where
  "show_new previousNode b loc r =
     r\<lparr>siblings := insert_after previousNode (b_clone b) (siblings r), scopes := (b_scope b, loc) # scopes r,
       next_node := next_node r + length (b_clone b), next_scope := Suc (next_scope r)\<rparr>"

text \<open>\<open>width\<close> is the number of nodes of the template; the comment that ends a block is one more.\<close>

fun render :: "nat \<Rightarrow> nat \<Rightarrow> nat \<Rightarrow> nat \<Rightarrow> slot list \<Rightarrow> (rkey \<times> 'v) list \<Rightarrow> (jstring \<times> block) list \<Rightarrow> 'v repeater \<Rightarrow> 'v repeater" where
  "render width index len previousNode (s # order) ((key, value) # items) next_map r =
     (let loc = updateScope index value key len
      in case s of
           Seen b \<Rightarrow>
             render width (Suc index) len (last (b_clone b)) order items (next_map @ [(b_id b, b)]) (show_old previousNode b loc r)
         | Unseen i \<Rightarrow>
             (let b = new_block width i r
              in render width (Suc index) len (last (b_clone b)) order items (next_map @ [(i, b)]) (show_new previousNode b loc r)))"
| "render width index len previousNode _ _ next_map r = r\<lparr>lastBlockMap := next_map\<rparr>"

definition ngRepeatAction :: "(rkey \<Rightarrow> 'v \<Rightarrow> nat \<Rightarrow> jstring) \<Rightarrow> (jstring \<Rightarrow> bool) \<Rightarrow> nat \<Rightarrow> 'v collection \<Rightarrow> 'v repeater \<Rightarrow>
    (jstring \<times> 'v repeater) + 'v repeater" where
  "ngRepeatAction trackById animated width coll r =
     (case locate trackById 0 (collection_items coll) (lastBlockMap r) [] [] of
        Inl (i, m) \<Rightarrow> Inl (i, r\<lparr>lastBlockMap := m\<rparr>)
      | Inr (order, left) \<Rightarrow>
          Inr (render width 0 (length (collection_items coll)) (anchor r) order (collection_items coll) [] (leave_all animated left r)))"

text \<open>The end of the animation of a node that leaves.\<close>

definition animation_end :: "nat \<Rightarrow> 'v repeater \<Rightarrow> 'v repeater" where
  "animation_end n r = (if n \<in> set (ng_removed r) then r\<lparr>siblings := detach [n] (siblings r)\<rparr> else r)"

end
