(* ===== verification/NgRepeatInv.thy ===== *)
theory NgRepeatInv
  imports NgRepeat
begin

section \<open>The nodes of a repeater are its collection\<close>

subsection \<open>Lists of siblings\<close>

lemma insert_after_end: "p \<notin> set ys \<Longrightarrow> insert_after p ns (ys @ p # zs) = ys @ p # ns @ zs"
  by (induction ys) auto

lemma insert_after_prefix:
  assumes "distinct (xs @ rest)" "xs \<noteq> []"
  shows "insert_after (last xs) ns (xs @ rest) = xs @ ns @ rest"
proof -
  obtain ys p where "xs = ys @ [p]"
    using assms(2) by (cases xs rule: rev_cases) auto
  with assms(1) show ?thesis
    by (simp add: insert_after_end)
qed

lemma filter_insert_after: "P p \<Longrightarrow> filter P (insert_after p ns xs) = insert_after p (filter P ns) (filter P xs)"
  by (induction xs) auto

lemma set_insert_after: "p \<in> set xs \<Longrightarrow> set (insert_after p ns xs) = set xs \<union> set ns"
  by (induction xs) auto

lemma set_insert_after_subset: "set (insert_after p ns xs) \<subseteq> set xs \<union> set ns"
  by (induction xs) auto

lemma distinct_insert_after:
  "distinct xs \<Longrightarrow> distinct ns \<Longrightarrow> set ns \<inter> set xs = {} \<Longrightarrow> distinct (insert_after p ns xs)"
proof (induction xs)
  case (Cons x xs)
  then show ?case
    using set_insert_after_subset [of p ns xs] by auto
qed simp

lemma first_kept:
  "(case dropWhile (\<lambda>x. \<not> Q x) zs of [] \<Rightarrow> None | x # _ \<Rightarrow> Some x) = (case filter Q zs of [] \<Rightarrow> None | x # _ \<Rightarrow> Some x)"
  by (induction zs) auto

definition visible :: "'v repeater \<Rightarrow> nat list" where
  "visible r = filter (\<lambda>x. x \<notin> set (ng_removed r)) (siblings r)"

lemma next_node_after_visible:
  assumes "distinct (siblings r)" "visible r = xs @ rest" "xs \<noteq> []"
  shows "next_node_after (last xs) r = (case rest of [] \<Rightarrow> None | x # _ \<Rightarrow> Some x)"
proof -
  let ?Q = "\<lambda>x. x \<notin> set (ng_removed r)" and ?p = "last xs"
  obtain us where us: "xs = us @ [?p]"
    using assms(3) by (metis append_butlast_last_id)
  have "?p \<in> set (siblings r)" "?Q ?p"
    using assms(2,3) by (metis (mono_tags, lifting) Un_iff last_in_set mem_Collect_eq set_append set_filter visible_def)+
  then obtain ys zs where yz: "siblings r = ys @ ?p # zs" "?p \<notin> set ys"
    by (metis split_list_first)
  have "filter ?Q ys @ ?p # filter ?Q zs = us @ ?p # rest"
    using assms(2) us yz(1) \<open>?Q ?p\<close> unfolding visible_def by (metis (no_types, lifting) append.assoc append_Cons append_Nil filter.simps(2) filter_append)
  then have e: "us @ ?p # rest = filter ?Q ys @ ?p # filter ?Q zs"
    by (rule sym)
  have "distinct (xs @ rest)"
    using assms(1) unfolding assms(2) [symmetric] visible_def by (rule distinct_filter)
  then have "distinct (us @ ?p # rest)"
    using us by (metis append.assoc append_Cons append_Nil)
  then have "?p \<notin> set us" "?p \<notin> set rest"
    by simp_all
  then have rest: "filter ?Q zs = rest"
    using e append_Cons_eq_iff [of ?p us rest] by auto
  have "tl (dropWhile (\<lambda>x. x \<noteq> ?p) (siblings r)) = zs"
    unfolding yz(1) using yz(2) by (subst dropWhile_append2) auto
  then show ?thesis
    using first_kept [of ?Q zs] rest by (simp add: next_node_after_def)
qed

subsection \<open>Locating the items\<close>

definition seen_pairs :: "slot list \<Rightarrow> (jstring \<times> block) list" where
  "seen_pairs order = concat (map (\<lambda>s. case s of Seen b \<Rightarrow> [(b_id b, b)] | Unseen _ \<Rightarrow> []) order)"

lemma map_of_restore: "map_of (restore order m) = map_of m ++ map_of (rev (seen_pairs order))"
proof (induction order arbitrary: m)
  case (Cons s order)
  then show ?case
    by (cases s) (auto simp: restore_def seen_pairs_def update_conv' map_add_def fun_eq_iff split: option.split)
qed (simp add: restore_def seen_pairs_def)

lemma distinct_restore: "distinct (map fst m) \<Longrightarrow> distinct (map fst (restore order m))"
  by (induction order arbitrary: m) (auto simp: restore_def distinct_update split: slot.split)

fun ids_from :: "(rkey \<Rightarrow> 'v \<Rightarrow> nat \<Rightarrow> jstring) \<Rightarrow> nat \<Rightarrow> (rkey \<times> 'v) list \<Rightarrow> jstring list" where
  "ids_from t index [] = []"
| "ids_from t index ((k, v) # items) = t k v index # ids_from t (Suc index) items"

lemma length_ids_from [simp]: "length (ids_from t index items) = length items"
  by (induction t index items rule: ids_from.induct) auto

definition slot_of :: "(jstring \<times> block) list \<Rightarrow> jstring \<Rightarrow> slot" where
  "slot_of m i = (case map_of m i of Some b \<Rightarrow> Seen b | None \<Rightarrow> Unseen i)"

lemma map_of_None_keys: "map_of m i = None \<Longrightarrow> p \<in> set m \<Longrightarrow> fst p \<noteq> i"
  by (metis image_eqI map_of_eq_None_iff)

lemma locate_distinct:
  assumes "distinct (ids_from t index items)" "set (ids_from t index items) \<inter> set seen = {}"
  shows "locate t index items m seen order =
    Inr (order @ map (slot_of m) (ids_from t index items), filter (\<lambda>p. fst p \<notin> set (ids_from t index items)) m)"
  using assms
proof (induction t index items m seen order rule: locate.induct)
  case (2 t index k v items m seen order)
  let ?i = "t k v index" and ?ids = "ids_from t (Suc index) items"
  show ?case
  proof (cases "map_of m ?i")
    case None
    then have "\<forall>p \<in> set m. fst p \<noteq> ?i"
      using map_of_None_keys [OF None] by blast
    then have "filter (\<lambda>p. fst p \<notin> set ?ids) m = filter (\<lambda>p. fst p \<noteq> ?i \<and> fst p \<notin> set ?ids) m"
      by (intro filter_cong) auto
    with 2 None show ?thesis
      by (auto simp: slot_of_def Let_def)
  next
    case (Some b)
    have "map_of (AList.delete ?i m) j = map_of m j" if "j \<in> set ?ids" for j
      using that 2(3) by (auto simp: delete_conv')
    then have "map (slot_of (AList.delete ?i m)) ?ids = map (slot_of m) ?ids"
      by (simp add: slot_of_def)
    moreover have "filter (\<lambda>p. fst p \<notin> set ?ids) (AList.delete ?i m) = filter (\<lambda>p. fst p \<noteq> ?i \<and> fst p \<notin> set ?ids) m"
      by (auto simp: AList.delete_eq filter_filter intro!: filter_cong)
    ultimately show ?thesis
      using 2 Some by (auto simp: slot_of_def Let_def)
  qed
qed simp

lemma locate_duplicate:
  assumes "\<not> (distinct (ids_from t index items) \<and> set (ids_from t index items) \<inter> set seen = {})"
    and "set seen \<inter> fst ` set m = {}" "fst ` set (seen_pairs order) \<subseteq> set seen"
    and "\<forall>p \<in> set m. b_id (snd p) = fst p" "distinct (map fst m)"
    and "map_of m ++ map_of (rev (seen_pairs order)) = M"
  shows "\<exists>i m'. locate t index items m seen order = Inl (i, m') \<and> map_of m' = M \<and> distinct (map fst m')"
  using assms
proof (induction t index items m seen order rule: locate.induct)
  case (2 t index k v items m seen order)
  let ?i = "t k v index"
  show ?case
  proof (cases "map_of m ?i")
    case None
    show ?thesis
    proof (cases "?i \<in> set seen")
      case True
      with None 2 show ?thesis
        by (simp add: map_of_restore distinct_restore)
    next
      case False
      then have "\<not> (distinct (ids_from t (Suc index) items) \<and> set (ids_from t (Suc index) items) \<inter> set (?i # seen) = {})"
        using 2(3) by auto
      moreover have "set (?i # seen) \<inter> fst ` set m = {}"
        using 2(4) None by (auto simp: map_of_eq_None_iff)
      moreover have "seen_pairs (order @ [Unseen ?i]) = seen_pairs order"
        by (simp add: seen_pairs_def)
      ultimately have "\<exists>i m'. locate t (Suc index) items m (?i # seen) (order @ [Unseen ?i]) = Inl (i, m') \<and> map_of m' = M \<and>
          distinct (map fst m')"
        using 2(5-8) by (intro 2(1) [OF refl None False]) auto
      with None False show ?thesis
        by (simp add: Let_def)
    qed
  next
    case (Some b)
    then have b: "(?i, b) \<in> set m"
      by (rule map_of_SomeD)
    with 2(6) have b_id: "b_id b = ?i"
      by fastforce
    from b have i: "?i \<notin> set seen" "?i \<notin> fst ` set (seen_pairs order)"
      using 2(4,5) by force+
    have "\<not> (distinct (ids_from t (Suc index) items) \<and> set (ids_from t (Suc index) items) \<inter> set (?i # seen) = {})"
      using 2(3) i by auto
    moreover have "set (?i # seen) \<inter> fst ` set (AList.delete ?i m) = {}"
      using 2(4) by (auto simp: AList.delete_eq)
    moreover have "fst ` set (seen_pairs (order @ [Seen b])) \<subseteq> set (?i # seen)"
      using 2(5) b_id by (auto simp: seen_pairs_def)
    moreover have "\<forall>p \<in> set (AList.delete ?i m). b_id (snd p) = fst p" "distinct (map fst (AList.delete ?i m))"
      using 2(6,7) by (auto simp: AList.delete_eq distinct_map_filter)
    moreover have "map_of (AList.delete ?i m) ++ map_of (rev (seen_pairs (order @ [Seen b]))) = M"
    proof -
      have "map_of (rev (seen_pairs order)) ?i = None"
        using i(2) by (simp add: map_of_eq_None_iff)
      with Some b_id show ?thesis
        unfolding 2(8) [symmetric] by (auto simp: seen_pairs_def delete_conv' map_add_def fun_eq_iff split: option.split)
    qed
    ultimately have "\<exists>i m'. locate t (Suc index) items (AList.delete ?i m) (?i # seen) (order @ [Seen b]) = Inl (i, m') \<and>
        map_of m' = M \<and> distinct (map fst m')"
      by (rule 2(2) [OF refl Some])
    with Some show ?thesis
      by (simp add: Let_def)
  qed
qed simp

subsection \<open>Leaving\<close>

lemma visible_leave: "visible (leave a b r) = filter (\<lambda>x. x \<notin> set (b_clone b)) (visible r)"
  by (auto simp: visible_def leave_def detach_def Let_def filter_filter conj_commute intro!: filter_cong)

lemma leave_fields [simp]:
  "anchor (leave a b r) = anchor r" "next_node (leave a b r) = next_node r" "next_scope (leave a b r) = next_scope r"
  "lastBlockMap (leave a b r) = lastBlockMap r" "map_of (scopes (leave a b r)) = (map_of (scopes r))(b_scope b := None)"
  by (auto simp: leave_def Let_def delete_conv')

lemma leave_nodes:
  "distinct (siblings r) \<Longrightarrow> distinct (siblings (leave a b r))"
  "set (siblings (leave a b r)) \<subseteq> set (siblings r)"
  "set (ng_removed (leave a b r)) \<subseteq> set (ng_removed r) \<union> set (b_clone b)"
  by (auto simp: leave_def detach_def Let_def)

lemma leave_all_simps [simp]:
  "leave_all a [] r = r" "leave_all a ((i, b) # bs) r = leave_all a bs (leave a b r)"
  by (simp_all add: leave_all_def)

lemma leave_all_visible:
  "visible (leave_all a bs r) = filter (\<lambda>x. \<forall>b \<in> snd ` set bs. x \<notin> set (b_clone b)) (visible r)"
  by (induction bs arbitrary: r) (auto simp: visible_leave filter_filter intro!: filter_cong)

lemma leave_all_fields [simp]:
  "anchor (leave_all a bs r) = anchor r" "next_node (leave_all a bs r) = next_node r" "next_scope (leave_all a bs r) = next_scope r"
  "lastBlockMap (leave_all a bs r) = lastBlockMap r"
  by (induction bs arbitrary: r) auto

lemma leave_all_scopes:
  "map_of (scopes (leave_all a bs r)) s = (if s \<in> b_scope ` snd ` set bs then None else map_of (scopes r) s)"
proof (induction bs arbitrary: r)
  case (Cons p bs)
  then show ?case
    by (cases p; cases "s = b_scope (snd p)") auto
qed simp

lemma leave_all_nodes:
  "distinct (siblings r) \<Longrightarrow> distinct (siblings (leave_all a bs r)) \<and> set (siblings (leave_all a bs r)) \<subseteq> set (siblings r) \<and>
   set (ng_removed (leave_all a bs r)) \<subseteq> set (ng_removed r) \<union> (\<Union>b \<in> snd ` set bs. set (b_clone b))"
proof (induction bs arbitrary: r)
  case (Cons p bs)
  then show ?case
    using leave_nodes [where r = r and a = a and b = "snd p"] by (cases p) fastforce
qed simp

text \<open>Taking the nodes of some blocks out of the nodes of all blocks leaves those of the others.\<close>

lemma filter_none: "\<forall>x \<in> set xs. \<not> P x \<Longrightarrow> filter P xs = []"
  by simp

lemma filter_clones:
  assumes "distinct (concat (map b_clone bs))" "distinct bs" "L \<subseteq> set bs"
  shows "filter (\<lambda>x. \<forall>b \<in> L. x \<notin> set (b_clone b)) (concat (map b_clone bs)) = concat (map b_clone (filter (\<lambda>b. b \<notin> L) bs))"
  using assms
proof (induction bs arbitrary: L)
  case (Cons b bs)
  let ?L = "L - {b}"
  have L: "?L \<subseteq> set bs"
    using Cons.prems(3) by auto
  have rest: "filter (\<lambda>x. \<forall>b \<in> L. x \<notin> set (b_clone b)) (concat (map b_clone bs)) =
      filter (\<lambda>x. \<forall>b \<in> ?L. x \<notin> set (b_clone b)) (concat (map b_clone bs))"
    using Cons.prems(1) by (intro filter_cong) auto
  have "filter (\<lambda>b. b \<notin> L) bs = filter (\<lambda>b. b \<notin> ?L) bs"
    using Cons.prems(2) by (intro filter_cong) auto
  then have rest': "filter (\<lambda>x. \<forall>b \<in> L. x \<notin> set (b_clone b)) (concat (map b_clone bs)) = concat (map b_clone (filter (\<lambda>b. b \<notin> L) bs))"
    using Cons.IH [OF _ _ L] Cons.prems rest by simp
  have own: "filter (\<lambda>x. \<forall>b \<in> L. x \<notin> set (b_clone b)) (b_clone b) = (if b \<in> L then [] else b_clone b)"
  proof (cases "b \<in> L")
    case False
    have "\<forall>x \<in> set (b_clone b). \<forall>c \<in> L. x \<notin> set (b_clone c)"
      using Cons.prems(1,3) False by (auto simp: disjoint_iff)
    with False show ?thesis
      by simp
  next
    case True
    then have "\<forall>x \<in> set (b_clone b). \<not> (\<forall>c \<in> L. x \<notin> set (b_clone c))"
      by blast
    with True show ?thesis
      by (simp add: filter_none)
  qed
  show ?case
    using rest' own by simp
qed simp

subsection \<open>Rendering\<close>

definition render_ok :: "nat list \<Rightarrow> nat list \<Rightarrow> block list \<Rightarrow> block list \<Rightarrow> 'v repeater \<Rightarrow> bool" where
  "render_ok P after done olds r \<longleftrightarrow>
     visible r = P @ concat (map b_clone olds) @ after \<and> P \<noteq> [] \<and> distinct (siblings r) \<and>
     (\<forall>n \<in> set (siblings r) \<union> set (ng_removed r). n < next_node r) \<and>
     distinct (map b_scope (done @ olds)) \<and> (\<forall>b \<in> set (done @ olds). b_clone b \<noteq> []) \<and>
     dom (map_of (scopes r)) = b_scope ` set (done @ olds) \<and> (\<forall>s \<in> dom (map_of (scopes r)). s < next_scope r)"

lemma visible_distinct: "distinct (siblings r) \<Longrightarrow> distinct (visible r)"
  by (simp add: visible_def)

lemma distinct_scopes: "distinct (map b_scope bs) \<Longrightarrow> distinct bs"
  by (simp add: distinct_map)

lemma filter_one_clone:
  assumes "distinct (P @ concat (map b_clone olds) @ after)" "distinct olds" "b \<in> set olds"
  shows "filter (\<lambda>x. x \<notin> set (b_clone b)) (P @ concat (map b_clone olds) @ after) = P @ concat (map b_clone (remove1 b olds)) @ after"
proof -
  have "filter (\<lambda>x. x \<notin> set (b_clone b)) (concat (map b_clone olds)) = concat (map b_clone (remove1 b olds))"
    using filter_clones [of olds "{b}"] assms by (simp add: distinct_remove1_removeAll removeAll_filter_not_eq eq_commute)
  moreover have "\<forall>x \<in> set P \<union> set after. x \<notin> set (b_clone b)"
    using assms(1,3) by auto
  ultimately show ?thesis
    by simp
qed

lemma show_old_ok:
  assumes ok: "render_ok P after done olds r" and b: "b \<in> set olds"
  shows "render_ok (P @ b_clone b) after (done @ [b]) (remove1 b olds) (show_old (last P) b loc r) \<and>
    map_of (scopes (show_old (last P) b loc r)) = (map_of (scopes r))(b_scope b \<mapsto> loc)"
proof -
  let ?rest = "concat (map b_clone olds) @ after"
  have vis: "visible r = P @ ?rest" and P: "P \<noteq> []" and d: "distinct (siblings r)" and ne: "\<forall>b \<in> set (done @ olds). b_clone b \<noteq> []"
    and sc: "distinct (map b_scope (done @ olds))"
    using ok by (simp_all add: render_ok_def)
  have dv: "distinct (P @ ?rest)"
    using visible_distinct [OF d] vis by simp
  have dol: "distinct olds"
    using sc distinct_scopes by auto
  have nxt: "next_node_after (last P) r = (case ?rest of [] \<Rightarrow> None | x # _ \<Rightarrow> Some x)"
    by (rule next_node_after_visible [OF d vis P])
  have subset: "set (visible r) \<subseteq> set (siblings r)"
    unfolding visible_def by auto
  have subset': "set (b_clone b) \<subseteq> set (visible r)" "last P \<in> set (visible r)"
    unfolding vis using b P by auto
  let ?move = "insert_after (last P) (b_clone b) (detach (b_clone b) (siblings r))"
  have lastP: "last P \<notin> set (b_clone b)"
    using dv b last_in_set [OF P] by auto
  have moved: "filter (\<lambda>x. x \<notin> set (ng_removed r)) ?move = P @ b_clone b @ concat (map b_clone (remove1 b olds)) @ after"
  proof -
    have kept: "filter (\<lambda>x. x \<notin> set (ng_removed r)) (b_clone b) = b_clone b" "last P \<notin> set (ng_removed r)"
      using subset' by (auto simp: visible_def filter_id_conv)
    have "filter (\<lambda>x. x \<notin> set (ng_removed r)) (detach (b_clone b) (siblings r)) = filter (\<lambda>x. x \<notin> set (b_clone b)) (visible r)"
      by (auto simp: detach_def visible_def filter_filter conj_commute)
    also have "\<dots> = P @ concat (map b_clone (remove1 b olds)) @ after"
      unfolding vis by (rule filter_one_clone [OF dv dol b])
    finally have e: "filter (\<lambda>x. x \<notin> set (ng_removed r)) (detach (b_clone b) (siblings r)) = P @ concat (map b_clone (remove1 b olds)) @ after" .
    then have "distinct (P @ concat (map b_clone (remove1 b olds)) @ after)"
      using d by (metis detach_def distinct_filter)
    then show ?thesis
      using kept e P insert_after_prefix [of P "concat (map b_clone (remove1 b olds)) @ after" "b_clone b"]
      by (simp add: filter_insert_after)
  qed
  have visible': "visible (show_old (last P) b loc r) = (P @ b_clone b) @ concat (map b_clone (remove1 b olds)) @ after"
  proof (cases "next_node_after (last P) r = Some (hd (b_clone b))")
    case False
    then show ?thesis
      using moved by (simp add: show_old_def visible_def Let_def)
  next
    case True
    obtain c cs where cs: "olds = c # cs"
      using b by (cases olds) auto
    then have "hd (b_clone c) = hd (b_clone b)"
      using True nxt ne by (cases "b_clone c") auto
    moreover have "set (b_clone c) \<inter> set (b_clone b) = {}" if "b \<noteq> c"
      using dv cs b that by auto
    ultimately have "b = c"
      using ne cs b by (metis disjoint_iff hd_in_set in_set_conv_decomp list.set_intros(1) set_append UnCI)
    then show ?thesis
      using True vis cs by (simp add: show_old_def visible_def Let_def)
  qed
  have sib: "distinct (siblings (show_old (last P) b loc r))" "set (siblings (show_old (last P) b loc r)) \<subseteq> set (siblings r)"
    using d subset subset' dv b distinct_insert_after [of "detach (b_clone b) (siblings r)" "b_clone b" "last P"]
      set_insert_after_subset [of "last P" "b_clone b" "detach (b_clone b) (siblings r)"]
    by (auto simp: show_old_def Let_def detach_def distinct_concat_iff)
  have sets: "set (done @ [b]) \<union> set (remove1 b olds) = set (done @ olds)"
    using b dol by (auto simp: set_remove1_eq)
  have "distinct (map b_scope ((done @ [b]) @ remove1 b olds))"
    using sc b dol by (auto simp: distinct_map set_remove1_eq inj_on_def)
  then show ?thesis
    using ok visible' sib sets b ne
    by (auto simp: render_ok_def show_old_def Let_def update_conv' set_remove1_eq dol)
qed

lemma show_new_ok:
  assumes ok: "render_ok P after done olds r" and b: "b = new_block w i r"
  shows "render_ok (P @ b_clone b) after (done @ [b]) olds (show_new (last P) b loc r) \<and>
    map_of (scopes (show_new (last P) b loc r)) = (map_of (scopes r))(b_scope b \<mapsto> loc)"
proof -
  let ?rest = "concat (map b_clone olds) @ after" and ?t = "show_new (last P) b loc r"
  have vis: "visible r = P @ ?rest" and P: "P \<noteq> []" and d: "distinct (siblings r)"
    and small: "\<forall>n \<in> set (siblings r) \<union> set (ng_removed r). n < next_node r"
    using ok by (simp_all add: render_ok_def)
  have fresh: "\<forall>n \<in> set (b_clone b). next_node r \<le> n \<and> n < next_node r + length (b_clone b)" "distinct (b_clone b)" "b_clone b \<noteq> []"
    "b_scope b = next_scope r"
    using b by (auto simp: new_block_def)
  have "last P \<in> set (visible r)"
    unfolding vis using P by simp
  then have lastP: "last P \<notin> set (ng_removed r)"
    by (simp add: visible_def)
  have unused: "set (b_clone b) \<inter> (set (siblings r) \<union> set (ng_removed r)) = {}"
  proof (rule ccontr)
    assume "\<not> ?thesis"
    then obtain n where n: "n \<in> set (b_clone b)" "n \<in> set (siblings r) \<union> set (ng_removed r)"
      by blast
    have "next_node r \<le> n"
      using fresh(1) n(1) by blast
    moreover have "n < next_node r"
      using small n(2) by (rule bspec)
    ultimately show False
      by simp
  qed
  then have "filter (\<lambda>x. x \<notin> set (ng_removed r)) (b_clone b) = b_clone b"
    by (auto simp: filter_id_conv)
  with lastP have "visible ?t = insert_after (last P) (b_clone b) (visible r)"
    by (simp add: visible_def show_new_def filter_insert_after)
  then have v: "visible ?t = (P @ b_clone b) @ ?rest"
    using vis P visible_distinct [OF d] insert_after_prefix [of P ?rest "b_clone b"] by simp
  have "set (b_clone b) \<inter> set (siblings r) = {}"
    using unused by blast
  then have "distinct (siblings ?t)"
    using d fresh(2) by (simp add: show_new_def distinct_insert_after)
  moreover have "\<forall>n \<in> set (siblings ?t) \<union> set (ng_removed ?t). n < next_node ?t"
  proof
    fix n
    assume "n \<in> set (siblings ?t) \<union> set (ng_removed ?t)"
    then have "n \<in> set (siblings r) \<union> set (ng_removed r) \<or> n \<in> set (b_clone b)"
      using set_insert_after_subset [of "last P" "b_clone b" "siblings r"] by (auto simp: show_new_def)
    then show "n < next_node ?t"
    proof
      assume "n \<in> set (siblings r) \<union> set (ng_removed r)"
      with small have "n < next_node r"
        by (rule bspec)
      then show ?thesis
        by (simp add: show_new_def)
    next
      assume "n \<in> set (b_clone b)"
      with fresh(1) show ?thesis
        by (simp add: show_new_def)
    qed
  qed
  moreover have "b_scope b \<notin> b_scope ` set (done @ olds)"
    using ok fresh(4) unfolding render_ok_def by (metis less_irrefl)
  ultimately show ?thesis
    using ok v fresh(3,4) by (auto simp: render_ok_def show_new_def less_Suc_eq)
qed

definition slot_id :: "slot \<Rightarrow> jstring" where
  "slot_id s = (case s of Seen b \<Rightarrow> b_id b | Unseen i \<Rightarrow> i)"

definition olds_of :: "slot list \<Rightarrow> block list" where
  "olds_of order = concat (map (\<lambda>s. case s of Seen b \<Rightarrow> [b] | Unseen _ \<Rightarrow> []) order)"

lemma olds_of_simps [simp]:
  "olds_of [] = []" "olds_of (Seen b # order) = b # olds_of order" "olds_of (Unseen i # order) = olds_of order"
  by (simp_all add: olds_of_def)

definition fills :: "slot \<Rightarrow> block \<Rightarrow> bool" where
  "fills s b \<longleftrightarrow> (case s of Seen c \<Rightarrow> b = c | Unseen i \<Rightarrow> b_id b = i)"

definition locals_from :: "nat \<Rightarrow> nat \<Rightarrow> (rkey \<times> 'v) list \<Rightarrow> 'v locals list" where
  "locals_from index len items = map (\<lambda>(j, k, v). updateScope j v k len) (zip [index..<index + length items] items)"

lemma locals_from_simps [simp]:
  "locals_from index len [] = []"
  "locals_from index len ((k, v) # items) = updateScope index v k len # locals_from (Suc index) len items"
proof -
  have "[index..<index + length ((k, v) # items)] = index # [Suc index..<Suc index + length items]"
    using upt_conv_Cons [of index "index + length ((k, v) # items)"] by simp
  then show "locals_from index len ((k, v) # items) = updateScope index v k len # locals_from (Suc index) len items"
    by (simp only: locals_from_def zip_Cons_Cons list.map prod.case)
qed (simp add: locals_from_def)

definition entries_of :: "block list \<Rightarrow> (jstring \<times> block) list" where
  "entries_of bs = map (\<lambda>b. (b_id b, b)) bs"

lemma entries_of_simps [simp]:
  "entries_of [] = []" "entries_of (b # bs) = (b_id b, b) # entries_of bs" "entries_of (bs @ cs) = entries_of bs @ entries_of cs"
  "length (entries_of bs) = length bs"
  by (simp_all add: entries_of_def)

lemma show_fields [simp]:
  "anchor (show_old p b loc r) = anchor r" "anchor (show_new p b loc r) = anchor r"
  by (simp_all add: show_old_def show_new_def Let_def)

lemma render_result:
  assumes "render_ok P after done olds r" "mset (olds_of order) = mset olds" "length order = length items"
    and "r' = render w index len (last P) order items (entries_of done) r"
  shows "\<exists>bs. list_all2 fills order bs \<and> lastBlockMap r' = entries_of (done @ bs) \<and> anchor r' = anchor r \<and>
    render_ok (P @ concat (map b_clone bs)) after (done @ bs) [] r' \<and>
    list_all2 (\<lambda>b loc. map_of (scopes r') (b_scope b) = Some loc) bs (locals_from index len items) \<and>
    (\<forall>s. s \<notin> b_scope ` set bs \<longrightarrow> map_of (scopes r') s = map_of (scopes r) s)"
  using assms
proof (induction order arbitrary: index P "done" olds items r)
  case Nil
  then have "r' = r\<lparr>lastBlockMap := entries_of done\<rparr>" "olds = []" "items = []"
    by simp_all
  with Nil(1) show ?case
    by (intro exI [of _ "[]"]) (simp add: render_ok_def visible_def)
next
  case (Cons s order)
  obtain k v items' where items: "items = (k, v) # items'"
    using Cons.prems(3) by (cases items) auto
  let ?loc = "updateScope index v k len"
  obtain b olds' r1 where step: "fills s b" "render_ok (P @ b_clone b) after (done @ [b]) olds' r1"
    "map_of (scopes r1) = (map_of (scopes r))(b_scope b \<mapsto> ?loc)" "mset (olds_of order) = mset olds'" "anchor r1 = anchor r"
    "r' = render w (Suc index) len (last (b_clone b)) order items' (entries_of (done @ [b])) r1"
  proof (cases s)
    case (Seen b)
    then have b: "b \<in> set olds"
      using Cons.prems(2) by (metis list.set_intros(1) olds_of_simps(2) set_mset_mset)
    have "mset (olds_of order) = mset (remove1 b olds)"
      using Cons.prems(2) Seen by (simp flip: Cons.prems(2))
    with that [of b "remove1 b olds" "show_old (last P) b ?loc r"] show_old_ok [OF Cons.prems(1) b] Seen items Cons.prems(4)
    show ?thesis
      by (simp add: fills_def)
  next
    case (Unseen i)
    with that [of "new_block w i r" olds "show_new (last P) (new_block w i r) ?loc r"]
      show_new_ok [OF Cons.prems(1) refl, of w i ?loc] items Cons.prems(2,4)
    show ?thesis
      by (simp add: fills_def Let_def new_block_def)
  qed
  have "b_clone b \<noteq> []"
    using step(2) by (simp add: render_ok_def)
  then have "r' = render w (Suc index) len (last (P @ b_clone b)) order items' (entries_of (done @ [b])) r1"
    using step(6) by simp
  with Cons.IH [OF step(2,4)] Cons.prems(3) items obtain bs where bs: "list_all2 fills order bs"
    "lastBlockMap r' = entries_of ((done @ [b]) @ bs)" "anchor r' = anchor r1"
    "render_ok ((P @ b_clone b) @ concat (map b_clone bs)) after ((done @ [b]) @ bs) [] r'"
    "list_all2 (\<lambda>b loc. map_of (scopes r') (b_scope b) = Some loc) bs (locals_from (Suc index) len items')"
    "\<forall>s. s \<notin> b_scope ` set bs \<longrightarrow> map_of (scopes r') s = map_of (scopes r1) s"
    by fastforce
  have "b_scope b \<notin> b_scope ` set bs"
    using bs(4) by (auto simp: render_ok_def)
  with bs step(1,3,5) items show ?case
    by (intro exI [of _ "b # bs"]) auto
qed

subsection \<open>Runs of a repeater\<close>

text \<open>
  The comment of the directive has the siblings \<open>before\<close> and \<open>after\<close> it. An action gets any collection,
  with any tracking function, and ends or throws; nodes leave when their animation ends.
\<close>

inductive repeat_run :: "nat list \<Rightarrow> nat list \<Rightarrow> 'v repeater \<Rightarrow> bool" for before "after" where
  start: "distinct (before @ a # after) \<Longrightarrow> \<forall>x \<in> set (before @ a # after). x < n \<Longrightarrow>
    repeat_run before after \<lparr>siblings = before @ a # after, anchor = a, ng_removed = [], lastBlockMap = [], scopes = [],
      next_node = n, next_scope = s\<rparr>"
| action: "repeat_run before after r \<Longrightarrow> ngRepeatAction t a w coll r = Inr r' \<Longrightarrow> repeat_run before after r'"
| duplicate: "repeat_run before after r \<Longrightarrow> ngRepeatAction t a w coll r = Inl (i, r') \<Longrightarrow> repeat_run before after r'"
| animated: "repeat_run before after r \<Longrightarrow> repeat_run before after (animation_end n r)"

definition repeat_inv :: "nat list \<Rightarrow> nat list \<Rightarrow> 'v repeater \<Rightarrow> bool" where
  "repeat_inv before after r \<longleftrightarrow>
     (\<exists>bs. set bs = snd ` set (lastBlockMap r) \<and> render_ok (before @ [anchor r]) after [] bs r) \<and>
     distinct (map fst (lastBlockMap r)) \<and> (\<forall>p \<in> set (lastBlockMap r). b_id (snd p) = fst p)"

lemma leave_all_ok:
  assumes ok: "render_ok P after [] bs r" and left: "snd ` set left \<subseteq> set bs"
  shows "render_ok P after [] (filter (\<lambda>b. b \<notin> snd ` set left) bs) (leave_all a left r)"
proof -
  let ?L = "snd ` set left"
  have vis: "visible r = P @ concat (map b_clone bs) @ after" and d: "distinct (siblings r)" and sc: "distinct (map b_scope bs)"
    and small: "\<forall>n \<in> set (siblings r) \<union> set (ng_removed r). n < next_node r" and dom: "dom (map_of (scopes r)) = b_scope ` set bs"
    using ok by (simp_all add: render_ok_def)
  have dv: "distinct (P @ concat (map b_clone bs) @ after)"
    using visible_distinct [OF d] vis by simp
  have "filter (\<lambda>x. \<forall>b \<in> ?L. x \<notin> set (b_clone b)) (concat (map b_clone bs)) = concat (map b_clone (filter (\<lambda>b. b \<notin> ?L) bs))"
    using dv sc left by (intro filter_clones distinct_scopes) simp_all
  moreover have "filter (\<lambda>x. \<forall>b \<in> ?L. x \<notin> set (b_clone b)) P = P" "filter (\<lambda>x. \<forall>b \<in> ?L. x \<notin> set (b_clone b)) after = after"
    using dv left by (intro filter_True; fastforce)+
  ultimately have "visible (leave_all a left r) = P @ concat (map b_clone (filter (\<lambda>b. b \<notin> ?L) bs)) @ after"
    unfolding leave_all_visible vis by simp
  moreover have "(\<Union>b \<in> ?L. set (b_clone b)) \<subseteq> set (siblings r)"
  proof -
    have "(\<Union>b \<in> ?L. set (b_clone b)) \<subseteq> set (visible r)"
      unfolding vis using left by auto
    also have "\<dots> \<subseteq> set (siblings r)"
      by (auto simp: visible_def)
    finally show ?thesis .
  qed
  then have "\<forall>n \<in> set (siblings (leave_all a left r)) \<union> set (ng_removed (leave_all a left r)). n < next_node r"
    using leave_all_nodes [OF d, of a left] small by blast
  moreover have doms: "dom (map_of (scopes (leave_all a left r))) = b_scope ` set (filter (\<lambda>b. b \<notin> ?L) bs)"
  proof -
    have "dom (map_of (scopes (leave_all a left r))) = dom (map_of (scopes r)) - b_scope ` ?L"
      by (auto simp: leave_all_scopes dom_def)
    also have "\<dots> = b_scope ` (set bs - ?L)"
      unfolding dom using sc left by (intro inj_on_image_set_diff [symmetric, of _ "set bs"]) (auto simp: distinct_map)
    finally show ?thesis
      by (simp add: set_diff_eq)
  qed
  moreover have "distinct (map b_scope (filter (\<lambda>b. b \<notin> ?L) bs))"
    using sc by (rule distinct_map_filter)
  ultimately show ?thesis
    using ok leave_all_nodes [OF d, of a left] by (auto simp: render_ok_def)
qed

lemma olds_of_slots:
  "distinct ids \<Longrightarrow> \<forall>p \<in> set m. b_id (snd p) = fst p \<Longrightarrow> distinct (map fst m) \<Longrightarrow>
   distinct (olds_of (map (slot_of m) ids)) \<and> set (olds_of (map (slot_of m) ids)) = {b. \<exists>i \<in> set ids. (i, b) \<in> set m}"
proof (induction ids)
  case (Cons i ids)
  let ?rest = "olds_of (map (slot_of m) ids)"
  have IH: "distinct ?rest" "set ?rest = {b. \<exists>j \<in> set ids. (j, b) \<in> set m}"
    using Cons by simp_all
  have lookup: "map_of m i = Some b \<longleftrightarrow> (i, b) \<in> set m" for b
    using Cons.prems(3) by simp
  show ?case
  proof (cases "map_of m i")
    case None
    then have "slot_of m i = Unseen i" "(i, b) \<notin> set m" for b
      using lookup [of b] by (simp_all add: slot_of_def)
    with IH show ?thesis
      by simp
  next
    case (Some b)
    then have b: "slot_of m i = Seen b" "(i, c) \<in> set m \<longleftrightarrow> c = b" for c
      using lookup [of c] by (auto simp: slot_of_def)
    have "b_id b = i"
      using Cons.prems(2) b(2) by fastforce
    have "b \<notin> set ?rest"
    proof
      assume "b \<in> set ?rest"
      then obtain j where "j \<in> set ids" "(j, b) \<in> set m"
        using IH(2) by blast
      then have "b_id b = j" "j \<in> set ids"
        using Cons.prems(2) by fastforce+
      with \<open>b_id b = i\<close> Cons.prems(1) show False
        by simp
    qed
    with IH b show ?thesis
      by auto
  qed
qed simp

lemma slot_ids:
  assumes "list_all2 fills (map (slot_of m) ids) bs" "\<forall>p \<in> set m. b_id (snd p) = fst p"
  shows "map b_id bs = ids"
proof -
  have "b_id b = i" if "fills (slot_of m i) b" for i b
    using that assms(2) map_of_SomeD [of m i] by (auto simp: fills_def slot_of_def split: option.splits)
  then have "list_all2 (=) (map b_id bs) ids"
    using assms(1) by (auto simp: list_all2_conv_all_nth)
  then show ?thesis
    by (simp add: list.rel_eq)
qed

lemma action_result:
  assumes inv: "repeat_inv before after r" and ids: "ids = ids_from t 0 (collection_items coll)" "distinct ids"
  shows "\<exists>r' bs. ngRepeatAction t a w coll r = Inr r' \<and> lastBlockMap r' = entries_of bs \<and> map b_id bs = ids \<and> anchor r' = anchor r \<and>
    render_ok (before @ [anchor r]) after [] bs r' \<and> list_all2 fills (map (slot_of (lastBlockMap r)) ids) bs \<and>
    list_all2 (\<lambda>b loc. map_of (scopes r') (b_scope b) = Some loc) bs (locals_from 0 (length (collection_items coll)) (collection_items coll))"
proof -
  let ?m = "lastBlockMap r" and ?P = "before @ [anchor r]"
  let ?left = "filter (\<lambda>p. fst p \<notin> set ids) ?m" and ?order = "map (slot_of ?m) ids"
  obtain bs where bs: "set bs = snd ` set ?m" "render_ok ?P after [] bs r"
    using inv by (auto simp: repeat_inv_def)
  have m: "distinct (map fst ?m)" "\<forall>p \<in> set ?m. b_id (snd p) = fst p"
    using inv by (simp_all add: repeat_inv_def)
  have loc: "locate t 0 (collection_items coll) ?m [] [] = Inr (?order, ?left)"
    using locate_distinct [of t 0 "collection_items coll" "[]"] ids by simp
  define r1 where "r1 = leave_all a ?left r"
  define olds where "olds = filter (\<lambda>b. b \<notin> snd ` set ?left) bs"
  have ok1: "render_ok ?P after [] olds r1"
    unfolding r1_def olds_def using bs by (intro leave_all_ok) auto
  have "distinct olds"
    using ok1 by (auto simp: render_ok_def intro: distinct_scopes)
  moreover have "set olds = {b. \<exists>i \<in> set ids. (i, b) \<in> set ?m}"
  proof -
    have key: "b_id b = i" if "(i, b) \<in> set ?m" for i b
      using m(2) that by fastforce
    have "b \<in> set olds \<longleftrightarrow> (\<exists>i. (i, b) \<in> set ?m \<and> i \<in> set ids)" for b
    proof
      assume "b \<in> set olds"
      then obtain i where "(i, b) \<in> set ?m" "b \<notin> snd ` set ?left"
        by (auto simp: olds_def bs(1))
      then show "\<exists>i. (i, b) \<in> set ?m \<and> i \<in> set ids"
        by (intro exI [of _ i]) force
    next
      assume "\<exists>i. (i, b) \<in> set ?m \<and> i \<in> set ids"
      then obtain i where i: "(i, b) \<in> set ?m" "i \<in> set ids"
        by blast
      have "j = i" if "(j, b) \<in> set ?m" for j
        using key [OF that] key [OF i(1)] by simp
      with i(2) have "b \<notin> snd ` set ?left"
        by auto
      moreover have "b \<in> snd ` set ?m"
        using i by force
      ultimately show "b \<in> set olds"
        by (simp add: olds_def bs(1))
    qed
    then show ?thesis
      by blast
  qed
  ultimately have order: "mset (olds_of ?order) = mset olds"
    using olds_of_slots [OF ids(2) m(2,1)] by (simp flip: set_eq_iff_mset_eq_distinct)
  have len: "length ?order = length (collection_items coll)"
    using ids(1) by simp
  define r' where "r' = render w 0 (length (collection_items coll)) (last ?P) ?order (collection_items coll) (entries_of []) r1"
  obtain bs' where bs': "list_all2 fills ?order bs'" "lastBlockMap r' = entries_of ([] @ bs')" "anchor r' = anchor r1"
    "render_ok (?P @ concat (map b_clone bs')) after ([] @ bs') [] r'"
    "list_all2 (\<lambda>b loc. map_of (scopes r') (b_scope b) = Some loc) bs' (locals_from 0 (length (collection_items coll)) (collection_items coll))"
    using render_result [OF ok1 order len r'_def] by (elim exE conjE) (rule that)
  have "ngRepeatAction t a w coll r = Inr r'"
    using loc by (simp add: ngRepeatAction_def r1_def r'_def)
  moreover have "render_ok ?P after [] bs' r'"
    using bs'(4) by (simp add: render_ok_def)
  ultimately show ?thesis
    using bs' slot_ids [OF bs'(1) m(2)] by (intro exI [of _ r'] exI [of _ bs']) (simp add: r1_def)
qed

lemma duplicate_result:
  assumes inv: "repeat_inv before after r" and dup: "\<not> distinct (ids_from t 0 (collection_items coll))"
  shows "\<exists>i m. ngRepeatAction t a w coll r = Inl (i, r\<lparr>lastBlockMap := m\<rparr>) \<and> map_of m = map_of (lastBlockMap r) \<and>
    set m = set (lastBlockMap r) \<and> distinct (map fst m)"
proof -
  have m: "distinct (map fst (lastBlockMap r))" "\<forall>p \<in> set (lastBlockMap r). b_id (snd p) = fst p"
    using inv by (simp_all add: repeat_inv_def)
  obtain i m' where m': "locate t 0 (collection_items coll) (lastBlockMap r) [] [] = Inl (i, m')" "map_of m' = map_of (lastBlockMap r)"
    "distinct (map fst m')"
    using locate_duplicate [of t 0 "collection_items coll" "[]" "lastBlockMap r" "[]"] dup m by (auto simp: seen_pairs_def)
  then have "set m' = set (lastBlockMap r)"
    using map_of_inject_set [OF m'(3) m(1)] by simp
  with m' show ?thesis
    by (intro exI [of _ i] exI [of _ m']) (simp add: ngRepeatAction_def)
qed

lemma repeat_inv_entries:
  assumes "render_ok (before @ [anchor r]) after [] bs r" "lastBlockMap r = entries_of bs" "distinct (map b_id bs)"
  shows "repeat_inv before after r"
  unfolding repeat_inv_def using assms by (auto simp: entries_of_def comp_def image_image)

lemma repeat_run_inv: "repeat_run before after r \<Longrightarrow> repeat_inv before after r"
proof (induction rule: repeat_run.induct)
  case (start a n s)
  then show ?case
    by (intro repeat_inv_entries [of _ _ _ "[]"]) (auto simp: render_ok_def visible_def)
next
  case (action r t a w coll r')
  have "distinct (ids_from t 0 (collection_items coll))"
    using action(2) duplicate_result [OF action(3), of t coll a w] by auto
  then obtain bs where "lastBlockMap r' = entries_of bs" "map b_id bs = ids_from t 0 (collection_items coll)" "anchor r' = anchor r"
    "render_ok (before @ [anchor r]) after [] bs r'"
    using action_result [OF action(3) refl, of t coll a w] action(2) by auto
  with \<open>distinct (ids_from t 0 (collection_items coll))\<close> show ?case
    by (intro repeat_inv_entries [of _ _ _ bs]) simp_all
next
  case (duplicate r t a w coll i r')
  have "\<not> distinct (ids_from t 0 (collection_items coll))"
    using duplicate(2) action_result [OF duplicate(3) refl, of t coll a w] by auto
  then obtain m where m: "r' = r\<lparr>lastBlockMap := m\<rparr>" "set m = set (lastBlockMap r)" "distinct (map fst m)"
    using duplicate_result [OF duplicate(3), of t coll a w] duplicate(2) by auto
  obtain bs where "set bs = snd ` set (lastBlockMap r)" "render_ok (before @ [anchor r]) after [] bs r"
    using duplicate(3) by (auto simp: repeat_inv_def)
  then have "set bs = snd ` set (lastBlockMap r')" "render_ok (before @ [anchor r']) after [] bs r'"
    using m by (simp_all add: render_ok_def visible_def)
  moreover have "\<forall>p \<in> set (lastBlockMap r'). b_id (snd p) = fst p"
    using m duplicate(3) by (simp add: repeat_inv_def)
  ultimately show ?case
    using m(1,3) unfolding repeat_inv_def by auto
next
  case (animated r n)
  let ?r = "animation_end n r"
  have same: "visible ?r = visible r" "anchor ?r = anchor r" "lastBlockMap ?r = lastBlockMap r" "scopes ?r = scopes r"
    "next_node ?r = next_node r" "next_scope ?r = next_scope r" "ng_removed ?r = ng_removed r"
    "set (siblings ?r) \<subseteq> set (siblings r)" "distinct (siblings r) \<Longrightarrow> distinct (siblings ?r)"
    by (auto simp: animation_end_def visible_def detach_def filter_filter intro!: filter_cong)
  obtain bs where bs: "set bs = snd ` set (lastBlockMap r)" "render_ok (before @ [anchor r]) after [] bs r"
    using animated(2) by (auto simp: repeat_inv_def)
  then have "render_ok (before @ [anchor ?r]) after [] bs ?r"
    using same by (auto simp: render_ok_def)
  with bs(1) animated(2) show ?case
    unfolding repeat_inv_def same(3) by blast
qed

text \<open>
  C34. After any history of a repeater, an action on a collection whose items are tracked by different ids
  succeeds: the nodes after the comment, apart from those that are leaving, are the blocks of the items in
  the order of the collection, and nothing else has moved; an id that had a block keeps its nodes and its
  scope; each block's scope has the value, key and position of its item; and the scopes of all other
  blocks are destroyed.
\<close>

theorem repeat_shows_collection:
  assumes "repeat_run before after r" "ids = ids_from trackById 0 (collection_items coll)" "distinct ids"
  shows "\<exists>r'. ngRepeatAction trackById animated width coll r = Inr r' \<and> map fst (lastBlockMap r') = ids \<and>
    visible r' = before @ [anchor r] @ concat (map (\<lambda>(_, b). b_clone b) (lastBlockMap r')) @ after \<and>
    (\<forall>i \<in> set ids. \<forall>b. map_of (lastBlockMap r) i = Some b \<longrightarrow> map_of (lastBlockMap r') i = Some b) \<and>
    list_all2 (\<lambda>(_, b) loc. map_of (scopes r') (b_scope b) = Some loc) (lastBlockMap r')
      (locals_from 0 (length (collection_items coll)) (collection_items coll)) \<and>
    dom (map_of (scopes r')) = (\<lambda>(_, b). b_scope b) ` set (lastBlockMap r')"
proof -
  have inv: "repeat_inv before after r"
    using assms(1) by (rule repeat_run_inv)
  obtain r' bs where r': "ngRepeatAction trackById animated width coll r = Inr r'" "lastBlockMap r' = entries_of bs" "map b_id bs = ids"
    "render_ok (before @ [anchor r]) after [] bs r'" "list_all2 fills (map (slot_of (lastBlockMap r)) ids) bs"
    "list_all2 (\<lambda>b loc. map_of (scopes r') (b_scope b) = Some loc) bs (locals_from 0 (length (collection_items coll)) (collection_items coll))"
    using action_result [OF inv assms(2,3)] by blast
  have keep: "map_of (lastBlockMap r') i = Some b" if "i \<in> set ids" "map_of (lastBlockMap r) i = Some b" for i b
  proof -
    have "\<exists>j. j < length ids \<and> ids ! j = i"
      using that(1) by (simp add: in_set_conv_nth)
    then obtain j where j: "j < length ids" "ids ! j = i"
      by blast
    then have "fills (Seen b) (bs ! j)" "j < length bs"
      using r'(3,5) that(2) by (auto simp: list_all2_conv_all_nth slot_of_def)
    then have "(i, b) \<in> set (lastBlockMap r')"
      using j r'(2,3) by (auto simp: fills_def entries_of_def in_set_conv_nth intro!: exI [of _ j])
    moreover have "distinct (map fst (lastBlockMap r'))"
      using r'(2,3) assms(3) by (simp add: entries_of_def comp_def)
    ultimately show ?thesis
      by simp
  qed
  have "map fst (lastBlockMap r') = ids" "map (\<lambda>(_, b). b_clone b) (lastBlockMap r') = map b_clone bs"
    "(\<lambda>(_, b). b_scope b) ` set (lastBlockMap r') = b_scope ` set bs"
    using r'(2,3) by (auto simp: entries_of_def comp_def)
  moreover have "list_all2 (\<lambda>(_, b) loc. map_of (scopes r') (b_scope b) = Some loc) (lastBlockMap r')
      (locals_from 0 (length (collection_items coll)) (collection_items coll))"
    using r'(6) unfolding r'(2) entries_of_def by (simp add: list_all2_map1)
  ultimately show ?thesis
    using r'(1,4) keep by (intro exI [of _ r']) (simp add: render_ok_def)
qed

text \<open>
  When two items have the same id the action throws, and it leaves the nodes, the scopes and the map
  of the last blocks as they were.
\<close>

theorem repeat_duplicates_throw:
  assumes "repeat_run before after r" "\<not> distinct (ids_from trackById 0 (collection_items coll))"
  shows "\<exists>i m. ngRepeatAction trackById animated width coll r = Inl (i, r\<lparr>lastBlockMap := m\<rparr>) \<and> map_of m = map_of (lastBlockMap r)"
  using duplicate_result [OF repeat_run_inv [OF assms(1)] assms(2)] by blast

subsection \<open>A list of two colours\<close>

definition track_text :: "rkey \<Rightarrow> jstring \<Rightarrow> nat \<Rightarrow> jstring" where
  "track_text k v i = v"

definition demo_list :: "jstring repeater" where
  "demo_list = \<lparr>siblings = [0, 1, 2], anchor = 1, ng_removed = [], lastBlockMap = [], scopes = [], next_node = 3, next_scope = 0\<rparr>"

definition demo_shown :: "jstring repeater" where
  "demo_shown = projr (ngRepeatAction track_text (\<lambda>_. False) 1 (Items [[1], [2]]) demo_list)"

lemma demo_shown_run: "repeat_run [0] [2] demo_shown"
proof -
  have "repeat_run [0] [2] demo_list"
    unfolding demo_list_def using repeat_run.start [of "[0]" 1 "[2]" 3 0] by simp
  moreover have "ngRepeatAction track_text (\<lambda>_. False) 1 (Items [[1], [2]]) demo_list = Inr demo_shown"
    unfolding demo_shown_def by (simp add: ngRepeatAction_def collection_items_def track_text_def demo_list_def Let_def)
  ultimately show ?thesis
    by (rule repeat_run.action)
qed

theorem repeat_shows_collection_witness:
  "\<exists>r'. ngRepeatAction track_text (\<lambda>_. True) 1 (Items [[2], [1], [3]]) demo_shown = Inr r' \<and>
     visible r' = [0, 1] @ concat (map (\<lambda>(_, b). b_clone b) (lastBlockMap r')) @ [2] \<and> map_of (lastBlockMap r') [1] = map_of (lastBlockMap demo_shown) [1]"
proof -
  have ids: "[[2], [1], [3]] = ids_from track_text 0 (collection_items (Items [[2], [1], [3]]))" "distinct [[2], [1], [3 :: nat]]"
    by (simp_all add: collection_items_def track_text_def upt_rec)
  have "anchor demo_shown = 1" "\<exists>b. map_of (lastBlockMap demo_shown) [1] = Some b"
    by (simp_all add: demo_shown_def ngRepeatAction_def collection_items_def track_text_def demo_list_def Let_def upt_rec show_new_def new_block_def)
  then show ?thesis
    using repeat_shows_collection [OF demo_shown_run ids(1,2), of "\<lambda>_. True" 1] by fastforce
qed

theorem repeat_duplicates_throw_witness:
  "\<exists>i m. ngRepeatAction track_text (\<lambda>_. False) 1 (Items [[1], [1]]) demo_shown = Inl (i, demo_shown\<lparr>lastBlockMap := m\<rparr>)"
proof -
  have "\<not> distinct (ids_from track_text 0 (collection_items (Items [[1], [1]])))"
    by (simp add: collection_items_def track_text_def upt_rec)
  from repeat_duplicates_throw [OF demo_shown_run this] show ?thesis
    by blast
qed

end
