(* ===== verification/NgWatchColl.thy ===== *)
theory NgWatchColl
  imports JsValue "HOL-Library.AList"
begin

section \<open>Watching collections\<close>

text \<open>
  \<open>$watchCollection\<close>: the change detector, which keeps a shallow copy of the last value and a counter of
  changes, and the listener action. A value is given by what a check reads of it: the items of an array,
  the own enumerable properties of an object. \<open>inherited\<close> are the properties every object inherits, which
  \<open>in\<close> finds in the copy too.
\<close>

datatype cvalue = CUndefined | CPrimitive val | CArray "val list" | CObject "(jstring \<times> val) list"

datatype old_value = OldPrimitive val | OldArray | OldObject

record coll_watch =
  oldValue :: old_value
  internalArray :: "val list"
  internalObject :: "(jstring \<times> val) list"
  oldLength :: int
  changeDetected :: nat
  initRun :: bool
  veryOldValue :: cvalue

definition init_watch :: coll_watch where
  "init_watch = \<lparr>oldValue = OldPrimitive Undef, internalArray = [], internalObject = [], oldLength = 0, changeDetected = 0,
     initRun = True, veryOldValue = CUndefined\<rparr>"

definition changed_item :: "val \<Rightarrow> val \<Rightarrow> bool" where
  "changed_item oldItem newItem \<longleftrightarrow>
     \<not> (\<not> strict_eq oldItem oldItem \<and> \<not> strict_eq newItem newItem) \<and> \<not> strict_eq oldItem newItem"

definition count_change :: "coll_watch \<Rightarrow> coll_watch" where
  "count_change w = w\<lparr>changeDetected := Suc (changeDetected w)\<rparr>"

definition check_primitive :: "val \<Rightarrow> coll_watch \<Rightarrow> coll_watch" where
  "check_primitive v w =
     (if (case oldValue w of OldPrimitive p \<Rightarrow> strict_eq p v | _ \<Rightarrow> False) then w
      else count_change (w\<lparr>oldValue := OldPrimitive v\<rparr>))"

subsection \<open>Arrays\<close>

definition set_length :: "nat \<Rightarrow> val list \<Rightarrow> val list" where
  "set_length n xs = take n xs @ replicate (n - length xs) Undef"

fun copy_items :: "val list \<Rightarrow> val list \<Rightarrow> nat \<times> val list" where
  "copy_items (oldItem # olds) (newItem # news) =
     (let (c, rest) = copy_items olds news
      in if changed_item oldItem newItem then (Suc c, newItem # rest) else (c, oldItem # rest))"
| "copy_items _ _ = (0, [])"

definition check_array :: "val list \<Rightarrow> coll_watch \<Rightarrow> coll_watch" where
  "check_array items w =
     (let w = (if oldValue w = OldArray then w
               else count_change (w\<lparr>oldValue := OldArray, internalArray := [], oldLength := 0\<rparr>));
          w = (if oldLength w = int (length items) then w
               else count_change (w\<lparr>internalArray := set_length (length items) (internalArray w), oldLength := int (length items)\<rparr>));
          (c, copy) = copy_items (internalArray w) items
      in w\<lparr>internalArray := copy, changeDetected := changeDetected w + c\<rparr>)"

subsection \<open>Objects\<close>

definition check_key :: "(jstring \<Rightarrow> val option) \<Rightarrow> jstring \<times> val \<Rightarrow> coll_watch \<Rightarrow> coll_watch" where
  "check_key inherited e w =
     (let (key, newItem) = e
      in case (map_of (internalObject w) key, inherited key) of
           (None, None) \<Rightarrow>
             count_change (w\<lparr>oldLength := oldLength w + 1, internalObject := AList.update key newItem (internalObject w)\<rparr>)
         | (oldItem, base) \<Rightarrow>
             (if changed_item (case oldItem of Some v \<Rightarrow> v | None \<Rightarrow> the base) newItem
              then count_change (w\<lparr>internalObject := AList.update key newItem (internalObject w)\<rparr>) else w))"

definition drop_keys :: "(jstring \<times> val) list \<Rightarrow> coll_watch \<Rightarrow> coll_watch" where
  "drop_keys new w =
     (let kept = filter (\<lambda>(k, _). k \<in> fst ` set new) (internalObject w)
      in w\<lparr>internalObject := kept, oldLength := oldLength w - int (length (internalObject w) - length kept)\<rparr>)"

definition check_object :: "(jstring \<Rightarrow> val option) \<Rightarrow> (jstring \<times> val) list \<Rightarrow> coll_watch \<Rightarrow> coll_watch" where
  "check_object inherited new w =
     (let w = (if oldValue w = OldObject then w
               else count_change (w\<lparr>oldValue := OldObject, internalObject := [], oldLength := 0\<rparr>));
          w = fold (check_key inherited) new w
      in if int (length new) < oldLength w then drop_keys new (count_change w) else w)"

text \<open>The result is the value the digest compares with the last one.\<close>

definition watchCollectionInterceptor :: "(jstring \<Rightarrow> val option) \<Rightarrow> cvalue \<Rightarrow> coll_watch \<Rightarrow> nat option \<times> coll_watch" where
  "watchCollectionInterceptor inherited newValue w =
     (case newValue of
        CUndefined \<Rightarrow> (None, w)
      | CPrimitive v \<Rightarrow> (let w = check_primitive v w in (Some (changeDetected w), w))
      | CArray items \<Rightarrow> (let w = check_array items w in (Some (changeDetected w), w))
      | CObject new \<Rightarrow> (let w = check_object inherited new w in (Some (changeDetected w), w)))"

text \<open>The action gives the listener's first two arguments; the copy is taken when it has two parameters.\<close>

definition watchCollectionAction :: "bool \<Rightarrow> cvalue \<Rightarrow> coll_watch \<Rightarrow> (cvalue \<times> cvalue) \<times> coll_watch" where
  "watchCollectionAction trackVeryOldValue newValue w =
     ((newValue, if initRun w then newValue else veryOldValue w),
      w\<lparr>initRun := False, veryOldValue := (if trackVeryOldValue then newValue else veryOldValue w)\<rparr>)"

subsection \<open>What a change is\<close>

definition same_item :: "val \<Rightarrow> val \<Rightarrow> bool" where
  "same_item v w \<longleftrightarrow> strict_eq v w \<or> v = Num NaN \<and> w = Num NaN"

fun same_collection :: "cvalue \<Rightarrow> cvalue \<Rightarrow> bool" where
  "same_collection (CPrimitive v) (CPrimitive w) = strict_eq v w"
| "same_collection (CArray xs) (CArray ys) = list_all2 same_item xs ys"
| "same_collection (CObject ps) (CObject qs) = (\<forall>k. rel_option same_item (map_of ps k) (map_of qs k))"
| "same_collection _ _ = False"

lemma strict_eq_self: "strict_eq v v \<longleftrightarrow> v \<noteq> Num NaN"
  by (cases v) auto

lemma changed_item_iff: "changed_item v w \<longleftrightarrow> \<not> same_item v w"
  by (auto simp: changed_item_def same_item_def strict_eq_self)

lemma same_item_refl [simp]: "same_item v v"
  by (auto simp: same_item_def strict_eq_self)

lemma same_item_sym: "same_item v w = same_item w v"
  by (auto simp: same_item_def strict_eq_sym)

lemma strict_eq_trans: "strict_eq u v \<Longrightarrow> strict_eq v w \<Longrightarrow> strict_eq u w"
  by (cases u; cases v; cases w) (auto intro: num_eq_trans)

lemma num_eq_NaN: "\<not> num_eq m NaN"
  by (cases m) simp_all

lemma strict_eq_NaN: "\<not> strict_eq v (Num NaN)" "\<not> strict_eq (Num NaN) v"
  by (cases v; simp add: num_eq_NaN)+

lemma same_item_trans: "same_item u v \<Longrightarrow> same_item v w \<Longrightarrow> same_item u w"
  using strict_eq_trans strict_eq_NaN by (auto simp: same_item_def)

text \<open>Comparing with something the same gives the same answer.\<close>

lemma same_item_cong:
  assumes "same_item u v"
  shows "same_item u w = same_item v w"
proof -
  have "same_item v u"
    using assms by (subst same_item_sym)
  with assms show ?thesis
    by (auto intro: same_item_trans)
qed

lemma list_same_cong: "list_all2 same_item xs ys \<Longrightarrow> list_all2 same_item xs zs = list_all2 same_item ys zs"
proof (induction xs ys arbitrary: zs rule: list_all2_induct)
  case (Cons x xs y ys)
  then show ?case
    using same_item_cong [OF Cons(1)] by (cases zs) auto
qed simp

definition plain_value :: "(jstring \<Rightarrow> val option) \<Rightarrow> cvalue \<Rightarrow> bool" where
  "plain_value inherited v \<longleftrightarrow>
     (case v of
        CPrimitive p \<Rightarrow> p \<noteq> Undef
      | CObject ps \<Rightarrow> distinct (map fst ps) \<and> (\<forall>k \<in> fst ` set ps. inherited k = None)
      | _ \<Rightarrow> True)"

text \<open>The state after a check of \<open>v\<close>.\<close>

definition holds_copy :: "coll_watch \<Rightarrow> cvalue \<Rightarrow> bool" where
  "holds_copy w v \<longleftrightarrow>
     (case v of
        CUndefined \<Rightarrow> oldValue w = OldPrimitive Undef
      | CPrimitive p \<Rightarrow> (\<exists>q. oldValue w = OldPrimitive q \<and> (q = p \<or> strict_eq q p))
      | CArray xs \<Rightarrow> oldValue w = OldArray \<and> list_all2 same_item (internalArray w) xs \<and> oldLength w = int (length xs)
      | CObject ps \<Rightarrow> oldValue w = OldObject \<and> distinct (map fst (internalObject w)) \<and>
          (\<forall>k. rel_option same_item (map_of (internalObject w) k) (map_of ps k)) \<and> oldLength w = int (length (internalObject w)))"

lemma length_copy: "length olds = length news \<Longrightarrow> length (snd (copy_items olds news)) = length news"
  by (induction olds news rule: copy_items.induct) (auto simp: Let_def split: prod.split)

lemma copy_items_result:
  "length olds = length news \<Longrightarrow>
   list_all2 same_item (snd (copy_items olds news)) news \<and> (fst (copy_items olds news) = 0 \<longleftrightarrow> list_all2 same_item olds news)"
  by (induction olds news rule: copy_items.induct) (auto simp: Let_def changed_item_iff split: prod.split)

lemma count_change_fields [simp]:
  "oldValue (count_change w) = oldValue w" "internalArray (count_change w) = internalArray w"
  "internalObject (count_change w) = internalObject w" "oldLength (count_change w) = oldLength w"
  "changeDetected (count_change w) = Suc (changeDetected w)"
  by (simp_all add: count_change_def)

lemma length_set_length [simp]: "length (set_length n xs) = n"
  by (simp add: set_length_def)

lemma check_array_result:
  assumes "oldValue w = OldArray \<Longrightarrow> int (length (internalArray w)) = oldLength w"
  shows "holds_copy (check_array items w) (CArray items) \<and> changeDetected w \<le> changeDetected (check_array items w) \<and>
    (changeDetected (check_array items w) = changeDetected w \<longleftrightarrow> oldValue w = OldArray \<and> list_all2 same_item (internalArray w) items)"
proof -
  define w1 where "w1 = (if oldValue w = OldArray then w
    else count_change (w\<lparr>oldValue := OldArray, internalArray := [], oldLength := 0\<rparr>))"
  define w2 where "w2 = (if oldLength w1 = int (length items) then w1
    else count_change (w1\<lparr>internalArray := set_length (length items) (internalArray w1), oldLength := int (length items)\<rparr>))"
  have 1: "oldValue w1 = OldArray" "int (length (internalArray w1)) = oldLength w1"
    "changeDetected w1 = (if oldValue w = OldArray then changeDetected w else Suc (changeDetected w))"
    using assms by (simp_all add: w1_def)
  have 2: "oldValue w2 = OldArray" "oldLength w2 = int (length items)" "length (internalArray w2) = length items"
    "changeDetected w2 = (if oldLength w1 = int (length items) then changeDetected w1 else Suc (changeDetected w1))"
    using 1 by (auto simp: w2_def)
  obtain c copy where c: "copy_items (internalArray w2) items = (c, copy)"
    by force
  then have result: "check_array items w = w2\<lparr>internalArray := copy, changeDetected := changeDetected w2 + c\<rparr>"
    unfolding check_array_def Let_def w1_def [symmetric] w2_def [symmetric] by simp
  have copy: "list_all2 same_item copy items" "c = 0 \<longleftrightarrow> list_all2 same_item (internalArray w2) items"
    using copy_items_result [OF 2(3)] c by simp_all
  have "changeDetected (check_array items w) = changeDetected w \<longleftrightarrow> oldValue w = OldArray \<and> oldLength w1 = int (length items) \<and> c = 0"
    using 1(3) 2(4) by (auto simp: result)
  also have "\<dots> \<longleftrightarrow> oldValue w = OldArray \<and> list_all2 same_item (internalArray w) items"
    using 1(2) copy(2) by (auto simp: w1_def w2_def dest: list_all2_lengthD)
  finally show ?thesis
    using 1(3) 2(1,2,4) copy(1) by (simp add: result holds_copy_def)
qed

lemma length_update: "length (AList.update k v m) = (if k \<in> fst ` set m then length m else Suc (length m))"
  by (induction m) auto

text \<open>One key, and all keys, of a new object.\<close>

definition obj_ok :: "coll_watch \<Rightarrow> bool" where
  "obj_ok w \<longleftrightarrow> oldValue w = OldObject \<and> distinct (map fst (internalObject w)) \<and> oldLength w = int (length (internalObject w))"

definition same_at :: "coll_watch \<Rightarrow> jstring \<times> val \<Rightarrow> bool" where
  "same_at w e \<longleftrightarrow> (\<exists>u. map_of (internalObject w) (fst e) = Some u \<and> same_item u (snd e))"

lemma check_key_result:
  assumes "obj_ok w" "inherited k = None"
  shows "obj_ok (check_key inherited (k, v) w) \<and>
    map_of (internalObject (check_key inherited (k, v) w)) =
      (if same_at w (k, v) then map_of (internalObject w) else (map_of (internalObject w))(k \<mapsto> v)) \<and>
    changeDetected (check_key inherited (k, v) w) = (if same_at w (k, v) then changeDetected w else Suc (changeDetected w))"
proof (cases "map_of (internalObject w) k")
  case None
  then have "k \<notin> fst ` set (internalObject w)"
    by (simp add: map_of_eq_None_iff)
  with None assms show ?thesis
    by (simp add: check_key_def obj_ok_def same_at_def length_update distinct_update update_conv')
next
  case (Some u)
  then have "k \<in> fst ` set (internalObject w)"
    by (metis map_of_eq_None_iff option.distinct(1))
  with Some assms show ?thesis
    by (auto simp: check_key_def obj_ok_def same_at_def changed_item_iff length_update distinct_update update_conv')
qed

lemma check_keys_result:
  assumes "distinct (map fst new)" "\<forall>k \<in> fst ` set new. inherited k = None" "obj_ok w"
  shows "obj_ok (fold (check_key inherited) new w) \<and>
    (\<forall>k. case map_of new k of
       Some v \<Rightarrow> same_at (fold (check_key inherited) new w) (k, v)
     | None \<Rightarrow> map_of (internalObject (fold (check_key inherited) new w)) k = map_of (internalObject w) k) \<and>
    changeDetected w \<le> changeDetected (fold (check_key inherited) new w) \<and>
    (changeDetected (fold (check_key inherited) new w) = changeDetected w \<longleftrightarrow> (\<forall>e \<in> set new. same_at w e))"
  using assms
proof (induction new arbitrary: w)
  case (Cons e new)
  obtain k v where e: "e = (k, v)"
    by force
  define w1 where "w1 = check_key inherited (k, v) w"
  have 1: "obj_ok w1" "map_of (internalObject w1) = (if same_at w (k, v) then map_of (internalObject w) else (map_of (internalObject w))(k \<mapsto> v))"
    "changeDetected w1 = (if same_at w (k, v) then changeDetected w else Suc (changeDetected w))"
    using check_key_result [OF Cons.prems(3), of inherited k v] Cons.prems(2) e by (simp_all add: w1_def)
  define w2 where "w2 = fold (check_key inherited) new w1"
  have 2: "obj_ok w2" "\<forall>k. case map_of new k of Some v \<Rightarrow> same_at w2 (k, v) | None \<Rightarrow> map_of (internalObject w2) k = map_of (internalObject w1) k"
    "changeDetected w1 \<le> changeDetected w2" "changeDetected w2 = changeDetected w1 \<longleftrightarrow> (\<forall>e \<in> set new. same_at w1 e)"
    using Cons.IH [OF _ _ 1(1)] Cons.prems(1,2) unfolding w2_def by auto
  have k: "k \<notin> fst ` set new"
    using Cons.prems(1) e by simp
  then have "map_of new k = None"
    by (simp add: map_of_eq_None_iff)
  then have at_k: "same_at w2 (k, v)"
    using 2(2) [rule_format, of k] 1(2) by (auto simp: same_at_def split: if_splits)
  have others: "same_at w1 e' \<longleftrightarrow> same_at w e'" if "e' \<in> set new" for e'
  proof -
    have "fst e' \<noteq> k"
      using that k by force
    then show ?thesis
      using 1(2) by (simp add: same_at_def)
  qed
  have lookup: "case map_of (e # new) j of Some v \<Rightarrow> same_at w2 (j, v) | None \<Rightarrow> map_of (internalObject w2) j = map_of (internalObject w) j" for j
    using 2(2) [rule_format, of j] 1(2) at_k e by (cases "j = k") (auto split: if_splits option.splits)
  have count: "changeDetected w \<le> changeDetected w2 \<and> (changeDetected w2 = changeDetected w \<longleftrightarrow> (\<forall>e' \<in> set (e # new). same_at w e'))"
  proof (cases "same_at w (k, v)")
    case True
    have "(\<forall>e' \<in> set new. same_at w1 e') \<longleftrightarrow> (\<forall>e' \<in> set new. same_at w e')"
      using others by blast
    with True 1(3) 2(3,4) e show ?thesis
      by simp
  next
    case False
    with 1(3) 2(3) e show ?thesis
      by simp
  qed
  have "fold (check_key inherited) (e # new) w = w2"
    by (simp add: w2_def w1_def e)
  then show ?case
    using 2(1) lookup count by (simp only:) blast
qed simp

lemma rel_option_Some: "rel_option R (Some a) y \<longleftrightarrow> (\<exists>b. y = Some b \<and> R a b)" "rel_option R x (Some b) \<longleftrightarrow> (\<exists>a. x = Some a \<and> R a b)"
  by (cases y; simp) (cases x; simp)

lemma map_of_keys: "map_of (filter (\<lambda>(k, _). k \<in> S) m) k = (if k \<in> S then map_of m k else None)"
  by (induction m) auto

lemma drop_keys_result:
  assumes "obj_ok w"
  shows "obj_ok (drop_keys new w) \<and> changeDetected (drop_keys new w) = changeDetected w \<and>
    map_of (internalObject (drop_keys new w)) k = (if k \<in> fst ` set new then map_of (internalObject w) k else None)"
proof -
  let ?kept = "filter (\<lambda>(k, _). k \<in> fst ` set new) (internalObject w)"
  have "length ?kept \<le> length (internalObject w)"
    by (rule length_filter_le)
  with assms show ?thesis
    by (simp add: drop_keys_def Let_def obj_ok_def map_of_keys distinct_map_filter of_nat_diff)
qed

lemma check_object_result:
  assumes new: "distinct (map fst new)" "\<forall>k \<in> fst ` set new. inherited k = None"
    and ok: "oldValue w = OldObject \<Longrightarrow> obj_ok w"
  shows "holds_copy (check_object inherited new w) (CObject new) \<and> changeDetected w \<le> changeDetected (check_object inherited new w) \<and>
    (changeDetected (check_object inherited new w) = changeDetected w \<longleftrightarrow>
       oldValue w = OldObject \<and> (\<forall>k. rel_option same_item (map_of (internalObject w) k) (map_of new k)))"
proof -
  define w1 where "w1 = (if oldValue w = OldObject then w
    else count_change (w\<lparr>oldValue := OldObject, internalObject := [], oldLength := 0\<rparr>))"
  define w2 where "w2 = fold (check_key inherited) new w1"
  define w3 where "w3 = (if int (length new) < oldLength w2 then drop_keys new (count_change w2) else w2)"
  have result: "check_object inherited new w = w3"
    by (simp add: check_object_def Let_def w1_def w2_def w3_def)
  have 1: "obj_ok w1" "changeDetected w1 = (if oldValue w = OldObject then changeDetected w else Suc (changeDetected w))"
    using ok by (auto simp: w1_def obj_ok_def)
  have 2: "obj_ok w2" "\<forall>k. case map_of new k of Some v \<Rightarrow> same_at w2 (k, v) | None \<Rightarrow> map_of (internalObject w2) k = map_of (internalObject w1) k"
    "changeDetected w1 \<le> changeDetected w2" "changeDetected w2 = changeDetected w1 \<longleftrightarrow> (\<forall>e \<in> set new. same_at w1 e)"
    using check_keys_result [OF new 1(1)] unfolding w2_def by auto
  let ?old = "fst ` set (internalObject w2)" and ?new = "fst ` set new"
  have sub: "?new \<subseteq> ?old"
  proof
    fix k
    assume "k \<in> ?new"
    then obtain v where "map_of new k = Some v"
      by (metis map_of_eq_None_iff not_None_eq)
    with 2(2) show "k \<in> ?old"
      by (metis (no_types, lifting) map_of_eq_None_iff option.distinct(1) option.simps(5) same_at_def fst_conv)
  qed
  have card: "length (internalObject w2) = card ?old" "length new = card ?new"
    using 2(1) new(1) by (metis distinct_card length_map obj_ok_def set_map)+
  then have longer: "int (length new) < oldLength w2 \<longleftrightarrow> ?old \<noteq> ?new"
  proof (cases "?old = ?new")
    case True
    with card 2(1) show ?thesis
      by (simp add: obj_ok_def)
  next
    case False
    with sub have "?new \<subset> ?old"
      by blast
    then have "card ?new < card ?old"
      by (intro psubset_card_mono) simp_all
    with False card 2(1) show ?thesis
      by (simp add: obj_ok_def)
  qed
  have kept: "obj_ok w3" "changeDetected w3 = (if ?old = ?new then changeDetected w2 else Suc (changeDetected w2))"
    "map_of (internalObject w3) k = (if k \<in> ?new then map_of (internalObject w2) k else None)" for k
  proof (atomize (full), cases "?old = ?new")
    case True
    have "map_of (internalObject w2) k = None" if "k \<notin> ?new"
      using that True by (simp add: map_of_eq_None_iff)
    with True 2(1) longer show "obj_ok w3 \<and> changeDetected w3 = (if ?old = ?new then changeDetected w2 else Suc (changeDetected w2)) \<and>
        map_of (internalObject w3) k = (if k \<in> ?new then map_of (internalObject w2) k else None)"
      by (simp add: w3_def)
  next
    case False
    have "obj_ok (count_change w2)"
      using 2(1) by (simp add: obj_ok_def)
    with False longer show "obj_ok w3 \<and> changeDetected w3 = (if ?old = ?new then changeDetected w2 else Suc (changeDetected w2)) \<and>
        map_of (internalObject w3) k = (if k \<in> ?new then map_of (internalObject w2) k else None)"
      using drop_keys_result [of "count_change w2" new k] by (simp add: w3_def)
  qed
  have at2: "same_at w2 (k, v)" if "map_of new k = Some v" for k v
    using 2(2) [rule_format, of k] that by simp
  have "rel_option same_item (map_of (internalObject w3) k) (map_of new k)" for k
  proof (cases "map_of new k")
    case None
    then show ?thesis
      by (simp add: kept(3) map_of_eq_None_iff)
  next
    case (Some v)
    then have "k \<in> ?new"
      by (metis map_of_eq_None_iff option.distinct(1))
    with at2 [OF Some] Some show ?thesis
      by (auto simp: kept(3) same_at_def rel_option_Some)
  qed
  with kept(1) have "holds_copy w3 (CObject new)"
    by (simp add: holds_copy_def obj_ok_def)
  moreover have "changeDetected w \<le> changeDetected w3"
    using 1(2) 2(3) kept(2) by (simp split: if_splits)
  moreover have "changeDetected w3 = changeDetected w \<longleftrightarrow> oldValue w = OldObject \<and> (\<forall>e \<in> set new. same_at w1 e) \<and> ?old = ?new"
    using 1(2) 2(3,4) kept(2) by (auto split: if_splits)
  moreover have "(\<forall>e \<in> set new. same_at w1 e) \<and> ?old = ?new \<longleftrightarrow> (\<forall>k. rel_option same_item (map_of (internalObject w1) k) (map_of new k))"
  proof -
    have "?old = ?new \<longleftrightarrow> (\<forall>k. map_of new k = None \<longrightarrow> map_of (internalObject w1) k = None)"
    proof -
      have "?old = ?new \<longleftrightarrow> (\<forall>k. k \<notin> ?new \<longrightarrow> k \<notin> ?old)"
        using sub by blast
      also have "\<dots> \<longleftrightarrow> (\<forall>k. map_of new k = None \<longrightarrow> map_of (internalObject w2) k = None)"
        by (simp add: map_of_eq_None_iff)
      also have "\<dots> \<longleftrightarrow> (\<forall>k. map_of new k = None \<longrightarrow> map_of (internalObject w1) k = None)"
        using 2(2) by (metis (mono_tags, lifting) option.simps(4))
      finally show ?thesis .
    qed
    moreover have "(\<forall>e \<in> set new. same_at w1 e) \<longleftrightarrow> (\<forall>k v. map_of new k = Some v \<longrightarrow> same_at w1 (k, v))"
      using new(1) by auto
    moreover have "rel_option same_item (map_of (internalObject w1) k) (map_of new k) \<longleftrightarrow>
        (case map_of new k of None \<Rightarrow> map_of (internalObject w1) k = None | Some v \<Rightarrow> same_at w1 (k, v))" for k
      by (cases "map_of new k"; cases "map_of (internalObject w1) k") (auto simp: same_at_def)
    ultimately show ?thesis
      by (auto split: option.split)
  qed
  ultimately show ?thesis
    unfolding result by (auto simp: w1_def)
qed

subsection \<open>A sequence of checks\<close>

fun run_checks :: "(jstring \<Rightarrow> val option) \<Rightarrow> cvalue list \<Rightarrow> coll_watch \<Rightarrow> coll_watch" where
  "run_checks inherited [] w = w"
| "run_checks inherited (v # vs) w = run_checks inherited vs (snd (watchCollectionInterceptor inherited v w))"

text \<open>The value of the last check that had one.\<close>

definition last_value :: "cvalue list \<Rightarrow> cvalue" where
  "last_value vs = foldl (\<lambda>l v. if v = CUndefined then l else v) CUndefined vs"

lemma last_value_snoc: "last_value (vs @ [v]) = (if v = CUndefined then last_value vs else v)"
  by (simp add: last_value_def)

lemma run_checks_snoc: "run_checks inherited (vs @ [v]) w = snd (watchCollectionInterceptor inherited v (run_checks inherited vs w))"
  by (induction vs arbitrary: w) simp_all

lemma rel_option_same_cong:
  assumes "\<forall>k. rel_option same_item (f k) (g k)"
  shows "(\<forall>k. rel_option same_item (f k) (h k)) \<longleftrightarrow> (\<forall>k. rel_option same_item (g k) (h k))"
proof -
  have "rel_option same_item (f k) (h k) \<longleftrightarrow> rel_option same_item (g k) (h k)" for k
    using assms [rule_format, of k] by (cases "f k"; cases "g k"; cases "h k") (auto dest: same_item_cong)
  then show ?thesis
    by simp
qed

lemma check_result:
  assumes copy: "holds_copy w v" and plain: "plain_value inherited x" and x: "x \<noteq> CUndefined"
  shows "holds_copy (snd (watchCollectionInterceptor inherited x w)) x \<and>
    fst (watchCollectionInterceptor inherited x w) = Some (changeDetected (snd (watchCollectionInterceptor inherited x w))) \<and>
    changeDetected w \<le> changeDetected (snd (watchCollectionInterceptor inherited x w)) \<and>
    (changeDetected (snd (watchCollectionInterceptor inherited x w)) = changeDetected w \<longleftrightarrow> same_collection v x)"
proof (cases x)
  case (CPrimitive p)
  have p: "p \<noteq> Undef"
    using plain CPrimitive by (simp add: plain_value_def)
  show ?thesis
  proof (cases v)
    case CUndefined
    with copy p CPrimitive show ?thesis
      by (simp add: watchCollectionInterceptor_def check_primitive_def holds_copy_def)
  next
    case (CPrimitive q)
    with copy obtain o' where o': "oldValue w = OldPrimitive o'" "o' = q \<or> strict_eq o' q"
      by (auto simp: holds_copy_def)
    then have "strict_eq o' p \<longleftrightarrow> strict_eq q p"
      using strict_eq_trans strict_eq_sym by metis
    with o' CPrimitive \<open>x = CPrimitive p\<close> show ?thesis
      by (auto simp: watchCollectionInterceptor_def check_primitive_def holds_copy_def Let_def)
  qed (use copy CPrimitive in \<open>simp_all add: watchCollectionInterceptor_def check_primitive_def holds_copy_def Let_def\<close>)
next
  case (CArray xs)
  have len: "oldValue w = OldArray \<Longrightarrow> int (length (internalArray w)) = oldLength w"
    using copy by (cases v) (auto simp: holds_copy_def dest: list_all2_lengthD)
  have "oldValue w = OldArray \<and> list_all2 same_item (internalArray w) xs \<longleftrightarrow> same_collection v (CArray xs)"
    using copy by (cases v) (auto simp: holds_copy_def list_same_cong)
  with check_array_result [OF len, of xs] CArray show ?thesis
    by (simp add: watchCollectionInterceptor_def Let_def)
next
  case (CObject new)
  have new: "distinct (map fst new)" "\<forall>k \<in> fst ` set new. inherited k = None"
    using plain CObject by (simp_all add: plain_value_def)
  have ok: "oldValue w = OldObject \<Longrightarrow> obj_ok w"
    using copy by (cases v) (auto simp: holds_copy_def obj_ok_def)
  have "oldValue w = OldObject \<and> (\<forall>k. rel_option same_item (map_of (internalObject w) k) (map_of new k)) \<longleftrightarrow> same_collection v (CObject new)"
  proof (cases v)
    case (CObject ps)
    with copy have "oldValue w = OldObject" "\<forall>k. rel_option same_item (map_of (internalObject w) k) (map_of ps k)"
      by (simp_all add: holds_copy_def)
    with CObject rel_option_same_cong [OF this(2)] show ?thesis
      by simp
  qed (use copy in \<open>auto simp: holds_copy_def\<close>)
  with check_object_result [OF new ok] CObject show ?thesis
    by (simp add: watchCollectionInterceptor_def Let_def)
qed (use x in simp)

lemma run_checks_copy: "\<forall>v \<in> set vs. plain_value inherited v \<Longrightarrow> holds_copy (run_checks inherited vs init_watch) (last_value vs)"
proof (induction vs rule: rev_induct)
  case Nil
  then show ?case
    by (simp add: holds_copy_def last_value_def init_watch_def)
next
  case (snoc v vs)
  then have IH: "holds_copy (run_checks inherited vs init_watch) (last_value vs)"
    by simp
  show ?case
  proof (cases "v = CUndefined")
    case True
    with IH show ?thesis
      by (simp add: run_checks_snoc last_value_snoc watchCollectionInterceptor_def)
  next
    case False
    with check_result [OF IH _ False] snoc.prems show ?thesis
      by (simp add: run_checks_snoc last_value_snoc)
  qed
qed

text \<open>
  C35. After any sequence of checks of plain values (no keys that every object inherits), checking a value
  gives the digest a greater number than before just when the value is not, item by item with \<open>NaN\<close> equal to
  itself, the same as the value of the last check; otherwise the same number. (A value that is itself \<open>NaN\<close> is
  never the same, see below.)
\<close>

theorem watch_detects_shallow_changes:
  assumes "\<forall>v \<in> set (vs @ [x]). plain_value inherited v" "x \<noteq> CUndefined"
    and "w = run_checks inherited vs init_watch"
  shows "\<exists>n. fst (watchCollectionInterceptor inherited x w) = Some n \<and> changeDetected w \<le> n \<and>
    (n = changeDetected w \<longleftrightarrow> same_collection (last_value vs) x)"
proof -
  have "holds_copy w (last_value vs)"
    using run_checks_copy [of vs inherited] assms(1,3) by simp
  then show ?thesis
    using check_result [of w "last_value vs" inherited x] assms(1,2) by auto
qed

theorem watch_detects_shallow_changes_witness:
  "\<exists>n. fst (watchCollectionInterceptor (\<lambda>_. None) (CArray [Num NaN, Ref 2]) (run_checks (\<lambda>_. None) [CArray [Num NaN, Ref 1]] init_watch)) = Some n \<and>
     n \<noteq> changeDetected (run_checks (\<lambda>_. None) [CArray [Num NaN, Ref 1]] init_watch)"
proof -
  have "\<forall>v \<in> set ([CArray [Num NaN, Ref 1]] @ [CArray [Num NaN, Ref 2]]). plain_value (\<lambda>_. None) v"
    by (simp add: plain_value_def)
  moreover have "\<not> same_collection (last_value [CArray [Num NaN, Ref 1]]) (CArray [Num NaN, Ref 2])"
    by (simp add: last_value_def same_item_def)
  ultimately show ?thesis
    using watch_detects_shallow_changes [of "[CArray [Num NaN, Ref 1]]" "CArray [Num NaN, Ref 2]" "\<lambda>_. None"] by blast
qed

subsection \<open>Two values the detector gets wrong\<close>

definition object_prototype :: "jstring \<Rightarrow> val option" where
  "object_prototype k =
     (if k = J ''constructor'' then Some (Ref 0) else if k = J ''toString'' then Some (Ref 1)
      else if k = J ''valueOf'' then Some (Ref 2) else None)"

text \<open>
  A key that every object inherits is found in the copy before it is there, so it is not counted; when
  another key is then removed, the numbers of keys seem to agree, the removal is not detected, and the
  listener is not told.
\<close>

theorem removal_beside_inherited_key_missed:
  "let w = run_checks object_prototype [CObject [(J ''constructor'', Num (Fin 1)), (J ''a'', Num (Fin 2))]] init_watch
   in fst (watchCollectionInterceptor object_prototype (CObject [(J ''constructor'', Num (Fin 1))]) w) = Some (changeDetected w) \<and>
      \<not> same_collection (CObject [(J ''constructor'', Num (Fin 1)), (J ''a'', Num (Fin 2))]) (CObject [(J ''constructor'', Num (Fin 1))])"
proof -
  have "\<not> same_collection (CObject [(J ''constructor'', Num (Fin 1)), (J ''a'', Num (Fin 2))]) (CObject [(J ''constructor'', Num (Fin 1))])"
    by (auto intro!: exI [of _ "J ''a''"])
  then show ?thesis
    by (simp add: Let_def watchCollectionInterceptor_def check_object_def check_key_def count_change_def init_watch_def
        object_prototype_def changed_item_def drop_keys_def)
qed

text \<open>
  A watched value that is \<open>NaN\<close> itself counts as a change at every check: after \<open>n\<close> checks the number the
  digest compares has grown by \<open>n\<close>, so a digest, which goes on while a watch gives a new value, does not
  become stable.
\<close>

theorem watching_NaN_never_settles:
  "changeDetected (run_checks inherited (replicate n (CPrimitive (Num NaN))) w) = changeDetected w + n"
  by (induction n arbitrary: w)
    (simp_all add: watchCollectionInterceptor_def check_primitive_def strict_eq_NaN Let_def split: old_value.split)

end
