(* ===== verification/NgInjector.thy ===== *)
theory NgInjector
  imports JsValue
begin

section \<open>The injector\<close>

text \<open>
  \<open>createInjector\<close>: the services of an application, created on demand from their providers, and the
  internal injector with its cache, its marks for services under construction and the path it reports.
  Functions have their dependencies as annotations (an array or \<open>$inject\<close>; reading them off the source
  text of a function is not modelled), and their bodies only use their arguments. A provider is found under
  the name of its service; \<open>Provider\<close> is appended where the code shows that name. Constants are kept for
  the instances; that the code also finds them among the providers is not modelled.
\<close>

subsection \<open>Functions and providers\<close>

datatype inj_token = Token jstring | NoString

datatype inj_error =
    Cdep "jstring list"
  | Unpr "jstring list"
  | Itkn
  | UndefReturn jstring
  | Pget jstring
  | BadName jstring
  | UserThrow val
  | InjOverflow

record func =
  f_inject :: "inj_token list"
  f_body :: "val list \<Rightarrow> val + val" \<comment> \<open>\<open>Inl\<close> is what it throws\<close>

datatype service_getter =
    ProviderGet func            \<comment> \<open>\<open>$get\<close> of a provider\<close>
  | Enforced jstring func       \<comment> \<open>\<open>factory\<close>\<close>
  | Constructed jstring func    \<comment> \<open>\<open>service\<close>\<close>
  | Decorated service_getter func

datatype entry = Instantiating | Cached val

record injector =
  i_providers :: "jstring \<Rightarrow> service_getter option"
  i_cache :: "jstring \<Rightarrow> entry option"
  i_path :: "jstring list"

type_synonym 'a injection = "injector \<Rightarrow> (inj_error + 'a) \<times> injector"

definition bind_inj :: "'a injection \<Rightarrow> ('a \<Rightarrow> 'b injection) \<Rightarrow> 'b injection" where
  "bind_inj m f s = (case m s of (Inl e, s') \<Rightarrow> (Inl e, s') | (Inr a, s') \<Rightarrow> f a s')"

subsection \<open>Calling functions\<close>

type_synonym service_get = "jstring \<Rightarrow> jstring option \<Rightarrow> val injection"

fun injectionArgs :: "service_get \<Rightarrow> (jstring \<times> val) list \<Rightarrow> jstring option \<Rightarrow> inj_token list \<Rightarrow> val list injection" where
  "injectionArgs getService locals serviceName [] s = (Inr [], s)"
| "injectionArgs getService locals serviceName (NoString # ts) s = (Inl Itkn, s)"
| "injectionArgs getService locals serviceName (Token key # ts) s =
     bind_inj (case map_of locals key of Some v \<Rightarrow> (\<lambda>s. (Inr v, s)) | None \<Rightarrow> getService key serviceName)
       (\<lambda>v. bind_inj (injectionArgs getService locals serviceName ts) (\<lambda>vs s. (Inr (v # vs), s))) s"

definition call_body :: "func \<Rightarrow> val list \<Rightarrow> val injection" where
  "call_body f args s = (case f_body f args of Inl e \<Rightarrow> (Inl (UserThrow e), s) | Inr v \<Rightarrow> (Inr v, s))"

definition invoke :: "service_get \<Rightarrow> func \<Rightarrow> (jstring \<times> val) list \<Rightarrow> jstring option \<Rightarrow> val injection" where
  "invoke getService f locals serviceName = bind_inj (injectionArgs getService locals serviceName (f_inject f)) (call_body f)"

definition enforceReturnValue :: "jstring \<Rightarrow> val \<Rightarrow> val injection" where
  "enforceReturnValue name v s = (if v = Undef then (Inl (UndefReturn name), s) else (Inr v, s))"

text \<open>
  \<open>service\<close> is a factory that asks for \<open>$injector\<close> and instantiates the constructor; what \<open>new\<close> makes is
  given by the body.
\<close>

fun run_get :: "service_get \<Rightarrow> jstring option \<Rightarrow> service_getter \<Rightarrow> val injection" where
  "run_get getService serviceName (ProviderGet f) = invoke getService f [] serviceName"
| "run_get getService serviceName (Enforced name f) = bind_inj (invoke getService f [] None) (enforceReturnValue name)"
| "run_get getService serviceName (Constructed name f) =
     bind_inj (getService (J ''$injector'') None) (\<lambda>_.
     bind_inj (invoke getService f [] None) (enforceReturnValue name))"
| "run_get getService serviceName (Decorated g f) =
     bind_inj (run_get getService None g) (\<lambda>v. invoke getService f [(J ''$delegate'', v)] None)"

subsection \<open>getService\<close>

text \<open>\<open>providerInjector.get\<close>: on a miss the name of the caller goes to the end of the path, for the message.\<close>

definition get_provider :: "jstring \<Rightarrow> jstring option \<Rightarrow> service_getter injection" where
  "get_provider serviceName caller s =
     (case i_providers s serviceName of
        Some g \<Rightarrow> (Inr g, s)
      | None \<Rightarrow>
          (let s' = s\<lparr>i_path := i_path s @ (case caller of Some c \<Rightarrow> [c] | None \<Rightarrow> [])\<rparr>
           in (Inl (Unpr ((serviceName @ J ''Provider'') # i_path s')), s')))"

definition enter :: "jstring \<Rightarrow> injector \<Rightarrow> injector" where
  "enter name s = s\<lparr>i_path := name # i_path s, i_cache := (i_cache s)(name \<mapsto> Instantiating)\<rparr>"

definition leave_service :: "jstring \<Rightarrow> inj_error + val \<Rightarrow> injector \<Rightarrow> (inj_error + val) \<times> injector" where
  "leave_service name r s =
     (case r of
        Inr v \<Rightarrow> (Inr v, s\<lparr>i_cache := (i_cache s)(name \<mapsto> Cached v), i_path := tl (i_path s)\<rparr>)
      | Inl e \<Rightarrow>
          (Inl e, s\<lparr>i_cache := (if i_cache s name = Some Instantiating then (i_cache s)(name := None) else i_cache s),
                    i_path := tl (i_path s)\<rparr>))"

fun getService :: "nat \<Rightarrow> service_get" where
  "getService 0 serviceName caller s = (Inl InjOverflow, s)"
| "getService (Suc n) serviceName caller s =
     (case i_cache s serviceName of
        Some Instantiating \<Rightarrow> (Inl (Cdep (serviceName # i_path s)), s)
      | Some (Cached v) \<Rightarrow> (Inr v, s)
      | None \<Rightarrow>
          (case bind_inj (get_provider serviceName caller) (run_get (getService n) (Some serviceName)) (enter serviceName s) of
             (r, s') \<Rightarrow> leave_service serviceName r s'))"

definition has_service :: "jstring \<Rightarrow> injector \<Rightarrow> bool" where
  "has_service name s \<longleftrightarrow> i_providers s name \<noteq> None \<or> i_cache s name \<noteq> None"

subsection \<open>$provide\<close>

definition register :: "jstring \<Rightarrow> service_getter \<Rightarrow> injector \<Rightarrow> (inj_error + unit) \<times> injector" where
  "register name g s =
     (if name = J ''hasOwnProperty'' then (Inl (BadName name), s)
      else (Inr (), s\<lparr>i_providers := (i_providers s)(name \<mapsto> g)\<rparr>))"

text \<open>\<open>None\<close> is a provider without \<open>$get\<close>.\<close>

definition provide_provider :: "jstring \<Rightarrow> func option \<Rightarrow> injector \<Rightarrow> (inj_error + unit) \<times> injector" where
  "provide_provider name get s =
     (case get of
        Some f \<Rightarrow> register name (ProviderGet f) s
      | None \<Rightarrow> (Inl (if name = J ''hasOwnProperty'' then BadName name else Pget name), s))"

definition provide_factory :: "jstring \<Rightarrow> func \<Rightarrow> injector \<Rightarrow> (inj_error + unit) \<times> injector" where
  "provide_factory name f = register name (Enforced name f)"

definition provide_service :: "jstring \<Rightarrow> func \<Rightarrow> injector \<Rightarrow> (inj_error + unit) \<times> injector" where
  "provide_service name constructor = register name (Constructed name constructor)"

definition provide_value :: "jstring \<Rightarrow> val \<Rightarrow> injector \<Rightarrow> (inj_error + unit) \<times> injector" where
  "provide_value name v = register name (ProviderGet \<lparr>f_inject = [], f_body = (\<lambda>_. Inr v)\<rparr>)"

definition provide_constant :: "jstring \<Rightarrow> val \<Rightarrow> injector \<Rightarrow> (inj_error + unit) \<times> injector" where
  "provide_constant name v s =
     (if name = J ''hasOwnProperty'' then (Inl (BadName name), s)
      else (Inr (), s\<lparr>i_cache := (i_cache s)(name \<mapsto> Cached v)\<rparr>))"

definition provide_decorator :: "jstring \<Rightarrow> func \<Rightarrow> injector \<Rightarrow> (inj_error + unit) \<times> injector" where
  "provide_decorator serviceName decorFn s =
     (case get_provider serviceName None s of
        (Inr g, s') \<Rightarrow> (Inr (), s'\<lparr>i_providers := (i_providers s')(serviceName \<mapsto> Decorated g decorFn)\<rparr>)
      | (Inl e, s') \<Rightarrow> (Inl e, s'))"

text \<open>What \<open>createInjector\<close> sets up before it loads modules: the injector is a service itself.\<close>

definition createInjector :: "val \<Rightarrow> injector" where
  "createInjector self = \<lparr>i_providers = [J ''$injector'' \<mapsto> ProviderGet \<lparr>f_inject = [], f_body = (\<lambda>_. Inr self)\<rparr>],
     i_cache = (\<lambda>_. None), i_path = []\<rparr>"

end
