(* ===== verification/NgModules.thy ===== *)
theory NgModules
  imports NgInjector
begin

section \<open>Modules\<close>

text \<open>
  \<open>setupModuleLoader\<close> and \<open>loadModules\<close>: modules queue calls of \<open>$provide\<close> and configuration blocks, and
  an injector runs the queues of the modules it loads. Of what a module can queue the calls of \<open>$provide\<close>
  are modelled, not those of the providers of filters, directives, controllers and animations. A
  configuration function is given by the calls it makes and by what it throws or returns.
\<close>

subsection \<open>What modules queue\<close>

datatype provide_call =
    CProvider jstring "func option"
  | CFactory jstring func
  | CService jstring func
  | CValue jstring val
  | CConstant jstring val
  | CDecorator jstring func

record config_fn =
  cf_calls :: "provide_call list"
  cf_result :: "val + func option" \<comment> \<open>\<open>Inr None\<close> is a value that is no function\<close>

datatype queued = QProvide provide_call | QConfig config_fn

datatype module_ref = ModuleName jstring | ModuleFn nat config_fn

record ng_module =
  m_requires :: "module_ref list"
  m_invokeQueue :: "queued list"
  m_configBlocks :: "queued list"
  m_runBlocks :: "func list"

subsection \<open>angular.module\<close>

datatype module_error = BadModuleName | Nomod jstring

text \<open>
  The registry is an object of the language: \<open>inherited\<close> are the names it finds on \<open>Object.prototype\<close>, where
  it gives no module (\<open>None\<close>) and registers none.
\<close>

type_synonym registry = "jstring \<Rightarrow> ng_module option"

definition invokeLater :: "provide_call \<Rightarrow> ng_module \<Rightarrow> ng_module" where
  "invokeLater c m =
     (case c of
        CConstant _ _ \<Rightarrow> m\<lparr>m_invokeQueue := QProvide c # m_invokeQueue m\<rparr>
      | CDecorator _ _ \<Rightarrow> m\<lparr>m_configBlocks := m_configBlocks m @ [QProvide c]\<rparr>
      | _ \<Rightarrow> m\<lparr>m_invokeQueue := m_invokeQueue m @ [QProvide c]\<rparr>)"

definition module_config :: "config_fn \<Rightarrow> ng_module \<Rightarrow> ng_module" where
  "module_config cf m = m\<lparr>m_configBlocks := m_configBlocks m @ [QConfig cf]\<rparr>"

definition module_run :: "func \<Rightarrow> ng_module \<Rightarrow> ng_module" where
  "module_run f m = m\<lparr>m_runBlocks := m_runBlocks m @ [f]\<rparr>"

definition angular_module :: "(jstring \<Rightarrow> bool) \<Rightarrow> jstring \<Rightarrow> module_ref list option \<Rightarrow> config_fn option \<Rightarrow> registry \<Rightarrow>
    (module_error + ng_module option) \<times> registry" where
  "angular_module inherited name requires configFn modules =
     (if name = J ''hasOwnProperty'' then (Inl BadModuleName, modules)
      else
        (let redefined = (requires \<noteq> None \<and> modules name \<noteq> None)
         in case (if redefined then None else modules name) of
              Some m \<Rightarrow> (Inr (Some m), modules)
            | None \<Rightarrow>
                if \<not> redefined \<and> inherited name then (Inr None, modules)
                else (case requires of
                        None \<Rightarrow> (Inl (Nomod name), modules)
                      | Some rs \<Rightarrow>
                          (let m = \<lparr>m_requires = rs, m_invokeQueue = [], m_configBlocks = [], m_runBlocks = []\<rparr>;
                               m = (case configFn of None \<Rightarrow> m | Some cf \<Rightarrow> module_config cf m)
                           in (Inr (Some m), modules(name \<mapsto> m))))))"

subsection \<open>Running the queues\<close>

fun run_call :: "provide_call \<Rightarrow> unit injection" where
  "run_call (CProvider name get) = provide_provider name get"
| "run_call (CFactory name f) = provide_factory name f"
| "run_call (CService name f) = provide_service name f"
| "run_call (CValue name v) = provide_value name v"
| "run_call (CConstant name v) = provide_constant name v"
| "run_call (CDecorator name f) = provide_decorator name f"

fun run_calls :: "provide_call list \<Rightarrow> unit injection" where
  "run_calls [] s = (Inr (), s)"
| "run_calls (c # cs) s = bind_inj (run_call c) (\<lambda>_. run_calls cs) s"

definition run_config :: "config_fn \<Rightarrow> func option injection" where
  "run_config cf = bind_inj (run_calls (cf_calls cf))
     (\<lambda>_ s. (case cf_result cf of Inl e \<Rightarrow> Inl (UserThrow e) | Inr r \<Rightarrow> Inr r, s))"

fun runInvokeQueue :: "queued list \<Rightarrow> unit injection" where
  "runInvokeQueue [] s = (Inr (), s)"
| "runInvokeQueue (QProvide c # q) s = bind_inj (run_call c) (\<lambda>_. runInvokeQueue q) s"
| "runInvokeQueue (QConfig cf # q) s = bind_inj (run_config cf) (\<lambda>_. runInvokeQueue q) s"

subsection \<open>loadModules\<close>

datatype load_error =
    Modulerr module_ref load_error
  | ModuleError module_error
  | NotAModule
  | InjError inj_error
  | LoadOverflow

record loading =
  a_injector :: injector
  loadedModules :: "module_ref list"

definition on_injector :: "'a injection \<Rightarrow> loading \<Rightarrow> (load_error + 'a) \<times> loading" where
  "on_injector m a =
     (case m (a_injector a) of
        (Inl e, s) \<Rightarrow> (Inl (InjError e), a\<lparr>a_injector := s\<rparr>)
      | (Inr x, s) \<Rightarrow> (Inr x, a\<lparr>a_injector := s\<rparr>))"

type_synonym loader = "module_ref list \<Rightarrow> loading \<Rightarrow> (load_error + func option list) \<times> loading"

text \<open>What the run blocks of a module are, once the modules it requires are loaded.\<close>

definition load_module :: "loader \<Rightarrow> (jstring \<Rightarrow> bool) \<Rightarrow> registry \<Rightarrow> module_ref \<Rightarrow> loading \<Rightarrow> (load_error + func option list) \<times> loading" where
  "load_module load inherited modules m a =
     (case m of
        ModuleName name \<Rightarrow>
          (case fst (angular_module inherited name None None modules) of
             Inl e \<Rightarrow> (Inl (ModuleError e), a)
           | Inr None \<Rightarrow> (Inl NotAModule, a)
           | Inr (Some md) \<Rightarrow>
               (case load (m_requires md) a of
                  (Inl e, a') \<Rightarrow> (Inl e, a')
                | (Inr blocks, a') \<Rightarrow>
                    on_injector (bind_inj (runInvokeQueue (m_invokeQueue md)) (\<lambda>_.
                      bind_inj (runInvokeQueue (m_configBlocks md)) (\<lambda>_ s. (Inr (blocks @ map Some (m_runBlocks md)), s)))) a'))
      | ModuleFn _ cf \<Rightarrow> on_injector (bind_inj (run_config cf) (\<lambda>r s. (Inr [r], s))) a)"

fun loadModules :: "nat \<Rightarrow> (jstring \<Rightarrow> bool) \<Rightarrow> registry \<Rightarrow> loader" where
  "loadModules n inherited modules [] a = (Inr [], a)"
| "loadModules 0 inherited modules (m # ms) a = (Inl LoadOverflow, a)"
| "loadModules (Suc n) inherited modules (m # ms) a =
     (if m \<in> set (loadedModules a) then loadModules (Suc n) inherited modules ms a
      else
        (case load_module (loadModules n inherited modules) inherited modules m (a\<lparr>loadedModules := m # loadedModules a\<rparr>) of
           (Inl e, a') \<Rightarrow> (Inl (Modulerr m e), a')
         | (Inr blocks, a') \<Rightarrow>
             (case loadModules (Suc n) inherited modules ms a' of
                (Inl e, a'') \<Rightarrow> (Inl e, a'')
              | (Inr blocks', a'') \<Rightarrow> (Inr (blocks @ blocks'), a''))))"

text \<open>The modules given to \<open>createInjector\<close>, and then the run blocks.\<close>

fun run_blocks :: "nat \<Rightarrow> func option list \<Rightarrow> unit injection" where
  "run_blocks n [] s = (Inr (), s)"
| "run_blocks n (None # fs) s = run_blocks n fs s"
| "run_blocks n (Some f # fs) s = bind_inj (invoke (getService n) f [] None) (\<lambda>_. run_blocks n fs) s"

definition start_application :: "nat \<Rightarrow> nat \<Rightarrow> (jstring \<Rightarrow> bool) \<Rightarrow> registry \<Rightarrow> val \<Rightarrow> module_ref list \<Rightarrow> (load_error + unit) \<times> loading" where
  "start_application n k inherited modules self modulesToLoad =
     (case loadModules n inherited modules modulesToLoad \<lparr>a_injector = createInjector self, loadedModules = []\<rparr> of
        (Inl e, a) \<Rightarrow> (Inl e, a)
      | (Inr blocks, a) \<Rightarrow>
          on_injector (bind_inj (getService k (J ''$injector'') None) (\<lambda>_. run_blocks k blocks)) a)"

end
