(* ===== verification/NgInjectorInv.thy ===== *)
theory NgInjectorInv
  imports NgInjector
begin

section \<open>What the injector gives\<close>

text \<open>
  The injector against a definition of services without cache, marks and path: a service is what its
  provider makes of the services it asks for.
\<close>

subsection \<open>What a request leaves alone\<close>

definition frame :: "bool \<Rightarrow> injector \<Rightarrow> injector \<Rightarrow> bool" where
  "frame ok s s' \<longleftrightarrow> i_providers s' = i_providers s \<and>
     (\<forall>m v. i_cache s m = Some (Cached v) \<longrightarrow> i_cache s' m = Some (Cached v)) \<and>
     (\<forall>m. i_cache s' m = Some Instantiating \<longleftrightarrow> i_cache s m = Some Instantiating) \<and>
     (\<exists>rest. i_path s' = i_path s @ rest \<and> (ok \<longrightarrow> rest = []))"

definition framed :: "'a injection \<Rightarrow> bool" where
  "framed m \<longleftrightarrow> (\<forall>s. frame (is_ok (fst (m s))) s (snd (m s)))"

lemma unmoved_refl [simp]: "frame ok s s"
  by (simp add: frame_def)

lemma unmoved_trans: "frame True s t \<Longrightarrow> frame ok t u \<Longrightarrow> frame ok s u"
  by (fastforce simp: frame_def)

lemma unmoved_trans_any: "frame ok s t \<Longrightarrow> frame ok' t u \<Longrightarrow> frame False s u"
  by (fastforce simp: frame_def)

lemma frame_keeps: "frame ok s t \<Longrightarrow> i_cache s m = Some e \<Longrightarrow> i_cache t m = Some e"
  by (cases e) (simp_all add: frame_def)

lemma bind_inj_cases:
  "bind_inj m f s = (case fst (m s) of Inl e \<Rightarrow> (Inl e, snd (m s)) | Inr a \<Rightarrow> f a (snd (m s)))"
  by (simp add: bind_inj_def split: prod.split sum.split)

lemma framed_return [simp]: "framed (\<lambda>s. (r, s))"
  by (simp add: framed_def)

lemma framed_bind: "framed m \<Longrightarrow> (\<And>a. framed (f a)) \<Longrightarrow> framed (bind_inj m f)"
  unfolding framed_def
proof
  fix s
  assume m: "\<forall>s. frame (is_ok (fst (m s))) s (snd (m s))" and f: "\<And>a. \<forall>s. frame (is_ok (fst (f a s))) s (snd (f a s))"
  show "frame (is_ok (fst (bind_inj m f s))) s (snd (bind_inj m f s))"
  proof (cases "fst (m s)")
    case (Inl e)
    then show ?thesis
      using m [rule_format, of s] by (simp add: bind_inj_cases)
  next
    case (Inr a)
    then show ?thesis
      using m [rule_format, of s] f [of a, rule_format, of "snd (m s)"] by (auto simp: bind_inj_cases intro: unmoved_trans)
  qed
qed

lemma framed_call: "framed (call_body f args)" "framed (enforceReturnValue name v)"
  by (auto simp: framed_def call_body_def enforceReturnValue_def split: sum.split)

text \<open>Anything that gives services and leaves the frame can be used to call functions.\<close>

locale service_source =
  fixes get :: service_get
  assumes get_framed: "framed (get key caller)"
begin

lemma args_framed: "framed (injectionArgs get locals caller ts)"
proof (induction ts)
  case (Cons t ts)
  show ?case
  proof (cases t)
    case (Token key)
    have "framed (case map_of locals key of Some v \<Rightarrow> (\<lambda>s. (Inr v, s)) | None \<Rightarrow> get key caller)"
      using get_framed by (simp split: option.split)
    then have "framed (bind_inj (case map_of locals key of Some v \<Rightarrow> (\<lambda>s. (Inr v, s)) | None \<Rightarrow> get key caller)
        (\<lambda>v. bind_inj (injectionArgs get locals caller ts) (\<lambda>vs s. (Inr (v # vs), s))))"
      using Cons by (intro framed_bind) simp_all
    with Token show ?thesis
      by (simp add: framed_def)
  qed (simp add: framed_def)
qed (simp add: framed_def)

lemma invoke_framed: "framed (invoke get f locals caller)"
  unfolding invoke_def by (intro framed_bind args_framed framed_call)

lemma run_get_framed: "framed (run_get get caller g)"
  by (induction g arbitrary: caller) (auto intro!: framed_bind invoke_framed framed_call get_framed)

end

lemma get_provider_frame: "frame (is_ok (fst (get_provider name caller s))) s (snd (get_provider name caller s))"
  by (auto simp: get_provider_def frame_def Let_def split: option.split)

lemma getService_framed: "framed (getService n name caller)"
proof (induction n arbitrary: name caller)
  case 0
  then show ?case
    by (simp add: framed_def)
next
  case (Suc n)
  have source: "framed (run_get (getService n) c g)" for c g
    by (rule service_source.run_get_framed) (rule service_source.intro [OF Suc.IH])
  show ?case
    unfolding framed_def
  proof
    fix s
    show "frame (is_ok (fst (getService (Suc n) name caller s))) s (snd (getService (Suc n) name caller s))"
    proof (cases "i_cache s name")
      case None
      let ?m = "bind_inj (get_provider name caller) (run_get (getService n) (Some name))"
      have "framed ?m"
        using source get_provider_frame by (intro framed_bind) (simp_all add: framed_def)
      then have f: "frame (is_ok (fst (?m (enter name s)))) (enter name s) (snd (?m (enter name s)))"
        by (simp add: framed_def)
      then show ?thesis
        using None
        by (cases "?m (enter name s)"; cases "fst (?m (enter name s))") (auto simp: leave_service_def frame_def enter_def)
    next
      case (Some e)
      then show ?thesis
        by (cases e) simp_all
    qed
  qed
qed

interpretation services: service_source "getService n" for n
  by (rule service_source.intro) (rule getService_framed)

subsection \<open>The number of calls in one another\<close>

definition unbuilt :: "injector \<Rightarrow> jstring set" where
  "unbuilt s = {m. i_providers s m \<noteq> None \<and> i_cache s m = None}"

definition bounded :: "nat \<Rightarrow> 'a injection \<Rightarrow> bool" where
  "bounded k m \<longleftrightarrow> (\<forall>s. finite (dom (i_providers s)) \<and> card (unbuilt s) \<le> k \<longrightarrow> fst (m s) \<noteq> Inl InjOverflow)"

lemma unbuilt_frame:
  assumes "frame ok s t" "finite (dom (i_providers s))"
  shows "finite (dom (i_providers t)) \<and> card (unbuilt t) \<le> card (unbuilt s)"
proof -
  have "unbuilt t \<subseteq> unbuilt s"
  proof
    fix m
    assume m: "m \<in> unbuilt t"
    then have "i_cache s m = None"
      using frame_keeps [OF assms(1), of m] by (cases "i_cache s m") (auto simp: unbuilt_def)
    with m assms(1) show "m \<in> unbuilt s"
      by (simp add: unbuilt_def frame_def)
  qed
  moreover have "finite (unbuilt s)"
    using assms(2) by (auto simp: unbuilt_def dom_def intro: rev_finite_subset)
  ultimately show ?thesis
    using assms by (auto simp: frame_def intro: card_mono)
qed

lemma bounded_return [simp]: "r \<noteq> Inl InjOverflow \<Longrightarrow> bounded k (\<lambda>s. (r, s))"
  by (simp add: bounded_def)

lemma bounded_bind:
  assumes "bounded k m" "framed m" "\<And>a. bounded k (f a)"
  shows "bounded k (bind_inj m f)"
  unfolding bounded_def
proof (intro allI impI)
  fix s
  assume s: "finite (dom (i_providers s)) \<and> card (unbuilt s) \<le> k"
  have m: "fst (m s) \<noteq> Inl InjOverflow"
    using assms(1) s by (simp add: bounded_def)
  have "finite (dom (i_providers (snd (m s)))) \<and> card (unbuilt (snd (m s))) \<le> k"
    using unbuilt_frame [of _ s "snd (m s)"] assms(2) s by (fastforce simp: framed_def)
  then have "fst (f a (snd (m s))) \<noteq> Inl InjOverflow" for a
    using assms(3) by (simp add: bounded_def)
  with m show "fst (bind_inj m f s) \<noteq> Inl InjOverflow"
    by (cases "fst (m s)") (auto simp: bind_inj_cases)
qed

lemma bounded_call: "bounded k (call_body f args)" "bounded k (enforceReturnValue name v)"
  by (auto simp: bounded_def call_body_def enforceReturnValue_def split: sum.split)

lemma bounded_args:
  assumes "\<And>key. bounded k (getService n key caller)"
  shows "bounded k (injectionArgs (getService n) locals caller ts)"
proof (induction ts)
  case (Cons t ts)
  show ?case
  proof (cases t)
    case (Token key)
    let ?get = "case map_of locals key of Some v \<Rightarrow> (\<lambda>s. (Inr v, s)) | None \<Rightarrow> getService n key caller"
    have "bounded k ?get" "framed ?get"
      using assms getService_framed by (simp_all split: option.split)
    then have "bounded k (bind_inj ?get (\<lambda>v. bind_inj (injectionArgs (getService n) locals caller ts) (\<lambda>vs s. (Inr (v # vs), s))))"
      using Cons services.args_framed by (intro bounded_bind) simp_all
    with Token show ?thesis
      by (simp add: bounded_def)
  qed (simp add: bounded_def)
qed (simp add: bounded_def)

lemma bounded_run_get:
  assumes "\<And>key caller. bounded k (getService n key caller)"
  shows "bounded k (run_get (getService n) c g)"
proof -
  have inv: "bounded k (invoke (getService n) f locals c)" for f locals c
    unfolding invoke_def by (intro bounded_bind bounded_args services.args_framed bounded_call assms)
  show ?thesis
    by (induction g arbitrary: c)
      (auto intro!: bounded_bind inv bounded_call services.invoke_framed services.run_get_framed services.get_framed assms)
qed

lemma fst_leave [simp]: "fst (leave_service name r s) = r"
  by (cases r) (simp_all add: leave_service_def)

text \<open>A request for a service that is to be built.\<close>

lemma getService_build:
  assumes "i_cache s name = None" "i_providers s name = Some g"
  shows "getService (Suc n) name caller s =
    leave_service name (fst (run_get (getService n) (Some name) g (enter name s))) (snd (run_get (getService n) (Some name) g (enter name s)))"
proof -
  have "get_provider name caller (enter name s) = (Inr g, enter name s)"
    using assms(2) by (simp add: get_provider_def enter_def)
  then show ?thesis
    using assms(1) by (simp add: bind_inj_def split: prod.split)
qed

lemma getService_bounded: "bounded n (getService (Suc n) name caller)"
proof (induction n arbitrary: name caller)
  case 0
  show ?case
    unfolding bounded_def
  proof (intro allI impI)
    fix s
    assume s: "finite (dom (i_providers s)) \<and> card (unbuilt s) \<le> 0"
    then have "finite (unbuilt s)"
      by (auto simp: unbuilt_def dom_def intro: rev_finite_subset)
    with s have "name \<notin> unbuilt s"
      by auto
    then have "i_cache s name = None \<Longrightarrow> i_providers s name = None"
      by (simp add: unbuilt_def)
    then show "fst (getService (Suc 0) name caller s) \<noteq> Inl InjOverflow"
      by (cases "i_cache s name")
        (auto simp: bind_inj_def get_provider_def enter_def leave_service_def Let_def split: entry.split)
  qed
next
  case (Suc n)
  show ?case
    unfolding bounded_def
  proof (intro allI impI)
    fix s
    assume s: "finite (dom (i_providers s)) \<and> card (unbuilt s) \<le> Suc n"
    show "fst (getService (Suc (Suc n)) name caller s) \<noteq> Inl InjOverflow"
    proof (cases "i_cache s name = None \<and> i_providers s name \<noteq> None")
      case False
      then show ?thesis
        by (cases "i_cache s name")
          (auto simp: bind_inj_def get_provider_def enter_def leave_service_def Let_def split: entry.split)
    next
      case True
      then obtain g where g: "i_providers s name = Some g" "i_cache s name = None"
        by auto
      have e: "unbuilt (enter name s) = unbuilt s - {name}" and "name \<in> unbuilt s"
        using g by (auto simp: unbuilt_def enter_def)
      then have "card (unbuilt s - {name}) \<le> n"
        using s by (simp add: le_diff_conv)
      then have "card (unbuilt (enter name s)) \<le> n" "finite (dom (i_providers (enter name s)))"
        using s unfolding e by (simp_all add: enter_def)
      moreover have "bounded n (run_get (getService (Suc n)) (Some name) g)"
        by (rule bounded_run_get [OF Suc.IH])
      ultimately have "fst (run_get (getService (Suc n)) (Some name) g (enter name s)) \<noteq> Inl InjOverflow"
        unfolding bounded_def by blast
      then show ?thesis
        unfolding getService_build [OF g(2,1)] by simp
    qed
  qed
qed

subsection \<open>Services without a cache\<close>

text \<open>
  \<open>base\<close> are the constants. The reference definition asks for each dependency again; \<open>n\<close> bounds the depth.
\<close>

definition pure_get :: "(jstring \<Rightarrow> inj_error + val) \<Rightarrow> service_get" where
  "pure_get E key caller s = (E key, s)"

definition idle_injector :: injector where
  "idle_injector = \<lparr>i_providers = (\<lambda>_. None), i_cache = (\<lambda>_. None), i_path = []\<rparr>"

fun eval_service :: "(jstring \<Rightarrow> service_getter option) \<Rightarrow> (jstring \<Rightarrow> val option) \<Rightarrow> nat \<Rightarrow> jstring \<Rightarrow> inj_error + val" where
  "eval_service providers base 0 = (\<lambda>name. Inl InjOverflow)"
| "eval_service providers base (Suc n) = (\<lambda>name.
     case base name of
       Some v \<Rightarrow> Inr v
     | None \<Rightarrow>
         (case providers name of
            None \<Rightarrow> Inl (Unpr [name])
          | Some g \<Rightarrow> fst (run_get (pure_get (eval_service providers base n)) None g idle_injector)))"

definition pure :: "'a injection \<Rightarrow> bool" where
  "pure m \<longleftrightarrow> (\<exists>r. \<forall>s. m s = (r, s))"

definition yields :: "'a injection \<Rightarrow> 'a \<Rightarrow> bool" where
  "yields m v \<longleftrightarrow> (\<forall>s. m s = (Inr v, s))"

lemma pure_return [simp]: "pure (\<lambda>s. (r, s))"
  by (simp add: pure_def)

lemma yields_return [simp]: "yields (\<lambda>s. (r, s)) v \<longleftrightarrow> r = Inr v"
  by (simp add: yields_def)

lemma pure_bind: "pure m \<Longrightarrow> (\<And>a. pure (f a)) \<Longrightarrow> pure (bind_inj m f)"
proof -
  assume "pure m" and f: "\<And>a. pure (f a)"
  then obtain r where r: "\<forall>s. m s = (r, s)"
    by (auto simp: pure_def)
  show "pure (bind_inj m f)"
  proof (cases r)
    case (Inl e)
    with r show ?thesis
      by (simp add: pure_def bind_inj_def)
  next
    case (Inr a)
    with r f [of a] show ?thesis
      by (simp add: pure_def bind_inj_def)
  qed
qed

lemma yields_bind:
  assumes "pure m"
  shows "yields (bind_inj m f) v \<longleftrightarrow> (\<exists>a. yields m a \<and> yields (f a) v)"
proof -
  obtain r where r: "\<forall>s. m s = (r, s)"
    using assms by (auto simp: pure_def)
  then show ?thesis
    by (cases r) (auto simp: yields_def bind_inj_def)
qed

lemma yields_fst: "pure m \<Longrightarrow> yields m v \<longleftrightarrow> fst (m s) = Inr v"
  by (auto simp: pure_def yields_def)

lemma pure_call: "pure (call_body f args)" "pure (enforceReturnValue name v)"
  by (cases "f_body f args"; simp add: pure_def call_body_def) (cases "v = Undef"; simp add: pure_def enforceReturnValue_def)

lemma pure_args: "pure (injectionArgs (pure_get E) locals caller ts)"
proof (induction ts)
  case (Cons t ts)
  show ?case
  proof (cases t)
    case (Token key)
    let ?get = "case map_of locals key of Some v \<Rightarrow> (\<lambda>s. (Inr v, s)) | None \<Rightarrow> pure_get E key caller"
    have "pure ?get"
      by (simp add: pure_def pure_get_def split: option.split)
    then have "pure (bind_inj ?get (\<lambda>v. bind_inj (injectionArgs (pure_get E) locals caller ts) (\<lambda>vs s. (Inr (v # vs), s))))"
      using Cons by (intro pure_bind) simp_all
    with Token show ?thesis
      by (simp add: pure_def)
  qed (simp add: pure_def)
qed (simp add: pure_def)

lemma pure_invoke: "pure (invoke (pure_get E) f locals caller)"
  unfolding invoke_def by (intro pure_bind pure_args pure_call)

lemma pure_get_pure: "pure (pure_get E key caller)"
  by (simp add: pure_def pure_get_def)

lemma pure_run_get: "pure (run_get (pure_get E) caller g)"
  by (induction g arbitrary: caller) (auto intro!: pure_bind pure_invoke pure_call pure_get_pure)

lemma args_any_caller: "injectionArgs (pure_get E) locals c ts = injectionArgs (pure_get E) locals c' ts"
proof (induction ts)
  case (Cons t ts)
  have get: "pure_get E key c = pure_get E key c'" for key
    by (rule ext) (simp add: pure_get_def)
  show ?case
  proof (rule ext, cases t)
    fix s key
    assume "t = Token key"
    then show "injectionArgs (pure_get E) locals c (t # ts) s = injectionArgs (pure_get E) locals c' (t # ts) s"
      using get [of key] Cons by (cases "map_of locals key") simp_all
  qed simp
qed (rule ext, simp)

lemma run_get_any_caller: "run_get (pure_get E) c g = run_get (pure_get E) c' g"
  by (cases g) (simp_all add: invoke_def args_any_caller [of E _ c _ c'])

lemma eval_yields:
  assumes "base name = None" "providers name = Some g"
  shows "eval_service providers base (Suc n) name = Inr v \<longleftrightarrow> yields (run_get (pure_get (eval_service providers base n)) c g) v"
  using assms by (simp add: yields_fst [OF pure_run_get, of _ _ _ _ idle_injector] run_get_any_caller [of _ c g None])

subsection \<open>Greater depth gives no other services\<close>

definition below :: "(jstring \<Rightarrow> inj_error + val) \<Rightarrow> (jstring \<Rightarrow> inj_error + val) \<Rightarrow> bool" where
  "below E E' \<longleftrightarrow> (\<forall>k v. E k = Inr v \<longrightarrow> E' k = Inr v)"

lemma yields_bind_mono:
  "pure m \<Longrightarrow> pure m' \<Longrightarrow> (\<And>a. yields m a \<Longrightarrow> yields m' a) \<Longrightarrow> (\<And>a v. yields (f a) v \<Longrightarrow> yields (f' a) v) \<Longrightarrow>
   yields (bind_inj m f) v \<Longrightarrow> yields (bind_inj m' f') v"
  by (auto simp: yields_bind)

lemma get_mono: "below E E' \<Longrightarrow> yields (pure_get E key c) v \<Longrightarrow> yields (pure_get E' key c) v"
  by (auto simp: below_def yields_def pure_get_def)

lemma args_mono:
  assumes "below E E'"
  shows "yields (injectionArgs (pure_get E) locals c ts) vs \<Longrightarrow> yields (injectionArgs (pure_get E') locals c ts) vs"
proof (induction ts arbitrary: vs)
  case (Cons t ts)
  show ?case
  proof (cases t)
    case (Token key)
    let ?get = "\<lambda>E. case map_of locals key of Some v \<Rightarrow> (\<lambda>s. (Inr v, s)) | None \<Rightarrow> pure_get E key c"
    let ?rest = "\<lambda>E v. bind_inj (injectionArgs (pure_get E) locals c ts) (\<lambda>vs s. (Inr (v # vs), s))"
    have eq: "yields (injectionArgs (pure_get E) locals c (t # ts)) ws \<longleftrightarrow> yields (bind_inj (?get E) (?rest E)) ws" for E ws
      by (simp add: Token yields_def)
    have p: "pure (?get E)" for E
      using pure_get_pure by (simp split: option.split)
    show ?thesis
      using Cons.prems unfolding eq
      by (rule yields_bind_mono [OF p p, rotated 2])
        (use get_mono [OF assms] Cons.IH pure_args in \<open>auto simp: yields_bind split: option.splits\<close>)
  qed (use Cons.prems in \<open>simp add: yields_def\<close>)
qed (simp add: yields_def)

lemma invoke_mono:
  "below E E' \<Longrightarrow> yields (invoke (pure_get E) f locals c) v \<Longrightarrow> yields (invoke (pure_get E') f locals c) v"
  unfolding invoke_def by (rule yields_bind_mono [OF pure_args pure_args]) (auto intro: args_mono)

lemma run_get_mono:
  "below E E' \<Longrightarrow> yields (run_get (pure_get E) c g) v \<Longrightarrow> yields (run_get (pure_get E') c g) v"
proof (induction g arbitrary: c v)
  case (Constructed name f)
  then show ?case
    by (auto simp: yields_bind pure_get_pure pure_invoke pure_bind pure_call intro: get_mono invoke_mono)
next
  case (Decorated g f)
  then show ?case
    by (auto simp: yields_bind pure_run_get intro: invoke_mono)
qed (auto simp: yields_bind pure_invoke intro: invoke_mono)

lemma eval_mono: "d \<le> d' \<Longrightarrow> below (eval_service providers base d) (eval_service providers base d')"
proof (induction d arbitrary: d')
  case 0
  then show ?case
    by (simp add: below_def)
next
  case (Suc d)
  then obtain e where e: "d' = Suc e" "d \<le> e"
    by (cases d') auto
  show ?case
    unfolding below_def
  proof (intro allI impI)
    fix k v
    assume k: "eval_service providers base (Suc d) k = Inr v"
    show "eval_service providers base d' k = Inr v"
    proof (cases "base k = None \<and> providers k \<noteq> None")
      case True
      then obtain g where g: "base k = None" "providers k = Some g"
        by auto
      show ?thesis
        using k run_get_mono [OF Suc.IH [OF e(2)], of None g v]
          eval_yields [of base k providers g _ v None, OF g] e(1) by simp
    next
      case False
      with k e(1) show ?thesis
        by (auto split: option.splits)
    qed
  qed
qed

subsection \<open>The cache holds services\<close>

definition consistent :: "(jstring \<Rightarrow> service_getter option) \<Rightarrow> (jstring \<Rightarrow> val option) \<Rightarrow> injector \<Rightarrow> bool" where
  "consistent providers base s \<longleftrightarrow> i_providers s = providers \<and>
     (\<forall>m v. base m = Some v \<longrightarrow> i_cache s m = Some (Cached v)) \<and>
     (\<forall>m v. i_cache s m = Some (Cached v) \<longrightarrow> (\<exists>d. eval_service providers base d m = Inr v))"

text \<open>A request keeps the cache consistent, and what it returns is what the definition gives at some depth.\<close>

definition sound :: "(jstring \<Rightarrow> service_getter option) \<Rightarrow> (jstring \<Rightarrow> val option) \<Rightarrow> 'a injection \<Rightarrow> (nat \<Rightarrow> 'a injection) \<Rightarrow> bool" where
  "sound providers base m M \<longleftrightarrow> (\<forall>s. consistent providers base s \<longrightarrow>
     consistent providers base (snd (m s)) \<and> (\<forall>v. fst (m s) = Inr v \<longrightarrow> (\<exists>d. yields (M d) v)))"

definition rising :: "(nat \<Rightarrow> 'a injection) \<Rightarrow> bool" where
  "rising M \<longleftrightarrow> (\<forall>d. pure (M d)) \<and> (\<forall>d d' v. d \<le> d' \<longrightarrow> yields (M d) v \<longrightarrow> yields (M d') v)"

lemma sound_bind:
  assumes "sound providers base m M" "rising M" "\<And>a. sound providers base (f a) (F a)" "\<And>a. rising (F a)"
  shows "sound providers base (bind_inj m f) (\<lambda>d. bind_inj (M d) (\<lambda>a. F a d))"
  unfolding sound_def
proof (intro allI impI conjI)
  fix s
  assume s: "consistent providers base s"
  have m: "consistent providers base (snd (m s))"
    using assms(1) s by (simp add: sound_def)
  have f: "consistent providers base (snd (f a (snd (m s))))" for a
    using assms(3) m by (simp add: sound_def)
  show "consistent providers base (snd (bind_inj m f s))"
    using m f by (cases "fst (m s)") (simp_all add: bind_inj_cases)
  fix v
  assume "fst (bind_inj m f s) = Inr v"
  then obtain a where a: "fst (m s) = Inr a" "fst (f a (snd (m s))) = Inr v"
    by (cases "fst (m s)") (auto simp: bind_inj_cases)
  obtain d e where "yields (M d) a" "yields (F a e) v"
    using assms(1,3) a s m unfolding sound_def by meson
  then have "yields (M (max d e)) a" "yields (F a (max d e)) v"
    using assms(2,4) unfolding rising_def by (meson max.cobounded1 max.cobounded2)+
  then show "\<exists>d. yields (bind_inj (M d) (\<lambda>a. F a d)) v"
    using assms(2) by (auto simp: yields_bind rising_def)
qed

lemma rising_const: "pure m \<Longrightarrow> rising (\<lambda>_. m)"
  by (simp add: rising_def)

lemma sound_const: "pure m \<Longrightarrow> sound providers base m (\<lambda>_. m)"
proof -
  assume "pure m"
  then obtain r where "\<forall>s. m s = (r, s)"
    by (auto simp: pure_def)
  then show ?thesis
    by (simp add: sound_def yields_def)
qed

lemma sound_cong: "sound providers base m M \<Longrightarrow> (\<And>d v. yields (M d) v \<Longrightarrow> yields (M' d) v) \<Longrightarrow> sound providers base m M'"
  unfolding sound_def by meson

lemma rising_pure_get: "rising (\<lambda>d. pure_get (eval_service providers base d) key c)"
  by (auto simp: rising_def pure_get_pure intro: get_mono eval_mono)

lemma rising_invoke: "rising (\<lambda>d. invoke (pure_get (eval_service providers base d)) f locals c)"
  by (auto simp: rising_def pure_invoke intro: invoke_mono eval_mono)

lemma rising_args: "rising (\<lambda>d. injectionArgs (pure_get (eval_service providers base d)) locals c ts)"
  by (auto simp: rising_def pure_args intro: args_mono eval_mono)

lemma rising_run_get: "rising (\<lambda>d. run_get (pure_get (eval_service providers base d)) c g)"
  by (auto simp: rising_def pure_run_get intro: run_get_mono eval_mono)

lemma rising_bind_const:
  assumes "rising M" "\<And>a. pure (f a)"
  shows "rising (\<lambda>d. bind_inj (M d) f)"
proof -
  have "pure (M d)" "d \<le> d' \<Longrightarrow> yields (M d) a \<Longrightarrow> yields (M d') a" for d d' a
    using assms(1) by (simp_all add: rising_def)
  then show ?thesis
    using assms(2) unfolding rising_def by (meson pure_bind yields_bind)
qed

locale sound_source = service_source +
  fixes providers :: "jstring \<Rightarrow> service_getter option" and base :: "jstring \<Rightarrow> val option"
  assumes get_sound: "sound providers base (get key caller) (\<lambda>d. pure_get (eval_service providers base d) key caller)"
begin

lemma args_sound:
  "sound providers base (injectionArgs get locals caller ts) (\<lambda>d. injectionArgs (pure_get (eval_service providers base d)) locals caller ts)"
proof (induction ts)
  case (Cons t ts)
  show ?case
  proof (cases t)
    case (Token key)
    let ?E = "eval_service providers base"
    let ?get = "\<lambda>g. case map_of locals key of Some v \<Rightarrow> (\<lambda>s. (Inr v, s)) | None \<Rightarrow> g key caller"
    have s: "sound providers base (?get get) (\<lambda>d. ?get (pure_get (?E d)))" "rising (\<lambda>d. ?get (pure_get (?E d)))"
      by (cases "map_of locals key"; simp add: get_sound rising_pure_get sound_const rising_const)+
    have r: "sound providers base (bind_inj (injectionArgs get locals caller ts) (\<lambda>vs s. (Inr (v # vs), s)))
        (\<lambda>d. bind_inj (injectionArgs (pure_get (?E d)) locals caller ts) (\<lambda>vs s. (Inr (v # vs), s)))" for v
      using Cons sound_bind [OF _ rising_args, of providers base _ providers base locals caller ts "\<lambda>vs s. (Inr (v # vs), s)" "\<lambda>vs d s. (Inr (v # vs), s)"]
      by (simp add: sound_const rising_const)
    have "rising (\<lambda>d. bind_inj (injectionArgs (pure_get (?E d)) locals caller ts) (\<lambda>vs s. (Inr (v # vs), s)))" for v
      by (intro rising_bind_const rising_args) simp
    from sound_bind [OF s r this] Token show ?thesis
      by (simp add: sound_def yields_def)
  qed (simp_all add: sound_def)
qed (simp add: sound_def yields_def)

lemma invoke_sound:
  "sound providers base (invoke get f locals caller) (\<lambda>d. invoke (pure_get (eval_service providers base d)) f locals caller)"
  unfolding invoke_def by (intro sound_bind args_sound rising_args sound_const rising_const pure_call)

lemma run_get_sound: "sound providers base (run_get get caller g) (\<lambda>d. run_get (pure_get (eval_service providers base d)) caller g)"
proof (induction g arbitrary: caller)
  case (ProviderGet f)
  then show ?case
    using invoke_sound by simp
next
  case (Enforced name f)
  then show ?case
    unfolding run_get.simps by (intro sound_bind invoke_sound rising_invoke sound_const rising_const pure_call)
next
  case (Constructed name f)
  have "rising (\<lambda>d. bind_inj (invoke (pure_get (eval_service providers base d)) f [] None) (enforceReturnValue name))"
    by (intro rising_bind_const rising_invoke pure_call)
  then show ?case
    unfolding run_get.simps
    by (intro sound_bind get_sound rising_pure_get invoke_sound rising_invoke sound_const rising_const pure_call)
next
  case (Decorated g f)
  then show ?case
    unfolding run_get.simps by (intro sound_bind rising_run_get invoke_sound rising_invoke)
qed

end

text \<open>Where nothing under construction has a service of depth \<open>d\<close>, what the definition gives is found.\<close>

definition ready :: "(jstring \<Rightarrow> service_getter option) \<Rightarrow> (jstring \<Rightarrow> val option) \<Rightarrow> nat \<Rightarrow> injector \<Rightarrow> bool" where
  "ready providers base d s \<longleftrightarrow> consistent providers base s \<and>
     (\<forall>k. i_cache s k = Some Instantiating \<longrightarrow> \<not> is_ok (eval_service providers base d k))"

definition complete :: "(jstring \<Rightarrow> service_getter option) \<Rightarrow> (jstring \<Rightarrow> val option) \<Rightarrow> nat \<Rightarrow> 'a injection \<Rightarrow> 'a injection \<Rightarrow> bool" where
  "complete providers base d m M \<longleftrightarrow> (\<forall>s v. ready providers base d s \<longrightarrow> yields M v \<longrightarrow> fst (m s) = Inr v)"

lemma ready_step:
  assumes "framed m" "sound providers base m M'" "ready providers base d s"
  shows "ready providers base d (snd (m s))"
proof -
  have "frame (is_ok (fst (m s))) s (snd (m s))" "consistent providers base (snd (m s))"
    using assms by (simp_all add: framed_def sound_def ready_def)
  then show ?thesis
    using assms(3) by (simp add: ready_def frame_def)
qed

lemma complete_bind:
  assumes "framed m" "sound providers base m M'" "complete providers base d m M" "pure M"
    and f: "\<And>a. complete providers base d (f a) (F a)"
  shows "complete providers base d (bind_inj m f) (bind_inj M F)"
  unfolding complete_def [of providers base d "bind_inj m f"]
proof (intro allI impI)
  fix s v
  assume s: "ready providers base d s" and y: "yields (bind_inj M F) v"
  obtain a where a: "yields M a" "yields (F a) v"
    using iffD1 [OF yields_bind [OF assms(4)] y] by (elim exE conjE)
  have m: "fst (m s) = Inr a"
    using assms(3) s a(1) by (simp add: complete_def)
  have "ready providers base d (snd (m s))"
    by (rule ready_step [OF assms(1,2) s])
  then have "fst (f a (snd (m s))) = Inr v"
    using f [of a] a(2) by (simp add: complete_def)
  with m show "fst (bind_inj m f s) = Inr v"
    by (simp add: bind_inj_cases)
qed

lemma complete_const: "pure m \<Longrightarrow> complete providers base d m m"
  by (simp add: complete_def yields_def)

locale complete_source = sound_source +
  fixes depth :: nat
  assumes get_complete: "complete providers base depth (get key caller) (pure_get (eval_service providers base depth) key caller)"
begin

lemma args_complete:
  "complete providers base depth (injectionArgs get locals caller ts) (injectionArgs (pure_get (eval_service providers base depth)) locals caller ts)"
proof (induction ts)
  case (Cons t ts)
  show ?case
  proof (cases t)
    case (Token key)
    let ?E = "eval_service providers base"
    let ?get = "\<lambda>g. case map_of locals key of Some v \<Rightarrow> (\<lambda>s. (Inr v, s)) | None \<Rightarrow> g key caller"
    have g: "framed (?get get)" "sound providers base (?get get) (\<lambda>d. ?get (pure_get (?E d)))" "pure (?get (pure_get (?E depth)))"
      "complete providers base depth (?get get) (?get (pure_get (?E depth)))"
      by (cases "map_of locals key"; simp add: get_framed get_sound get_complete sound_const complete_const pure_get_pure)+
    have "complete providers base depth (bind_inj (injectionArgs get locals caller ts) (\<lambda>vs s. (Inr (v # vs), s)))
        (bind_inj (injectionArgs (pure_get (?E depth)) locals caller ts) (\<lambda>vs s. (Inr (v # vs), s)))" for v
      by (rule complete_bind [OF args_framed args_sound Cons pure_args complete_const]) simp
    from complete_bind [OF g(1,2,4,3) this] Token show ?thesis
      by (simp add: complete_def yields_def)
  qed (simp_all add: complete_def yields_def)
qed (simp add: complete_def yields_def)

lemma invoke_complete:
  "complete providers base depth (invoke get f locals caller) (invoke (pure_get (eval_service providers base depth)) f locals caller)"
  unfolding invoke_def by (rule complete_bind [OF args_framed args_sound args_complete pure_args complete_const [OF pure_call(1)]])

lemma run_get_complete:
  "complete providers base depth (run_get get caller g) (run_get (pure_get (eval_service providers base depth)) caller g)"
proof (induction g arbitrary: caller)
  case (ProviderGet f)
  then show ?case
    using invoke_complete by simp
next
  case (Enforced name f)
  show ?case
    unfolding run_get.simps
    by (rule complete_bind [OF invoke_framed invoke_sound invoke_complete pure_invoke complete_const [OF pure_call(2)]])
next
  case (Constructed name f)
  show ?case
    unfolding run_get.simps
    by (rule complete_bind [OF get_framed get_sound get_complete pure_get_pure
          complete_bind [OF invoke_framed invoke_sound invoke_complete pure_invoke complete_const [OF pure_call(2)]]])
next
  case (Decorated g f)
  show ?case
    unfolding run_get.simps by (rule complete_bind [OF run_get_framed run_get_sound Decorated pure_run_get invoke_complete])
qed

end

subsection \<open>getService gives the services of the definition\<close>

lemma leave_ok: "leave_service name (Inr v) t = (Inr v, t\<lparr>i_cache := (i_cache t)(name \<mapsto> Cached v), i_path := tl (i_path t)\<rparr>)"
  by (simp add: leave_service_def)

lemma leave_failed:
  "snd (leave_service name (Inl e) t) =
     t\<lparr>i_cache := (if i_cache t name = Some Instantiating then (i_cache t)(name := None) else i_cache t), i_path := tl (i_path t)\<rparr>"
  by (simp add: leave_service_def)

lemma consistent_not_base: "consistent providers base s \<Longrightarrow> i_cache s name \<noteq> Some (Cached v) \<Longrightarrow> base name \<noteq> Some v"
  by (auto simp: consistent_def)

lemma consistent_enter:
  assumes "consistent providers base s" "i_cache s name = None"
  shows "consistent providers base (enter name s)"
proof -
  have "base name = None"
    using consistent_not_base [OF assms(1), of name] assms(2) by (cases "base name") auto
  with assms show ?thesis
    by (auto simp: consistent_def enter_def)
qed

lemma consistent_leave:
  assumes "consistent providers base t" "base name = None"
    and "\<And>v. r = Inr v \<Longrightarrow> \<exists>d. eval_service providers base d name = Inr v"
  shows "consistent providers base (snd (leave_service name r t))"
proof (cases r)
  case (Inl e)
  then show ?thesis
    using assms(1,2) by (auto simp: leave_failed consistent_def)
next
  case (Inr v)
  then show ?thesis
    using assms by (auto simp: leave_ok consistent_def)
qed

lemma get_unknown:
  assumes "i_cache s name = None" "i_providers s name = None"
  shows "getService (Suc n) name caller s =
    (let rest = i_path s @ (case caller of Some c \<Rightarrow> [c] | None \<Rightarrow> [])
     in (Inl (Unpr ((name @ J ''Provider'') # name # rest)), s\<lparr>i_path := rest\<rparr>))"
proof -
  have "(i_cache s)(name := None) = i_cache s"
    using assms(1) by auto
  then show ?thesis
    using assms by (cases s) (simp add: bind_inj_def get_provider_def enter_def Let_def leave_service_def)
qed

lemma getService_sound:
  "sound providers base (getService n key caller) (\<lambda>d. pure_get (eval_service providers base d) key caller)"
proof (induction n arbitrary: key caller)
  case 0
  show ?case
    by (simp add: sound_def)
next
  case (Suc n)
  have source: "sound_source (getService n) providers base"
    by (intro sound_source.intro service_source.intro getService_framed sound_source_axioms.intro Suc.IH)
  have got: "yields (pure_get E key caller) v \<longleftrightarrow> E key = Inr v" for E v
    by (simp add: yields_def pure_get_def)
  show ?case
    unfolding sound_def got
  proof (intro allI impI)
    fix s
    assume s: "consistent providers base s"
    let ?get = "getService (Suc n) key caller s"
    show "consistent providers base (snd ?get) \<and> (\<forall>v. fst ?get = Inr v \<longrightarrow> (\<exists>d. eval_service providers base d key = Inr v))"
    proof (cases "i_cache s key")
      case (Some e)
      with s show ?thesis
        by (cases e) (auto simp: consistent_def)
    next
      case None
      then have b: "base key = None"
        using consistent_not_base [OF s] by (cases "base key") auto
      show ?thesis
      proof (cases "providers key")
        case unknown: None
        then have p: "i_providers s key = None"
          using s by (simp add: consistent_def)
        with None s show ?thesis
          unfolding get_unknown [OF None p] by (simp add: consistent_def Let_def)
      next
        case (Some g)
        then have p: "i_providers s key = Some g"
          using s by (simp add: consistent_def)
        let ?run = "run_get (getService n) (Some key) g (enter key s)"
        have run: "consistent providers base (snd ?run)"
          "\<forall>v. fst ?run = Inr v \<longrightarrow> (\<exists>d. yields (run_get (pure_get (eval_service providers base d)) (Some key) g) v)"
          using sound_source.run_get_sound [OF source, of "Some key" g] consistent_enter [OF s None]
          by (simp_all add: sound_def)
        have e: "\<exists>d. eval_service providers base d key = Inr v" if "fst ?run = Inr v" for v
          using run(2) that eval_yields [of base key providers g _ v "Some key", OF b Some] by blast
        show ?thesis
          unfolding getService_build [OF None p]
          using consistent_leave [OF run(1) b e] e by simp
      qed
    qed
  qed
qed

lemma ready_Suc: "ready providers base (Suc d) s \<Longrightarrow> ready providers base d s"
proof -
  assume r: "ready providers base (Suc d) s"
  have "is_ok (eval_service providers base (Suc d) k)" if "is_ok (eval_service providers base d k)" for k
    using that eval_mono [of d "Suc d" providers base] by (cases "eval_service providers base d k") (auto simp: below_def simp del: eval_service.simps)
  with r show ?thesis
    unfolding ready_def by metis
qed

lemma eval_same: "eval_service providers base d k = Inr v \<Longrightarrow> eval_service providers base d' k = Inr w \<Longrightarrow> v = w"
  using eval_mono [of d "max d d'" providers base] eval_mono [of d' "max d d'" providers base]
  unfolding below_def by (metis max.cobounded1 max.cobounded2 sum.inject(2))

lemma getService_complete:
  "d \<le> n \<Longrightarrow> complete providers base d (getService n key caller) (pure_get (eval_service providers base d) key caller)"
proof (induction d arbitrary: n key caller)
  case 0
  show ?case
    by (simp add: complete_def yields_def pure_get_def)
next
  case (Suc d)
  then obtain m where m: "n = Suc m" "d \<le> m"
    by (cases n) auto
  have source: "complete_source (getService m) providers base d"
    by (intro complete_source.intro sound_source.intro service_source.intro getService_framed
        sound_source_axioms.intro getService_sound complete_source_axioms.intro Suc.IH [OF m(2)])
  show ?case
    unfolding complete_def
  proof (intro allI impI)
    fix s v
    assume s: "ready providers base (Suc d) s" and "yields (pure_get (eval_service providers base (Suc d)) key caller) v"
    then have v: "eval_service providers base (Suc d) key = Inr v"
      by (simp add: yields_def pure_get_def)
    have c: "consistent providers base s"
      using s by (simp add: ready_def)
    show "fst (getService n key caller s) = Inr v"
    proof (cases "i_cache s key")
      case (Some e)
      show ?thesis
      proof (cases e)
        case Instantiating
        with Some s have "\<not> is_ok (eval_service providers base (Suc d) key)"
          by (simp add: ready_def del: eval_service.simps)
        with v show ?thesis
          by (simp del: eval_service.simps)
      next
        case (Cached w)
        then have "\<exists>d'. eval_service providers base d' key = Inr w"
          using Some c by (simp add: consistent_def)
        then obtain d' where "eval_service providers base d' key = Inr w" ..
        then have "w = v"
          using v by (rule eval_same)
        with Some Cached m show ?thesis
          by simp
      qed
    next
      case None
      then have b: "base key = None"
        using consistent_not_base [OF c] by (cases "base key") auto
      then obtain g where g: "providers key = Some g"
        using v by (cases "providers key") auto
      then have p: "i_providers s key = Some g"
        using c by (simp add: consistent_def)
      show ?thesis
      proof (cases "is_ok (eval_service providers base d key)")
        case True
        then obtain w where w: "eval_service providers base d key = Inr w"
          by (cases "eval_service providers base d key") auto
        then have "yields (pure_get (eval_service providers base d) key caller) w"
          by (simp add: yields_def pure_get_def)
        moreover have "complete providers base d (getService n key caller) (pure_get (eval_service providers base d) key caller)"
          using Suc.IH m by simp
        ultimately show ?thesis
          using ready_Suc [OF s] eval_same [OF w v] by (simp add: complete_def)
      next
        case False
        have "ready providers base d (enter key s)"
          using ready_Suc [OF s] False consistent_enter [OF c None] by (simp add: ready_def enter_def)
        moreover have "yields (run_get (pure_get (eval_service providers base d)) (Some key) g) v"
          using v eval_yields [of base key providers g d v "Some key", OF b g] by simp
        ultimately have "fst (run_get (getService m) (Some key) g (enter key s)) = Inr v"
          using complete_source.run_get_complete [OF source, of "Some key" g] by (simp add: complete_def)
        then show ?thesis
          unfolding m(1) getService_build [OF None p] by simp
      qed
    qed
  qed
qed

subsection \<open>More fuel changes nothing\<close>

definition agree :: "'a injection \<Rightarrow> 'a injection \<Rightarrow> bool" where
  "agree m m' \<longleftrightarrow> (\<forall>s. fst (m s) \<noteq> Inl InjOverflow \<longrightarrow> m' s = m s)"

lemma agree_refl [simp]: "agree m m"
  by (simp add: agree_def)

lemma agree_bind:
  assumes "agree m m'" "\<And>a. agree (f a) (f' a)"
  shows "agree (bind_inj m f) (bind_inj m' f')"
  unfolding agree_def
proof (intro allI impI)
  fix s
  assume ok: "fst (bind_inj m f s) \<noteq> Inl InjOverflow"
  show "bind_inj m' f' s = bind_inj m f s"
  proof (cases "fst (m s)")
    case (Inl e)
    with ok have "m' s = m s"
      using assms(1) by (simp add: agree_def bind_inj_cases)
    with Inl show ?thesis
      by (simp add: bind_inj_cases)
  next
    case (Inr a)
    then have "m' s = m s"
      using assms(1) by (simp add: agree_def)
    moreover have "f' a (snd (m s)) = f a (snd (m s))"
      using ok Inr assms(2) [of a] by (simp add: agree_def bind_inj_cases)
    ultimately show ?thesis
      using Inr by (simp add: bind_inj_cases)
  qed
qed

locale agreeing =
  fixes get get' :: service_get
  assumes get_agree: "agree (get key caller) (get' key caller)"
begin

lemma args_agree: "agree (injectionArgs get locals caller ts) (injectionArgs get' locals caller ts)"
proof (induction ts)
  case (Cons t ts)
  show ?case
  proof (cases t)
    case (Token key)
    let ?get = "\<lambda>g. case map_of locals key of Some v \<Rightarrow> (\<lambda>s. (Inr v, s)) | None \<Rightarrow> g key caller"
    let ?rest = "\<lambda>g v. bind_inj (injectionArgs g locals caller ts) (\<lambda>vs s. (Inr (v # vs), s))"
    have "agree (?get get) (?get get')"
      using get_agree by (simp split: option.split)
    moreover have "agree (?rest get v) (?rest get' v)" for v
      by (intro agree_bind Cons) simp
    ultimately have "agree (bind_inj (?get get) (?rest get)) (bind_inj (?get get') (?rest get'))"
      by (rule agree_bind)
    with Token show ?thesis
      by (simp add: agree_def)
  qed (simp add: agree_def)
qed (simp add: agree_def)

lemma invoke_agree: "agree (invoke get f locals caller) (invoke get' f locals caller)"
  unfolding invoke_def by (intro agree_bind args_agree agree_refl)

lemma run_get_agree: "agree (run_get get caller g) (run_get get' caller g)"
  by (induction g arbitrary: caller) (auto intro!: agree_bind invoke_agree get_agree)

end

lemma getService_agree: "n \<le> n' \<Longrightarrow> agree (getService n key caller) (getService n' key caller)"
proof (induction n arbitrary: n' key caller)
  case 0
  show ?case
    by (simp add: agree_def)
next
  case (Suc n)
  then obtain m where m: "n' = Suc m" "n \<le> m"
    by (cases n') auto
  have source: "agreeing (getService n) (getService m)"
    by (intro agreeing.intro Suc.IH m(2))
  show ?case
    unfolding agree_def m(1)
  proof (intro allI impI)
    fix s
    assume ok: "fst (getService (Suc n) key caller s) \<noteq> Inl InjOverflow"
    show "getService (Suc m) key caller s = getService (Suc n) key caller s"
    proof (cases "i_cache s key")
      case (Some e)
      then show ?thesis
        by (cases e) simp_all
    next
      case None
      show ?thesis
      proof (cases "i_providers s key")
        case unknown: None
        show ?thesis
          by (simp only: get_unknown [OF None unknown])
      next
        case (Some g)
        have "fst (run_get (getService n) (Some key) g (enter key s)) \<noteq> Inl InjOverflow"
          using ok unfolding getService_build [OF None Some] by simp
        then have "run_get (getService m) (Some key) g (enter key s) = run_get (getService n) (Some key) g (enter key s)"
          using agreeing.run_get_agree [OF source, of "Some key" g] by (simp add: agree_def)
        then show ?thesis
          by (simp only: getService_build [OF None Some])
      qed
    qed
  qed
qed

interpretation more_fuel: agreeing "getService n" "getService (n + k)" for n k
  by (intro agreeing.intro getService_agree) simp

interpretation services_sound: sound_source "getService n" providers base for n providers base
  by (intro sound_source.intro service_source.intro getService_framed sound_source_axioms.intro getService_sound)

interpretation services_complete: complete_source "getService n" providers base n for n providers base
  by (intro complete_source.intro services_sound.sound_source_axioms complete_source_axioms.intro getService_complete) simp

subsection \<open>Configuration and requests\<close>

text \<open>Calls of \<open>$provide\<close>, those that throw included, and then requests to the instance injector.\<close>

inductive configured :: "val \<Rightarrow> injector \<Rightarrow> bool" for self where
  new: "configured self (createInjector self)"
| a_provider: "configured self s \<Longrightarrow> configured self (snd (provide_provider name get s))"
| a_factory: "configured self s \<Longrightarrow> configured self (snd (provide_factory name f s))"
| a_service: "configured self s \<Longrightarrow> configured self (snd (provide_service name f s))"
| a_value: "configured self s \<Longrightarrow> configured self (snd (provide_value name v s))"
| a_constant: "configured self s \<Longrightarrow> configured self (snd (provide_constant name v s))"
| a_decorator: "configured self s \<Longrightarrow> configured self (snd (provide_decorator name f s))"

inductive requested :: "injector \<Rightarrow> injector \<Rightarrow> bool" for s0 where
  start: "requested s0 s0"
| get: "requested s0 s \<Longrightarrow> requested s0 (snd (getService n name caller s))"
| invoke: "requested s0 s \<Longrightarrow> requested s0 (snd (invoke (getService n) f locals caller s))"

definition constants :: "injector \<Rightarrow> jstring \<Rightarrow> val option" where
  "constants s name = (case i_cache s name of Some (Cached v) \<Rightarrow> Some v | _ \<Rightarrow> None)"

definition settled :: "injector \<Rightarrow> bool" where
  "settled s \<longleftrightarrow> finite (dom (i_providers s)) \<and> (\<forall>k. i_cache s k \<noteq> Some Instantiating)"

lemma settled_register:
  "settled s \<and> i_path s = [] \<Longrightarrow> settled (snd (register name g s)) \<and> i_path (snd (register name g s)) = []"
  by (simp add: settled_def register_def)

lemma settled_configured: "configured self s \<Longrightarrow> settled s \<and> i_path s = []"
proof (induction rule: configured.induct)
  case new
  show ?case
    by (simp add: settled_def createInjector_def)
next
  case (a_provider s name get)
  then show ?case
    using settled_register [of s name] by (cases get) (simp_all add: provide_provider_def)
next
  case (a_constant s name v)
  then show ?case
    by (simp add: provide_constant_def settled_def)
next
  case (a_decorator s name f)
  then show ?case
    by (auto simp: provide_decorator_def get_provider_def settled_def Let_def split: option.split)
qed (simp_all only: provide_factory_def provide_service_def provide_value_def settled_register)

lemma settled_frame: "frame ok s t \<Longrightarrow> settled s \<Longrightarrow> settled t"
  by (simp add: settled_def frame_def)

lemma requested_keeps:
  assumes "requested s0 s" "settled s0"
  shows "settled s \<and> consistent (i_providers s0) (constants s0) s"
  using assms
proof (induction rule: requested.induct)
  case start
  have "consistent (i_providers s0) (constants s0) s0"
    unfolding consistent_def
  proof (intro conjI allI impI)
    fix m v
    show "constants s0 m = Some v \<Longrightarrow> i_cache s0 m = Some (Cached v)"
      by (simp add: constants_def split: option.splits entry.splits)
    assume "i_cache s0 m = Some (Cached v)"
    then have "eval_service (i_providers s0) (constants s0) (Suc 0) m = Inr v"
      by (simp add: constants_def)
    then show "\<exists>d. eval_service (i_providers s0) (constants s0) d m = Inr v" ..
  qed simp
  with start show ?case
    by simp
next
  case (get s n name caller)
  have "settled (snd (getService n name caller s))"
    using services.get_framed [of n name caller] settled_frame get unfolding framed_def by blast
  with get show ?case
    using services_sound.get_sound [of "i_providers s0" "constants s0" n name caller] by (simp add: sound_def)
next
  case (invoke s n f locals caller)
  have "settled (snd (invoke (getService n) f locals caller s))"
    using services.invoke_framed [of n f locals caller] settled_frame invoke unfolding framed_def by blast
  with invoke show ?case
    using services_sound.invoke_sound [of "i_providers s0" "constants s0" n f locals caller] by (simp add: sound_def)
qed

lemma enough_fuel:
  assumes "settled s" "card (unbuilt s) < n"
  shows "fst (getService n name caller s) \<noteq> Inl InjOverflow" "getService (n + k) name caller s = getService n name caller s"
proof -
  obtain m where m: "n = Suc m" "card (unbuilt s) \<le> m"
    using assms(2) by (cases n) auto
  show ok: "fst (getService n name caller s) \<noteq> Inl InjOverflow"
    using getService_bounded [of m name caller] m assms(1) unfolding bounded_def settled_def by blast
  show "getService (n + k) name caller s = getService n name caller s"
    using more_fuel.get_agree [of n name caller k] ok by (simp add: agree_def)
qed

subsection \<open>Properties\<close>

text \<open>
  C36. Once an injector is configured, and after any requests, asking it for a service returns what the
  definition of services gives, which builds every dependency anew and knows no cache, no marks and no path:
  it returns a value exactly when some depth of that definition does, and the same value. Recursion as deep
  as there are providers left to build is enough.\<close>

theorem injector_gives_services:
  assumes "configured self s0" "requested s0 s" "card (unbuilt s) < n"
  shows "fst (getService n name caller s) \<noteq> Inl InjOverflow \<and>
    (\<forall>v. fst (getService n name caller s) = Inr v \<longleftrightarrow>
      (\<exists>d. eval_service (i_providers s0) (constants s0) d name = Inr v))"
proof (intro conjI allI iffI)
  have s: "settled s" "consistent (i_providers s0) (constants s0) s"
    using requested_keeps [OF assms(2)] settled_configured [OF assms(1)] by simp_all
  show "fst (getService n name caller s) \<noteq> Inl InjOverflow"
    by (rule enough_fuel(1) [OF s(1) assms(3)])
  fix v
  show "\<exists>d. eval_service (i_providers s0) (constants s0) d name = Inr v" if "fst (getService n name caller s) = Inr v"
    using services_sound.get_sound [of "i_providers s0" "constants s0" n name caller] s(2) that
    by (auto simp: sound_def yields_def pure_get_def)
  assume "\<exists>d. eval_service (i_providers s0) (constants s0) d name = Inr v"
  then obtain d where d: "eval_service (i_providers s0) (constants s0) d name = Inr v" ..
  have "ready (i_providers s0) (constants s0) d s"
    using s by (simp add: ready_def settled_def)
  then have "fst (getService (n + d) name caller s) = Inr v"
    using getService_complete [of d "n + d" "i_providers s0" "constants s0" name caller] d
    by (simp add: complete_def yields_def pure_get_def)
  then show "fst (getService n name caller s) = Inr v"
    by (simp add: enough_fuel(2) [OF s(1) assms(3)])
qed

text \<open>A factory \<open>b\<close> that asks for the factory \<open>a\<close>.\<close>

definition two_factories :: injector where
  "two_factories =
     snd (provide_factory (J ''b'') \<lparr>f_inject = [Token (J ''a'')], f_body = (\<lambda>vs. Inr (hd vs))\<rparr>
       (snd (provide_factory (J ''a'') \<lparr>f_inject = [], f_body = (\<lambda>_. Inr Null)\<rparr> (createInjector (Ref 0)))))"

lemma two_factories_configured: "configured (Ref 0) two_factories"
  unfolding two_factories_def by (intro configured.intros)

lemma two_factories_unbuilt: "card (unbuilt two_factories) < 5"
proof -
  have "unbuilt two_factories \<subseteq> {J ''a'', J ''b'', J ''$injector''}"
    by (auto simp: unbuilt_def two_factories_def provide_factory_def register_def createInjector_def split: if_splits)
  then have "card (unbuilt two_factories) \<le> card {J ''a'', J ''b'', J ''$injector''}"
    by (intro card_mono) simp_all
  also have "\<dots> < 5"
    by (simp add: card_insert_if)
  finally show ?thesis .
qed

lemma two_factories_get: "fst (getService 5 (J ''b'') None two_factories) = Inr Null"
  by (simp add: numeral_eq_Suc two_factories_def provide_factory_def register_def createInjector_def bind_inj_def
      get_provider_def enter_def leave_service_def invoke_def call_body_def enforceReturnValue_def)

lemma injector_gives_services_witness:
  "\<exists>d. eval_service (i_providers two_factories) (constants two_factories) d (J ''b'') = Inr Null"
  using injector_gives_services [OF two_factories_configured requested.start two_factories_unbuilt, of "J ''b''" None]
    two_factories_get by blast

text \<open>
  C37. A service is made once: after a request has returned a value, whatever is asked of the injector, the
  next request for the name returns this value and changes nothing.\<close>

theorem service_is_singleton:
  assumes "fst (getService n name caller s) = Inr v" "requested (snd (getService n name caller s)) t"
  shows "getService (Suc n') name caller' t = (Inr v, t)"
proof -
  have "i_cache (snd (getService n name caller s)) name = Some (Cached v)"
    using assms(1)
  proof (cases n)
    case (Suc m)
    show ?thesis
    proof (cases "i_cache s name")
      case (Some e)
      with assms(1) Suc show ?thesis
        by (cases e) simp_all
    next
      case None
      with assms(1) Suc show ?thesis
        by (auto simp: leave_ok split: prod.splits)
    qed
  qed simp
  moreover have "frame False (snd (getService n name caller s)) t"
    using assms(2)
  proof (induction rule: requested.induct)
    case (get t n name caller)
    then show ?case
      using services.get_framed [of n name caller] unmoved_trans_any unfolding framed_def by blast
  next
    case (invoke t n f locals caller)
    then show ?case
      using services.invoke_framed [of n f locals caller] unmoved_trans_any unfolding framed_def by blast
  qed simp
  ultimately have "i_cache t name = Some (Cached v)"
    by (simp add: frame_keeps)
  then show ?thesis
    by simp
qed

lemma service_is_singleton_witness:
  "getService 1 (J ''b'') None (snd (invoke (getService 3) \<lparr>f_inject = [Token (J ''a'')], f_body = Inl \<circ> hd\<rparr> [] None
     (snd (getService 5 (J ''b'') None two_factories)))) =
   (Inr Null, snd (invoke (getService 3) \<lparr>f_inject = [Token (J ''a'')], f_body = Inl \<circ> hd\<rparr> [] None
     (snd (getService 5 (J ''b'') None two_factories))))"
  using service_is_singleton [OF two_factories_get requested.invoke [OF requested.start], of 0] by simp

text \<open>
  The name of a caller is put at the end of the path when a provider is missing, and it is never taken off: after
  one failed request with a caller every later message about a missing provider names that caller.\<close>

theorem failed_request_keeps_caller:
  assumes "configured self s0" "i_providers s0 name = None" "i_cache s0 name = None"
    "i_providers s0 other = None" "i_cache s0 other = None"
  shows "i_path (snd (getService (Suc n) name (Some caller) s0)) = [caller] \<and>
    fst (getService (Suc n) other None (snd (getService (Suc n) name (Some caller) s0))) =
      Inl (Unpr [other @ J ''Provider'', other, caller])"
  using settled_configured [OF assms(1)] get_unknown [OF assms(3,2), of n "Some caller"]
    get_unknown [of "s0\<lparr>i_path := [caller]\<rparr>" other n None] assms(4,5) by (simp add: Let_def)

lemma failed_request_keeps_caller_witness:
  "i_path (snd (getService 1 (J ''x'') (Some (J ''ctrl'')) (createInjector (Ref 0)))) = [J ''ctrl'']"
  using failed_request_keeps_caller [OF configured.new, of "Ref 0" "J ''x''" "J ''y''" 0 "J ''ctrl''"]
  by (simp add: createInjector_def)

end
