(* ===== verification/NgModulesInv.thy ===== *)
theory NgModulesInv
  imports NgModules NgInjectorInv
begin

section \<open>The order in which modules are loaded\<close>

text \<open>
  A load that succeeds runs every module that the requested ones require, directly or not, once, and a
  module after those it requires (unless they require it too); what it leaves is a configured injector.
\<close>

subsection \<open>Modules as actions\<close>

fun required :: "registry \<Rightarrow> module_ref \<Rightarrow> module_ref list" where
  "required modules (ModuleName name) = (case modules name of Some md \<Rightarrow> m_requires md | None \<Rightarrow> [])"
| "required modules (ModuleFn k cf) = []"

definition requires_rel :: "registry \<Rightarrow> (module_ref \<times> module_ref) set" where
  "requires_rel modules = {(m, r). r \<in> set (required modules m)}"

text \<open>A module on its own: its queue, its configuration, its run blocks.\<close>

fun module_action :: "registry \<Rightarrow> module_ref \<Rightarrow> func option list injection" where
  "module_action modules (ModuleName name) =
     (case modules name of
        Some md \<Rightarrow> bind_inj (runInvokeQueue (m_invokeQueue md)) (\<lambda>_.
          bind_inj (runInvokeQueue (m_configBlocks md)) (\<lambda>_ s. (Inr (map Some (m_runBlocks md)), s)))
      | None \<Rightarrow> (\<lambda>s. (Inr [], s)))"
| "module_action modules (ModuleFn k cf) = bind_inj (run_config cf) (\<lambda>r s. (Inr [r], s))"

fun run_all :: "registry \<Rightarrow> module_ref list \<Rightarrow> func option list injection" where
  "run_all modules [] s = (Inr [], s)"
| "run_all modules (m # ms) s =
     bind_inj (module_action modules m) (\<lambda>bs. bind_inj (run_all modules ms) (\<lambda>bs' s. (Inr (bs @ bs'), s))) s"

lemma run_all_append:
  "run_all modules xs s = (Inr bs, t) \<Longrightarrow> run_all modules ys t = (Inr bs', u) \<Longrightarrow>
   run_all modules (xs @ ys) s = (Inr (bs @ bs'), u)"
proof (induction xs arbitrary: s bs)
  case (Cons x xs)
  then obtain b cs w where "module_action modules x s = (Inr b, w)" "run_all modules xs w = (Inr cs, t)" "bs = b @ cs"
    by (auto simp: bind_inj_def split: prod.splits sum.splits)
  with Cons.IH Cons.prems(2) show ?case
    by (simp add: bind_inj_def)
qed simp

subsection \<open>What a load does\<close>

text \<open>
  \<open>order\<close> are the modules a load from \<open>before\<close> runs: each is new, is needed by one that was asked for, and
  finds what it requires loaded, except where a module that is being loaded requires it in turn.
\<close>

definition loads :: "registry \<Rightarrow> module_ref list \<Rightarrow> loading \<Rightarrow> func option list \<Rightarrow> loading \<Rightarrow> module_ref list \<Rightarrow> bool" where
  "loads modules ms a bs a' order \<longleftrightarrow>
     distinct order \<and> set order \<inter> set (loadedModules a) = {} \<and>
     set (loadedModules a') = set (loadedModules a) \<union> set order \<and> set ms \<subseteq> set (loadedModules a') \<and>
     run_all modules order (a_injector a) = (Inr bs, a_injector a') \<and>
     (\<forall>m \<in> set order. \<exists>r \<in> set ms. (r, m) \<in> (requires_rel modules)\<^sup>*) \<and>
     (\<forall>m \<in> set order. set (required modules m) \<subseteq> set (loadedModules a')) \<and>
     (\<forall>xs m ys. order = xs @ m # ys \<longrightarrow>
        (\<forall>r \<in> set (required modules m). r \<in> set (loadedModules a) \<union> set xs \<or> (r, m) \<in> (requires_rel modules)\<^sup>*))"

lemma loads_loadedD: "loads modules ms a bs a' order \<Longrightarrow> set (loadedModules a') = set (loadedModules a) \<union> set order"
  unfolding loads_def by (elim conjE)

lemma loads_askedD: "loads modules ms a bs a' order \<Longrightarrow> set ms \<subseteq> set (loadedModules a')"
  unfolding loads_def by (elim conjE)

lemma loads_closedD: "loads modules ms a bs a' order \<Longrightarrow> \<forall>m \<in> set order. set (required modules m) \<subseteq> set (loadedModules a')"
  unfolding loads_def by (elim conjE)

lemma loads_orderD:
  "loads modules ms a bs a' order \<Longrightarrow> order = xs @ m # ys \<Longrightarrow> r \<in> set (required modules m) \<Longrightarrow>
   r \<in> set (loadedModules a) \<union> set xs \<or> (r, m) \<in> (requires_rel modules)\<^sup>*"
  unfolding loads_def by blast

lemma loads_Nil: "loads modules [] a [] a []"
  by (simp add: loads_def)

lemma on_injector_Inr:
  "on_injector f a = (Inr x, a') \<longleftrightarrow> f (a_injector a) = (Inr x, a_injector a') \<and> loadedModules a' = loadedModules a"
  by (cases a; cases a') (auto simp: on_injector_def split: prod.splits sum.splits)

lemma loads_one:
  assumes "loads modules (required modules m) (a\<lparr>loadedModules := m # loadedModules a\<rparr>) bs a' order"
    and "module_action modules m (a_injector a') = (Inr cs, a_injector b)" "loadedModules b = loadedModules a'"
    and "m \<notin> set (loadedModules a)"
  shows "loads modules [m] a (bs @ cs) b (order @ [m])"
proof -
  let ?R = "requires_rel modules"
  have reach: "(m, x) \<in> ?R\<^sup>*" if "x \<in> set order" for x
  proof -
    from assms(1) that obtain r where "r \<in> set (required modules m)" "(r, x) \<in> ?R\<^sup>*"
      by (auto simp: loads_def)
    then show ?thesis
      by (intro converse_rtrancl_into_rtrancl [of m r]) (simp_all add: requires_rel_def)
  qed
  have run: "run_all modules (order @ [m]) (a_injector a) = (Inr (bs @ cs), a_injector b)"
    using assms(1,2) by (intro run_all_append [of _ _ _ _ "a_injector a'"]) (simp_all add: loads_def bind_inj_def)
  have before: "r \<in> set (loadedModules a) \<union> set xs \<or> (r, x) \<in> ?R\<^sup>*"
    if "order @ [m] = xs @ x # ys" "r \<in> set (required modules x)" for xs x ys r
  proof (cases "ys = []")
    case True
    with that have "x = m" "xs = order"
      by simp_all
    moreover have "r \<in> set (loadedModules a')"
      using assms(1) that(2) \<open>x = m\<close> by (auto simp: loads_def)
    ultimately show ?thesis
      using assms(1) by (auto simp: loads_def)
  next
    case False
    then have "order = xs @ x # butlast ys"
      using that(1) by (metis butlast.simps(2) butlast_append list.distinct(1) butlast_snoc)
    then have "r \<in> set (m # loadedModules a) \<union> set xs \<or> (r, x) \<in> ?R\<^sup>*" "x \<in> set order"
      using assms(1) that(2) unfolding loads_def by auto
    then show ?thesis
      using reach by auto
  qed
  have nested: "distinct order" "set order \<inter> set (m # loadedModules a) = {}"
    "set (loadedModules b) = set (m # loadedModules a) \<union> set order"
    using assms(1,3) by (simp_all add: loads_def)
  moreover have "\<forall>x \<in> set (order @ [m]). set (required modules x) \<subseteq> set (loadedModules b)"
    using loads_closedD [OF assms(1)] loads_askedD [OF assms(1)] assms(3) by simp
  moreover have "\<forall>x \<in> set (order @ [m]). \<exists>r \<in> set [m]. (r, x) \<in> ?R\<^sup>*"
    using reach by simp
  moreover have "distinct (order @ [m])" "set (order @ [m]) \<inter> set (loadedModules a) = {}"
    "set (loadedModules b) = set (loadedModules a) \<union> set (order @ [m])" "set [m] \<subseteq> set (loadedModules b)"
    using nested assms(4) by auto
  ultimately show ?thesis
    unfolding loads_def using run before by blast
qed

lemma loads_more:
  assumes "loads modules [m] a bs a' order" "loads modules ms a' cs b order'"
  shows "loads modules (m # ms) a (bs @ cs) b (order @ order')"
proof -
  let ?R = "requires_rel modules"
  have before: "r \<in> set (loadedModules a) \<union> set xs \<or> (r, x) \<in> ?R\<^sup>*"
    if eq: "order @ order' = xs @ x # ys" and r: "r \<in> set (required modules x)" for xs x ys r
  proof -
    from eq consider us where "order = xs @ x # us" | us where "xs = order @ us" "order' = us @ x # ys"
      by (auto simp: append_eq_append_conv2 append_eq_Cons_conv)
    then show ?thesis
    proof cases
      case 1
      with assms(1) r show ?thesis
        unfolding loads_def by blast
    next
      case 2
      with assms(2) r have "r \<in> set (loadedModules a') \<union> set us \<or> (r, x) \<in> ?R\<^sup>*"
        unfolding loads_def by blast
      with assms(1) 2(1) show ?thesis
        by (auto simp: loads_def)
    qed
  qed
  have "run_all modules (order @ order') (a_injector a) = (Inr (bs @ cs), a_injector b)"
    using assms by (intro run_all_append) (auto simp: loads_def)
  moreover have "distinct (order @ order')" "set (order @ order') \<inter> set (loadedModules a) = {}"
    "set (loadedModules b) = set (loadedModules a) \<union> set (order @ order')" "set (m # ms) \<subseteq> set (loadedModules b)"
    using assms by (auto simp: loads_def)
  moreover have "set (required modules x) \<subseteq> set (loadedModules b)" if "x \<in> set (order @ order')" for x
    using that loads_closedD [OF assms(1)] loads_closedD [OF assms(2)] loads_loadedD [OF assms(2)] by fastforce
  moreover have "\<exists>r \<in> set (m # ms). (r, x) \<in> ?R\<^sup>*" if "x \<in> set (order @ order')" for x
    using assms that by (auto simp: loads_def)
  ultimately show ?thesis
    unfolding loads_def using before by blast
qed

lemma loads_loaded: "m \<in> set (loadedModules a) \<Longrightarrow> loads modules ms a bs a' order \<Longrightarrow> loads modules (m # ms) a bs a' order"
  using loads_askedD loads_loadedD unfolding loads_def by fastforce

text \<open>A module is loaded with whatever loads the modules it requires.\<close>

locale module_loader =
  fixes modules :: registry and load :: loader
  assumes load_loads: "load ms a = (Inr bs, a') \<Longrightarrow> \<exists>order. loads modules ms a bs a' order"
begin

lemma load_module_loads:
  assumes "load_module load inherited modules m (a\<lparr>loadedModules := m # loadedModules a\<rparr>) = (Inr bs, b)"
    and "m \<notin> set (loadedModules a)"
  shows "\<exists>order. loads modules [m] a bs b order"
proof (cases m)
  case (ModuleName name)
  then obtain md where md: "modules name = Some md"
    and "load_module load inherited modules m (a\<lparr>loadedModules := m # loadedModules a\<rparr>) =
      (case load (m_requires md) (a\<lparr>loadedModules := m # loadedModules a\<rparr>) of
         (Inl e, a') \<Rightarrow> (Inl e, a')
       | (Inr blocks, a') \<Rightarrow>
           on_injector (bind_inj (runInvokeQueue (m_invokeQueue md)) (\<lambda>_.
             bind_inj (runInvokeQueue (m_configBlocks md)) (\<lambda>_ s. (Inr (blocks @ map Some (m_runBlocks md)), s)))) a')"
    using assms(1) by (auto simp: load_module_def angular_module_def split: if_splits option.splits)
  with assms(1) obtain bs0 a' where a': "load (m_requires md) (a\<lparr>loadedModules := m # loadedModules a\<rparr>) = (Inr bs0, a')"
    and run: "bind_inj (runInvokeQueue (m_invokeQueue md)) (\<lambda>_.
        bind_inj (runInvokeQueue (m_configBlocks md)) (\<lambda>_ s. (Inr (bs0 @ map Some (m_runBlocks md)), s))) (a_injector a') =
        (Inr bs, a_injector b)" "loadedModules b = loadedModules a'"
    by (auto simp: on_injector_Inr split: prod.splits sum.splits)
  then have "module_action modules m (a_injector a') = (Inr (map Some (m_runBlocks md)), a_injector b)"
    "bs = bs0 @ map Some (m_runBlocks md)"
    using ModuleName md by (auto simp: bind_inj_def split: prod.splits sum.splits)
  moreover obtain order where "loads modules (required modules m) (a\<lparr>loadedModules := m # loadedModules a\<rparr>) bs0 a' order"
    using load_loads [OF a'] ModuleName md by auto
  ultimately show ?thesis
    using loads_one run(2) assms(2) by blast
next
  case (ModuleFn k cf)
  have "module_action modules m (a_injector a) = (Inr bs, a_injector b)" "loadedModules b = m # loadedModules a"
    using assms(1) ModuleFn by (simp_all add: load_module_def on_injector_Inr)
  moreover have "loads modules (required modules m) (a\<lparr>loadedModules := m # loadedModules a\<rparr>) [] (a\<lparr>loadedModules := m # loadedModules a\<rparr>) []"
    using ModuleFn loads_Nil by simp
  ultimately show ?thesis
    using loads_one [of modules m a "[]" "a\<lparr>loadedModules := m # loadedModules a\<rparr>" "[]" bs b] assms(2) by auto
qed

end

lemma loadModules_loads: "loadModules n inherited modules ms a = (Inr bs, a') \<Longrightarrow> \<exists>order. loads modules ms a bs a' order"
proof (induction n arbitrary: ms a bs a')
  case 0
  then show ?case
    using loads_Nil by (cases ms) auto
next
  case (Suc n)
  have source: "module_loader modules (loadModules n inherited modules)"
    by (rule module_loader.intro) (rule Suc.IH)
  from Suc.prems show ?case
  proof (induction ms arbitrary: a bs)
    case Nil
    then show ?case
      using loads_Nil by auto
  next
    case (Cons m ms)
    show ?case
    proof (cases "m \<in> set (loadedModules a)")
      case True
      with Cons show ?thesis
        using loads_loaded by fastforce
    next
      case False
      then obtain b1 c b2 where c: "load_module (loadModules n inherited modules) inherited modules m (a\<lparr>loadedModules := m # loadedModules a\<rparr>) = (Inr b1, c)"
        "loadModules (Suc n) inherited modules ms c = (Inr b2, a')" "bs = b1 @ b2"
        using Cons.prems by (auto split: prod.splits sum.splits)
      show ?thesis
        using module_loader.load_module_loads [OF source c(1) False] Cons.IH [OF c(2)] loads_more c(3) by blast
    qed
  qed
qed

interpretation loading_modules: module_loader modules "loadModules n inherited modules" for modules n inherited
  by (rule module_loader.intro) (rule loadModules_loads)

subsection \<open>The injector that is left\<close>

definition keeps_configured :: "'a injection \<Rightarrow> bool" where
  "keeps_configured f \<longleftrightarrow> (\<forall>self s. configured self s \<longrightarrow> configured self (snd (f s)))"

lemma keeps_return [simp]: "keeps_configured (\<lambda>s. (r, s))"
  by (simp add: keeps_configured_def)

lemma configured_bind: "keeps_configured f \<Longrightarrow> (\<And>x. keeps_configured (g x)) \<Longrightarrow> keeps_configured (bind_inj f g)"
  unfolding keeps_configured_def bind_inj_cases by (auto split: sum.split)

lemma keeps_call: "keeps_configured (run_call c)"
  by (cases c) (simp_all add: keeps_configured_def configured.intros)

lemma keeps_calls: "keeps_configured (run_calls cs)"
proof (induction cs)
  case Nil
  show ?case
    by (simp add: keeps_configured_def)
next
  case (Cons c cs)
  have "keeps_configured (bind_inj (run_call c) (\<lambda>_. run_calls cs))"
    by (intro configured_bind keeps_call Cons)
  then show ?case
    by (simp add: keeps_configured_def)
qed

lemma keeps_config: "keeps_configured (run_config cf)"
  unfolding run_config_def by (intro configured_bind keeps_calls) (simp add: keeps_configured_def)

lemma keeps_queue: "keeps_configured (runInvokeQueue q)"
proof (induction q)
  case Nil
  show ?case
    by (simp add: keeps_configured_def)
next
  case (Cons c q)
  have "keeps_configured (bind_inj (run_call x) (\<lambda>_. runInvokeQueue q))" "keeps_configured (bind_inj (run_config y) (\<lambda>_. runInvokeQueue q))" for x y
    by (intro configured_bind keeps_call keeps_config Cons)+
  then show ?case
    by (cases c) (simp_all add: keeps_configured_def)
qed

lemma keeps_action: "keeps_configured (module_action modules m)"
  by (cases m) (auto intro!: configured_bind keeps_queue keeps_config split: option.split)

lemma keeps_all: "keeps_configured (run_all modules ms)"
proof (induction ms)
  case Nil
  show ?case
    by (simp add: keeps_configured_def)
next
  case (Cons m ms)
  have "keeps_configured (bind_inj (module_action modules m) (\<lambda>bs. bind_inj (run_all modules ms) (\<lambda>bs' s. (Inr (bs @ bs'), s))))"
    by (intro configured_bind keeps_action Cons) simp
  then show ?case
    by (simp add: keeps_configured_def)
qed

subsection \<open>The depth of a load\<close>

fun root_cause :: "load_error \<Rightarrow> load_error" where
  "root_cause (Modulerr m e) = root_cause e"
| "root_cause e = e"

definition waiting :: "registry \<Rightarrow> loading \<Rightarrow> jstring set" where
  "waiting modules a = {name \<in> dom modules. ModuleName name \<notin> set (loadedModules a)}"

lemma waiting_mark:
  assumes "finite (dom modules)" "modules name \<noteq> None" "ModuleName name \<notin> set (loadedModules a)"
  shows "Suc (card (waiting modules (a\<lparr>loadedModules := ModuleName name # loadedModules a\<rparr>))) = card (waiting modules a)"
proof -
  have "waiting modules (a\<lparr>loadedModules := ModuleName name # loadedModules a\<rparr>) = waiting modules a - {name}"
    by (auto simp: waiting_def)
  moreover have "name \<in> waiting modules a" "finite (waiting modules a)"
    using assms by (auto simp: waiting_def)
  ultimately show ?thesis
    using card_Suc_Diff1 by metis
qed

lemma waiting_load:
  assumes "finite (dom modules)" "loads modules ms a bs a' order"
  shows "card (waiting modules a') \<le> card (waiting modules a)"
proof (rule card_mono)
  show "finite (waiting modules a)"
    using assms(1) by (simp add: waiting_def)
  have "set (loadedModules a) \<subseteq> set (loadedModules a')"
    unfolding loads_loadedD [OF assms(2)] by (rule Un_upper1)
  then show "waiting modules a' \<subseteq> waiting modules a"
    by (auto simp: waiting_def)
qed

lemma on_injector_root: "on_injector f a = (Inl e, a') \<Longrightarrow> root_cause e \<noteq> LoadOverflow"
  by (auto simp: on_injector_def split: prod.splits sum.splits)

lemma load_module_error:
  assumes "load_module load inherited modules m a = (Inl e, b)"
  shows "root_cause e \<noteq> LoadOverflow \<or>
    (\<exists>name md c. m = ModuleName name \<and> modules name = Some md \<and> load (m_requires md) a = (Inl e, c))"
proof (cases m)
  case (ModuleFn k cf)
  with assms show ?thesis
    by (simp add: load_module_def on_injector_root)
next
  case (ModuleName name)
  show ?thesis
  proof (cases "fst (angular_module inherited name None None modules)")
    case (Inl x)
    with assms ModuleName show ?thesis
      by (auto simp: load_module_def)
  next
    case (Inr found)
    show ?thesis
    proof (cases found)
      case None
      with Inr assms ModuleName show ?thesis
        by (auto simp: load_module_def)
    next
      case (Some md)
      then have md: "modules name = Some md"
        using Inr by (auto simp: angular_module_def split: if_splits option.splits)
      obtain r c where r: "load (m_requires md) a = (r, c)"
        by fastforce
      show ?thesis
      proof (cases r)
        case (Inl x)
        with r Inr Some assms ModuleName md show ?thesis
          by (auto simp: load_module_def)
      next
        case blocks: (Inr bs)
        with r Inr Some assms ModuleName show ?thesis
          by (simp add: load_module_def on_injector_root)
      qed
    qed
  qed
qed

lemma load_ends:
  assumes "finite (dom modules)"
  shows "card (waiting modules a) < n \<Longrightarrow> loadModules n inherited modules ms a = (Inl e, a') \<Longrightarrow> root_cause e \<noteq> LoadOverflow"
proof (induction n arbitrary: ms a e a')
  case (Suc n)
  from Suc.prems show ?case
  proof (induction ms arbitrary: a)
    case (Cons m ms)
    let ?a = "a\<lparr>loadedModules := m # loadedModules a\<rparr>"
    show ?case
    proof (cases "m \<in> set (loadedModules a)")
      case True
      with Cons show ?thesis
        by simp
    next
      case False
      obtain r b where r: "load_module (loadModules n inherited modules) inherited modules m ?a = (r, b)"
        by fastforce
      show ?thesis
      proof (cases r)
        case (Inl e')
        have "root_cause e' \<noteq> LoadOverflow"
          using load_module_error [OF r [unfolded Inl]]
        proof (elim disjE exE conjE)
          fix name md c
          assume m: "m = ModuleName name" "modules name = Some md" "loadModules n inherited modules (m_requires md) ?a = (Inl e', c)"
          have "card (waiting modules ?a) < n"
            using waiting_mark [OF assms, of name a] m Cons.prems(1) False by simp
          then show ?thesis
            using m(3) by (rule Suc.IH)
        qed
        with r Inl False Cons.prems(2) show ?thesis
          by auto
      next
        case (Inr bs)
        obtain order where "loads modules [m] a bs b order"
          using loading_modules.load_module_loads [OF r [unfolded Inr] False] by blast
        then have "card (waiting modules b) < Suc n"
          using waiting_load [OF assms] Cons.prems(1) le_less_trans by blast
        moreover have "loadModules (Suc n) inherited modules ms b = (Inl e, a')"
          using r Inr False Cons.prems(2) by (auto split: prod.splits sum.splits)
        ultimately show ?thesis
          by (rule Cons.IH)
      qed
    qed
  qed simp
qed simp

subsection \<open>Properties\<close>

lemma loaded_reachable:
  assumes "loads modules ms a bs a' order" "loadedModules a = []"
  shows "set order = (requires_rel modules)\<^sup>* `` set ms"
proof
  show "set order \<subseteq> (requires_rel modules)\<^sup>* `` set ms"
    using assms(1) by (auto simp: loads_def)
  have closed: "r \<in> set order" if "m \<in> set order" "(m, r) \<in> requires_rel modules" for m r
    using loads_closedD [OF assms(1)] loads_loadedD [OF assms(1)] assms(2) that by (auto simp: requires_rel_def)
  have "m \<in> set order" if "(r, m) \<in> (requires_rel modules)\<^sup>*" "r \<in> set order" for r m
    using that by (induction rule: rtrancl_induct) (auto intro: closed)
  moreover have "set ms \<subseteq> set order"
    using assms by (auto simp: loads_def)
  ultimately show "(requires_rel modules)\<^sup>* `` set ms \<subseteq> set order"
    by blast
qed

text \<open>
  C38. Loading modules ends, with a depth of one more than the number of registered modules. When it succeeds it
  has run exactly the modules that the given ones require, directly or not, each once, one after the other: in
  an order in which every module comes after the modules it requires, except those that require it in turn.
  The run blocks are collected in this order, and the injector is one that calls of \<open>$provide\<close> configure.\<close>

theorem modules_load_in_order:
  assumes "finite (dom modules)" "card (dom modules) < n"
  shows "case loadModules n inherited modules ms \<lparr>a_injector = createInjector self, loadedModules = []\<rparr> of
      (Inl e, a) \<Rightarrow> root_cause e \<noteq> LoadOverflow
    | (Inr bs, a) \<Rightarrow> configured self (a_injector a) \<and>
        (\<exists>order. distinct order \<and> set order = (requires_rel modules)\<^sup>* `` set ms \<and>
          run_all modules order (createInjector self) = (Inr bs, a_injector a) \<and>
          (\<forall>xs m ys r. order = xs @ m # ys \<longrightarrow> r \<in> set (required modules m) \<longrightarrow>
            r \<in> set xs \<or> (r, m) \<in> (requires_rel modules)\<^sup>*))"
proof -
  let ?a = "\<lparr>a_injector = createInjector self, loadedModules = []\<rparr>"
  have "waiting modules ?a = dom modules"
    by (simp add: waiting_def dom_def)
  then have fuel: "card (waiting modules ?a) < n"
    using assms(2) by simp
  obtain r a where load: "loadModules n inherited modules ms ?a = (r, a)"
    by fastforce
  show ?thesis
  proof (cases r)
    case (Inl e)
    with load load_ends [OF assms(1) fuel, of inherited ms e a] show ?thesis
      by simp
  next
    case (Inr bs)
    then obtain order where order: "loads modules ms ?a bs a order"
      using loading_modules.load_loads load by blast
    then have run: "run_all modules order (createInjector self) = (Inr bs, a_injector a)"
      by (simp add: loads_def)
    have "configured self (snd (run_all modules order (createInjector self)))"
      using keeps_all configured.new by (simp add: keeps_configured_def)
    then have "configured self (a_injector a)"
      using run by simp
    moreover have "distinct order"
      using order by (simp add: loads_def)
    moreover have "r \<in> set xs \<or> (r, m) \<in> (requires_rel modules)\<^sup>*"
      if "order = xs @ m # ys" "r \<in> set (required modules m)" for xs m ys r
      using loads_orderD [OF order that] by simp
    ultimately show ?thesis
      using run loaded_reachable [OF order] load Inr by (auto intro!: exI [of _ order] simp del: append_assoc)
  qed
qed

text \<open>
  A name that every object inherits is taken for a registered module: nothing is registered under it, and
  loading it fails.
\<close>

lemma inherited_name_not_registered:
  assumes "inherited name" "modules name = None" "name \<noteq> J ''hasOwnProperty''"
  shows "angular_module inherited name (Some rs) cf modules = (Inr None, modules) \<and>
    fst (loadModules (Suc n) inherited modules [ModuleName name] \<lparr>a_injector = s, loadedModules = []\<rparr>) =
      Inl (Modulerr (ModuleName name) NotAModule)"
  using assms by (simp add: angular_module_def load_module_def)

subsection \<open>Two modules that require each other\<close>

definition app_and_lib :: registry where
  "app_and_lib =
     [J ''app'' \<mapsto> \<lparr>m_requires = [ModuleName (J ''lib'')], m_invokeQueue = [QProvide (CValue (J ''x'') Null)],
                 m_configBlocks = [], m_runBlocks = [\<lparr>f_inject = [], f_body = Inr \<circ> hd\<rparr>]\<rparr>,
      J ''lib'' \<mapsto> \<lparr>m_requires = [ModuleName (J ''app'')], m_invokeQueue = [QProvide (CConstant (J ''x'') Undef)],
                 m_configBlocks = [], m_runBlocks = []\<rparr>]"

lemma modules_load_in_order_witness:
  "\<exists>bs a. loadModules 3 (\<lambda>_. False) app_and_lib [ModuleName (J ''app'')] \<lparr>a_injector = createInjector (Ref 0), loadedModules = []\<rparr> = (Inr bs, a) \<and>
     length bs = 1 \<and> configured (Ref 0) (a_injector a)"
proof -
  have dom: "dom app_and_lib = {J ''app'', J ''lib''}"
    by (auto simp: app_and_lib_def)
  have fuel: "finite (dom app_and_lib)" "card (dom app_and_lib) < 3"
    unfolding dom by simp_all
  have "\<exists>bs a. loadModules 3 (\<lambda>_. False) app_and_lib [ModuleName (J ''app'')] \<lparr>a_injector = createInjector (Ref 0), loadedModules = []\<rparr> = (Inr bs, a) \<and>
      length bs = 1"
    by (simp add: numeral_eq_Suc app_and_lib_def load_module_def angular_module_def on_injector_def bind_inj_def provide_value_def
        provide_constant_def register_def)
  then show ?thesis
    using modules_load_in_order [OF fuel, where inherited = "\<lambda>_. False" and ms = "[ModuleName (J ''app'')]" and self = "Ref 0"]
    by (auto simp del: loadModules.simps)
qed

end
