(* ===== verification/NgInterpolate.thy ===== *)
theory NgInterpolate
  imports NgLocation JsValue
begin

section \<open>Interpolated texts ($interpolate)\<close>

text \<open>
  \<open>$InterpolateProvider\<close>: the symbols, the loop that splits a text into separators and expressions, and the
  function that joins the values. Evaluating an expression, \<open>$sce\<close> and \<open>stringify\<close> (which prints numbers
  and objects with the host) are parameters; the watch delegate is not modelled. Symbols are punctuation other than the dollar
  sign, so that the regular expressions made of them match their characters after backslashes and are
  replaced by the symbol itself.
\<close>

subsection \<open>Symbols\<close>

record interp_config =
  startSymbol :: jstring
  endSymbol :: jstring

definition default_symbols :: interp_config where
  "default_symbols = \<lparr>startSymbol = J ''{{'', endSymbol = J ''}}''\<rparr>"

text \<open>An empty value only reads the symbol.\<close>

definition set_startSymbol :: "jstring \<Rightarrow> interp_config \<Rightarrow> interp_config" where
  "set_startSymbol v cfg = (if v \<noteq> [] then cfg\<lparr>startSymbol := v\<rparr> else cfg)"

definition set_endSymbol :: "jstring \<Rightarrow> interp_config \<Rightarrow> interp_config" where
  "set_endSymbol v cfg = (if v \<noteq> [] then cfg\<lparr>endSymbol := v\<rparr> else cfg)"

definition escaped :: "jstring \<Rightarrow> jstring" where
  "escaped symbol = concat (map (\<lambda>ch. [92, ch]) symbol)"

fun replace_all :: "jstring \<Rightarrow> jstring \<Rightarrow> jstring \<Rightarrow> jstring" where
  "replace_all p r [] = []"
| "replace_all p r (c # s) =
     (if p \<noteq> [] \<and> startsWith (c # s) p then r @ replace_all p r (drop (length p - 1) s) else c # replace_all p r s)"

definition unescapeText :: "interp_config \<Rightarrow> jstring \<Rightarrow> jstring" where
  "unescapeText cfg txt =
     replace_all (escaped (endSymbol cfg)) (endSymbol cfg) (replace_all (escaped (startSymbol cfg)) (startSymbol cfg) txt)"

subsection \<open>Splitting a text\<close>

record interpolation =
  ip_exp :: jstring
  ip_expressions :: "jstring list"
  ip_concat :: "jstring option list"      \<comment> \<open>\<open>None\<close> is undefined\<close>
  ip_positions :: "nat list"

text \<open>
  The positions of the next symbols in what is left of the text; the start symbol is never empty, the test
  only makes the loop total.
\<close>

definition next_expression :: "interp_config \<Rightarrow> jstring \<Rightarrow> (nat \<times> nat) option" where
  "next_expression cfg rest =
     (if startSymbol cfg = [] then None else
      case index_of rest (startSymbol cfg) of
        None \<Rightarrow> None
      | Some i \<Rightarrow>
          (case index_of (drop (i + length (startSymbol cfg)) rest) (endSymbol cfg) of
             None \<Rightarrow> None
           | Some j \<Rightarrow> Some (i, j)))"

function interpolate_loop :: "interp_config \<Rightarrow> jstring \<Rightarrow> jstring list \<Rightarrow> jstring option list \<Rightarrow> nat list \<Rightarrow>
    jstring list \<times> jstring option list \<times> nat list" where
  "interpolate_loop cfg rest expressions concat_list positions =
     (if rest = [] then (expressions, concat_list, positions)
      else case next_expression cfg rest of
        None \<Rightarrow> (expressions, concat_list @ [Some (unescapeText cfg rest)], positions)
      | Some (i, j) \<Rightarrow>
          (let before = (if i = 0 then concat_list else concat_list @ [Some (unescapeText cfg (take i rest))]);
               start = i + length (startSymbol cfg)
           in interpolate_loop cfg (drop (start + j + length (endSymbol cfg)) rest) (expressions @ [take j (drop start rest)])
                (before @ [Some []]) (positions @ [length before])))"
  by pat_completeness auto
termination
  by (relation "measure (\<lambda>(cfg, rest, _). length rest)") (auto simp: next_expression_def split: if_splits)

declare interpolate_loop.simps [simp del]

datatype interp_error = Noconcat jstring

datatype template = Constant jstring | Template interpolation

definition interpolate :: "interp_config \<Rightarrow> jstring \<Rightarrow> bool \<Rightarrow> bool \<Rightarrow> interp_error + template option" where
  "interpolate cfg txt mustHaveExpression trustedContext =
     (if txt = [] \<or> index_of txt (startSymbol cfg) = None then
        Inr (if mustHaveExpression then None else Some (Constant (unescapeText cfg txt)))
      else
        (let (expressions, concat_list, positions) = interpolate_loop cfg txt [] [] []
         in if trustedContext \<and> 1 < length concat_list then Inl (Noconcat txt)
            else if \<not> mustHaveExpression \<or> expressions \<noteq> [] then
              Inr (Some (Template \<lparr>ip_exp = txt, ip_expressions = expressions, ip_concat = concat_list, ip_positions = positions\<rparr>))
            else Inr None))"

subsection \<open>Joining the values\<close>

fun fill_positions :: "bool \<Rightarrow> nat list \<Rightarrow> jstring option list \<Rightarrow> jstring option list \<Rightarrow> bool \<times> jstring option list" where
  "fill_positions allOrNothing (p # ps) (v # vs) concat_list =
     (if allOrNothing \<and> v = None then (False, concat_list) else fill_positions allOrNothing ps vs (concat_list[p := v]))"
| "fill_positions allOrNothing _ _ concat_list = (True, concat_list)"

definition join_texts :: "jstring option list \<Rightarrow> jstring" where
  "join_texts xs = concat (map (\<lambda>x. case x of None \<Rightarrow> [] | Some s \<Rightarrow> s) xs)"

text \<open>The list is kept between the calls.\<close>

definition compute_text :: "bool \<Rightarrow> jstring option list \<Rightarrow> interpolation \<Rightarrow> jstring option \<times> interpolation" where
  "compute_text allOrNothing values ip =
     (let (go, concat_list) = fill_positions allOrNothing (ip_positions ip) values (ip_concat ip)
      in (if go then Some (join_texts concat_list) else None, ip\<lparr>ip_concat := concat_list\<rparr>))"

text \<open>
  What an expression gives after the interceptor: errors of the interceptor go to the exception handler and
  leave undefined, errors of the expression itself end the call.
\<close>

definition parseStringifyInterceptor :: "bool \<Rightarrow> (val \<Rightarrow> exn + val) \<Rightarrow> (val \<Rightarrow> jstring) \<Rightarrow> val \<Rightarrow> exn list \<times> jstring option" where
  "parseStringifyInterceptor allOrNothing getValue stringify v =
     (case getValue v of
        Inl e \<Rightarrow> ([e], None)
      | Inr w \<Rightarrow> ([], if allOrNothing \<and> w = Undef then None else Some (stringify w)))"

fun interp_values :: "(jstring \<Rightarrow> exn + val) \<Rightarrow> (val \<Rightarrow> exn list \<times> jstring option) \<Rightarrow> jstring list \<Rightarrow> exn list \<times> (exn + jstring option list)" where
  "interp_values parseFn interceptor [] = ([], Inr [])"
| "interp_values parseFn interceptor (e # es) =
     (case parseFn e of
        Inl x \<Rightarrow> ([], Inl x)
      | Inr v \<Rightarrow>
          (let (errs, w) = interceptor v; (errs', r) = interp_values parseFn interceptor es
           in (errs @ errs', case r of Inl x \<Rightarrow> Inl x | Inr ws \<Rightarrow> Inr (w # ws))))"

definition interpolationFn :: "bool \<Rightarrow> (jstring \<Rightarrow> exn + val) \<Rightarrow> (val \<Rightarrow> exn list \<times> jstring option) \<Rightarrow> interpolation \<Rightarrow>
    (exn list \<times> jstring option) \<times> interpolation" where
  "interpolationFn allOrNothing parseFn interceptor ip =
     (case interp_values parseFn interceptor (ip_expressions ip) of
        (errs, Inl x) \<Rightarrow> ((errs @ [x], None), ip)
      | (errs, Inr values) \<Rightarrow> (let (r, ip') = compute_text allOrNothing values ip in ((errs, r), ip')))"

end
