(* ===== verification/NgInterpolateInv.thy ===== *)
theory NgInterpolateInv
  imports NgInterpolate
begin

section \<open>What an interpolation shows\<close>

text \<open>
  A text is cut into pieces, and each call joins the pieces with the values of the expressions, whatever
  earlier calls left in the list; texts written from pieces, with symbols in separators escaped, are cut into
  these pieces again.
\<close>

subsection \<open>Pieces\<close>

datatype piece = Separator jstring | Expression jstring

fun source_of :: "interp_config \<Rightarrow> piece \<Rightarrow> jstring" where
  "source_of cfg (Separator s) = s"
| "source_of cfg (Expression e) = startSymbol cfg @ e @ endSymbol cfg"

fun exprs :: "piece list \<Rightarrow> jstring list" where
  "exprs [] = []"
| "exprs (Separator s # ps) = exprs ps"
| "exprs (Expression e # ps) = e # exprs ps"

text \<open>\<open>f\<close> is what becomes of a separator.\<close>

fun shown_pieces :: "(jstring \<Rightarrow> jstring) \<Rightarrow> piece list \<Rightarrow> jstring option list \<Rightarrow> jstring" where
  "shown_pieces f (Separator s # ps) vs = f s @ shown_pieces f ps vs"
| "shown_pieces f (Expression e # ps) (v # vs) = (case v of None \<Rightarrow> [] | Some t \<Rightarrow> t) @ shown_pieces f ps vs"
| "shown_pieces f _ _ = []"

fun initial_texts :: "(jstring \<Rightarrow> jstring) \<Rightarrow> piece \<Rightarrow> jstring option" where
  "initial_texts f (Separator s) = Some (f s)"
| "initial_texts f (Expression e) = Some []"

fun spots :: "nat \<Rightarrow> piece list \<Rightarrow> nat list" where
  "spots k [] = []"
| "spots k (Separator s # ps) = spots (Suc k) ps"
| "spots k (Expression e # ps) = k # spots (Suc k) ps"

lemma exprs_append [simp]: "exprs (ps @ qs) = exprs ps @ exprs qs"
  by (induction ps rule: exprs.induct) simp_all

lemma spots_append [simp]: "spots k (ps @ qs) = spots k ps @ spots (k + length ps) qs"
  by (induction k ps rule: spots.induct) simp_all

subsection \<open>Joining\<close>

text \<open>The list of an interpolation agrees with the pieces at the separators.\<close>

definition agrees :: "(jstring \<Rightarrow> jstring) \<Rightarrow> piece list \<Rightarrow> jstring option list \<Rightarrow> bool" where
  "agrees f ps xs \<longleftrightarrow> list_all2 (\<lambda>p x. \<forall>s. p = Separator s \<longrightarrow> x = Some (f s)) ps xs"

lemma fill_agrees:
  assumes "agrees f ps xs" "length vs = length (exprs ps)"
  shows "\<exists>ys. fill_positions all (spots (length pre) ps) vs (pre @ xs) = (\<not> (all \<and> None \<in> set vs), pre @ ys) \<and>
    agrees f ps ys \<and> (\<not> (all \<and> None \<in> set vs) \<longrightarrow> join_texts ys = shown_pieces f ps vs)"
  using assms
proof (induction ps arbitrary: xs vs pre)
  case Nil
  then show ?case
    by (simp add: agrees_def join_texts_def)
next
  case (Cons p ps)
  then obtain x xs' where xs: "xs = x # xs'" "\<forall>s. p = Separator s \<longrightarrow> x = Some (f s)" "agrees f ps xs'"
    by (auto simp: agrees_def list_all2_Cons1)
  show ?case
  proof (cases p)
    case (Separator s)
    with Cons.prems have "length vs = length (exprs ps)"
      by simp
    from Cons.IH [OF xs(3) this, of "pre @ [x]"] Separator xs(1,2) show ?thesis
      by (auto simp: agrees_def list_all2_Cons1 join_texts_def)
  next
    case (Expression e)
    with Cons.prems obtain v vs' where vs: "vs = v # vs'" "length vs' = length (exprs ps)"
      by (cases vs) auto
    show ?thesis
    proof (cases "all \<and> v = None")
      case True
      with Expression xs vs show ?thesis
        by (intro exI [of _ xs]) (simp add: agrees_def)
    next
      case False
      from Cons.IH [OF xs(3) vs(2), of "pre @ [v]"] obtain ys
        where ys: "fill_positions all (spots (Suc (length pre)) ps) vs' (pre @ v # xs') = (\<not> (all \<and> None \<in> set vs'), pre @ v # ys)"
          "agrees f ps ys" "\<not> (all \<and> None \<in> set vs') \<longrightarrow> join_texts ys = shown_pieces f ps vs'"
        by auto
      have "fill_positions all (spots (length pre) (p # ps)) vs (pre @ xs) = (\<not> (all \<and> None \<in> set vs), pre @ v # ys)"
        using ys(1) False Expression xs(1) vs(1) by (auto simp: list_update_append)
      moreover have "agrees f (p # ps) (v # ys)"
        using ys(2) Expression by (simp add: agrees_def)
      moreover have "\<not> (all \<and> None \<in> set vs) \<longrightarrow> join_texts (v # ys) = shown_pieces f (p # ps) vs"
        using ys(3) Expression vs(1) by (auto simp: join_texts_def)
      ultimately show ?thesis
        by blast
    qed
  qed
qed

definition cut_into :: "(jstring \<Rightarrow> jstring) \<Rightarrow> piece list \<Rightarrow> interpolation \<Rightarrow> bool" where
  "cut_into f ps ip \<longleftrightarrow> ip_expressions ip = exprs ps \<and> ip_positions ip = spots 0 ps \<and> agrees f ps (ip_concat ip)"

lemma compute_shows:
  assumes "cut_into f ps ip" "length vs = length (exprs ps)"
  shows "fst (compute_text all vs ip) = (if all \<and> None \<in> set vs then None else Some (shown_pieces f ps vs)) \<and>
    cut_into f ps (snd (compute_text all vs ip))"
  using fill_agrees [of f ps "ip_concat ip" vs all "[]"] assms by (auto simp: cut_into_def compute_text_def)

text \<open>Earlier calls.\<close>

definition after_calls :: "(bool \<times> jstring option list) list \<Rightarrow> interpolation \<Rightarrow> interpolation" where
  "after_calls calls ip = fold (\<lambda>(all, vs) ip. snd (compute_text all vs ip)) calls ip"

lemma after_calls_cut:
  "cut_into f ps ip \<Longrightarrow> \<forall>(all, vs) \<in> set calls. length vs = length (exprs ps) \<Longrightarrow> cut_into f ps (after_calls calls ip)"
  by (induction calls arbitrary: ip) (auto simp: after_calls_def compute_shows)

subsection \<open>Cutting\<close>

lemma index_of_Some:
  assumes "index_of s p = Some i"
  shows "s = take i s @ p @ drop (i + length p) s"
  using assms
proof (induction s arbitrary: i)
  case (Cons c s)
  show ?case
  proof (cases "startsWith (c # s) p")
    case True
    with Cons.prems show ?thesis
      by (simp add: startsWith_def) (metis append_take_drop_id)
  next
    case False
    with Cons.prems obtain j where "index_of s p = Some j" "i = Suc j"
      by auto
    with Cons.IH show ?thesis
      by simp
  qed
qed (auto split: if_splits)

lemma next_expression_cut:
  assumes "next_expression cfg rest = Some (i, j)"
  shows "rest = take i rest @ startSymbol cfg @ take j (drop (i + length (startSymbol cfg)) rest) @ endSymbol cfg @
    drop (i + length (startSymbol cfg) + j + length (endSymbol cfg)) rest"
proof -
  let ?after = "drop (i + length (startSymbol cfg)) rest"
  have ij: "index_of rest (startSymbol cfg) = Some i" "index_of ?after (endSymbol cfg) = Some j"
    using assms by (auto simp: next_expression_def split: if_splits option.splits)
  have "?after = take j ?after @ endSymbol cfg @ drop (j + length (endSymbol cfg)) ?after"
    by (rule index_of_Some [OF ij(2)])
  then show ?thesis
    using index_of_Some [OF ij(1)] by (simp add: ac_simps)
qed

lemma loop_cuts:
  "interpolate_loop cfg rest ex cl pos = (ex', cl', pos') \<Longrightarrow>
   \<exists>ps. rest = concat (map (source_of cfg) ps) \<and> ex' = ex @ exprs ps \<and>
     cl' = cl @ map (initial_texts (unescapeText cfg)) ps \<and> pos' = pos @ spots (length cl) ps"
proof (induction cfg rest ex cl pos rule: interpolate_loop.induct)
  case (1 cfg rest ex cl pos)
  show ?case
  proof (cases "rest = []")
    case True
    with 1(2) show ?thesis
      by (intro exI [of _ "[]"]) (simp add: interpolate_loop.simps)
  next
    case rest: False
    show ?thesis
    proof (cases "next_expression cfg rest")
      case None
      with 1(2) rest show ?thesis
        by (intro exI [of _ "[Separator rest]"]) (simp add: interpolate_loop.simps [of cfg rest])
    next
      case (Some p)
      obtain i j where p: "p = (i, j)"
        by force
      let ?before = "if i = 0 then cl else cl @ [Some (unescapeText cfg (take i rest))]"
      let ?start = "i + length (startSymbol cfg)"
      let ?rest = "drop (?start + j + length (endSymbol cfg)) rest"
      let ?e = "take j (drop ?start rest)"
      have "interpolate_loop cfg ?rest (ex @ [?e]) (?before @ [Some []]) (pos @ [length ?before]) = (ex', cl', pos')"
        using 1(2) rest Some p by (simp add: interpolate_loop.simps [of cfg rest] Let_def)
      from 1(1) [OF rest Some p [symmetric] refl refl this] obtain ps
        where ps: "?rest = concat (map (source_of cfg) ps)" "ex' = (ex @ [?e]) @ exprs ps"
          "cl' = (?before @ [Some []]) @ map (initial_texts (unescapeText cfg)) ps"
          "pos' = (pos @ [length ?before]) @ spots (length (?before @ [Some []])) ps"
        by blast
      let ?ps = "(if i = 0 then [] else [Separator (take i rest)]) @ Expression ?e # ps"
      have "rest = concat (map (source_of cfg) ?ps)"
        using next_expression_cut [OF Some [unfolded p]] ps(1) by (cases "i = 0") simp_all
      with ps(2-) show ?thesis
        by (intro exI [of _ ?ps]) simp
    qed
  qed
qed

lemma cut_initial: "cut_into f ps \<lparr>ip_exp = t, ip_expressions = exprs ps, ip_concat = map (initial_texts f) ps, ip_positions = spots 0 ps\<rparr>"
  by (auto simp: cut_into_def agrees_def list.rel_map intro!: list_all2_refl list.rel_refl_strong)

text \<open>
  C39. The text of an interpolation is the concatenation of pieces, separators and expressions between the
  symbols. Its expressions are those of the pieces, and every call, whatever values earlier calls were given,
  returns the separators unescaped with the values of this call at the places of the expressions; with
  \<open>allOrNothing\<close> and an undefined value it returns undefined.\<close>

theorem interpolation_shows_text:
  assumes "interpolate cfg txt mustHave trusted = Inr (Some (Template ip))"
  shows "\<exists>ps. txt = concat (map (source_of cfg) ps) \<and> ip_expressions ip = exprs ps \<and> (trusted \<longrightarrow> length ps \<le> 1) \<and>
    (\<forall>calls all vs. (\<forall>(a, us) \<in> set calls. length us = length (exprs ps)) \<longrightarrow> length vs = length (exprs ps) \<longrightarrow>
      fst (compute_text all vs (after_calls calls ip)) =
        (if all \<and> None \<in> set vs then None else Some (shown_pieces (unescapeText cfg) ps vs)))"
proof -
  obtain ex cl pos where l: "interpolate_loop cfg txt [] [] [] = (ex, cl, pos)"
    using prod_cases3 by blast
  have ip: "ip = \<lparr>ip_exp = txt, ip_expressions = ex, ip_concat = cl, ip_positions = pos\<rparr>" "trusted \<longrightarrow> length cl \<le> 1"
    using assms l by (auto simp: interpolate_def split: if_splits)
  from loop_cuts [OF l] obtain ps
    where ps: "txt = concat (map (source_of cfg) ps)" "ex = exprs ps" "cl = map (initial_texts (unescapeText cfg)) ps" "pos = spots 0 ps"
    by auto
  then have cut: "cut_into (unescapeText cfg) ps ip"
    using ip(1) cut_initial by simp
  show ?thesis
    using ps ip compute_shows [OF after_calls_cut [OF cut]] by (intro exI [of _ ps]) simp
qed

subsection \<open>Escaping\<close>

text \<open>
  With the default symbols: a run of braces of even length is written with a backslash before each, of a run
  of odd length the first one is left alone, so that no start symbol appears.
\<close>

definition run_of :: "nat \<Rightarrow> jstring \<Rightarrow> nat" where
  "run_of c s = length (takeWhile (\<lambda>x. x = c) s)"

fun escape_runs :: "nat set \<Rightarrow> jstring \<Rightarrow> jstring" where
  "escape_runs B [] = []"
| "escape_runs B [a] = [a]"
| "escape_runs B (a # b # s) =
     (if a = b \<and> a \<in> B \<and> even (run_of a s) then [92, a, 92, a] @ escape_runs B s else a # escape_runs B (b # s))"

fun no_pair :: "nat \<Rightarrow> jstring \<Rightarrow> bool" where
  "no_pair c (a # b # s) \<longleftrightarrow> \<not> (a = c \<and> b = c) \<and> no_pair c (b # s)"
| "no_pair c _ \<longleftrightarrow> True"

lemma escape_runs_other: "a \<notin> B \<Longrightarrow> escape_runs B (a # s) = a # escape_runs B s"
  by (cases s) simp_all

lemma escape_runs_none [simp]: "escape_runs {} s = s"
  by (induction "{} :: nat set" s rule: escape_runs.induct) simp_all

lemma escape_runs_Nil [simp]: "escape_runs B s = [] \<longleftrightarrow> s = []"
  by (cases "(B, s)" rule: escape_runs.cases) auto

lemma escape_runs_hd:
  assumes "escape_runs B s = c # t" "c \<noteq> 92" "c \<in> B"
  shows "odd (run_of c s)"
  using assms by (cases "(B, s)" rule: escape_runs.cases) (auto simp: run_of_def split: if_splits)

lemma no_pair_Cons: "no_pair c (a # s) \<longleftrightarrow> no_pair c s \<and> \<not> (a = c \<and> (\<exists>t. s = c # t))"
  by (cases s) auto

lemma escape_runs_no_pair: "c \<noteq> 92 \<Longrightarrow> c \<in> B \<Longrightarrow> no_pair c (escape_runs B s)"
proof (induction B s rule: escape_runs.induct)
  case (3 B a b s)
  show ?case
  proof (cases "a = b \<and> a \<in> B \<and> even (run_of a s)")
    case True
    then have "no_pair c (escape_runs B s)" "a = c \<Longrightarrow> escape_runs B s \<noteq> c # t" for t
      using 3 escape_runs_hd [of B s c t] by auto
    with True 3(3) show ?thesis
      by (auto simp: no_pair_Cons)
  next
    case False
    then have "no_pair c (escape_runs B (b # s))" "a = c \<Longrightarrow> escape_runs B (b # s) \<noteq> c # t" for t
      using 3 escape_runs_hd [of B "b # s" c t] by (auto simp: run_of_def split: if_splits)
    with False show ?thesis
      by (auto simp: no_pair_Cons)
  qed
qed simp_all

lemma escape_runs_last: "s \<noteq> [] \<Longrightarrow> last (escape_runs B s) = last s"
  by (induction B s rule: escape_runs.induct) auto

lemma replace_all_other: "p \<noteq> [] \<Longrightarrow> hd p \<noteq> c \<Longrightarrow> replace_all p r (c # s) = c # replace_all p r s"
  by (cases p) (simp_all add: startsWith_def)

lemma unescape_runs:
  assumes "c \<notin> B" "c \<noteq> 92"
  shows "92 \<notin> set s \<Longrightarrow> replace_all [92, c, 92, c] [c, c] (escape_runs (insert c B) s) = escape_runs B s"
proof (induction "insert c B" s rule: escape_runs.induct)
  case (3 a b s)
  have plain: "replace_all [92, c, 92, c] [c, c] (x # t) = x # replace_all [92, c, 92, c] [c, c] t" if "x \<noteq> 92" for x t
    using that by (simp add: startsWith_def)
  show ?case
  proof (cases "a = b \<and> a \<in> insert c B \<and> even (run_of a s)")
    case True
    then have IH: "replace_all [92, c, 92, c] [c, c] (escape_runs (insert c B) s) = escape_runs B s"
      using 3(1) [OF True] 3(3) by simp
    show ?thesis
    proof (cases "a = c")
      case True
      with \<open>a = b \<and> _\<close> have ab: "a = c" "b = c" and run: "even (run_of c s)"
        by auto
      show ?thesis
        unfolding ab using IH assms run by (simp add: startsWith_def escape_runs_other)
    next
      case False
      with \<open>a = b \<and> _\<close> 3(3) have ab: "a = b" and b: "b \<noteq> c" "b \<noteq> 92" "b \<in> B" "even (run_of b s)"
        by auto
      show ?thesis
        unfolding ab using b IH assms by (simp add: startsWith_def plain)
    qed
  next
    case False
    then have "replace_all [92, c, 92, c] [c, c] (escape_runs (insert c B) (b # s)) = escape_runs B (b # s)"
      using 3(2) [OF False] 3(3) by simp
    moreover have "escape_runs B (a # b # s) = a # escape_runs B (b # s)"
      using False by auto
    moreover have "escape_runs (insert c B) (a # b # s) = a # escape_runs (insert c B) (b # s)"
      using False by auto
    ultimately show ?thesis
      using 3(3) plain [of a] by simp
  qed
qed (auto simp: startsWith_def)

lemma unescape_escape:
  assumes "92 \<notin> set s"
  shows "unescapeText default_symbols (escape_runs {123, 125} s) = s"
proof -
  have "replace_all [92, 123, 92, 123] [123, 123] (escape_runs {123, 125} s) = escape_runs {125} s"
    by (rule unescape_runs) (use assms in simp_all)
  moreover have "replace_all [92, 125, 92, 125] [125, 125] (escape_runs {125} s) = escape_runs {} s"
    by (rule unescape_runs) (use assms in simp_all)
  ultimately show ?thesis
    by (simp add: unescapeText_def default_symbols_def escaped_def)
qed

lemma no_pair_index: "no_pair c s \<Longrightarrow> index_of s [c, c] = None"
  by (induction c s rule: no_pair.induct) (auto simp: startsWith_def)

lemma no_pair_index_of: "no_pair c s \<Longrightarrow> s = [] \<or> last s \<noteq> c \<Longrightarrow> index_of (s @ c # c # t) [c, c] = Some (length s)"
  by (induction c s rule: no_pair.induct) (auto simp: startsWith_def)

subsection \<open>Writing and reading\<close>

fun written :: "piece \<Rightarrow> jstring" where
  "written (Separator s) = escape_runs {123, 125} s"
| "written (Expression e) = [123, 123] @ e @ [125, 125]"

text \<open>
  Separators are not empty, not next to each other, have no backslash and do not end in a brace before an
  expression; an expression has no end symbol and does not end in a brace.
\<close>

fun writable :: "piece list \<Rightarrow> bool" where
  "writable [] \<longleftrightarrow> True"
| "writable (Expression e # ps) \<longleftrightarrow> no_pair 125 e \<and> (e = [] \<or> last e \<noteq> 125) \<and> writable ps"
| "writable (Separator s # ps) \<longleftrightarrow> s \<noteq> [] \<and> 92 \<notin> set s \<and> writable ps \<and>
     (case ps of [] \<Rightarrow> True | Separator _ # _ \<Rightarrow> False | Expression _ # _ \<Rightarrow> last s \<noteq> 123)"

lemma next_default:
  assumes "no_pair 123 x" "x = [] \<or> last x \<noteq> 123" "no_pair 125 e" "e = [] \<or> last e \<noteq> 125"
  shows "next_expression default_symbols (x @ 123 # 123 # e @ 125 # 125 # r) = Some (length x, length e)"
  using no_pair_index_of [OF assms(1,2)] no_pair_index_of [OF assms(3,4)]
  by (simp add: next_expression_def default_symbols_def)

lemma next_none: "txt = [] \<or> index_of txt (startSymbol default_symbols) = None \<Longrightarrow> next_expression default_symbols txt = None"
  by (auto simp: next_expression_def default_symbols_def)

lemma drop_written: "drop (4 + length e) (123 # 123 # e @ 125 # 125 # r) = r"
  by (simp add: numeral_eq_Suc)

lemma loop_reads_back:
  "writable ps \<Longrightarrow> interpolate_loop default_symbols (concat (map written ps)) ex cl pos =
     (ex @ exprs ps, cl @ map (initial_texts (\<lambda>s. s)) ps, pos @ spots (length cl) ps)"
proof (induction ps arbitrary: ex cl pos rule: writable.induct)
  case (2 e ps)
  then show ?case
    using next_default [of "[]" e "concat (map written ps)"]
    by (subst interpolate_loop.simps) (simp add: default_symbols_def Let_def)
next
  case (3 s ps)
  let ?x = "escape_runs {123, 125} s"
  have x: "no_pair 123 ?x" "last ?x = last s" "?x \<noteq> []" "unescapeText default_symbols ?x = s"
    using 3(2) by (simp_all add: escape_runs_no_pair escape_runs_last unescape_escape)
  show ?case
  proof (cases ps)
    case Nil
    have "next_expression default_symbols ?x = None"
      using no_pair_index [OF x(1)] by (simp add: next_expression_def default_symbols_def)
    with Nil x show ?thesis
      by (subst interpolate_loop.simps) simp
  next
    case (Cons p qs)
    with 3(2) obtain e where e: "p = Expression e" "last s \<noteq> 123" "no_pair 125 e" "e = [] \<or> last e \<noteq> 125"
      by (cases p) auto
    let ?r = "concat (map written qs)"
    have "interpolate_loop default_symbols (concat (map written ps)) ex (cl @ [Some s]) pos =
      interpolate_loop default_symbols ?r (ex @ [e]) (cl @ [Some s, Some []]) (pos @ [Suc (length cl)])"
      using next_default [of "[]" e ?r] e Cons
      by (subst interpolate_loop.simps) (simp add: default_symbols_def Let_def)
    moreover have "interpolate_loop default_symbols (?x @ concat (map written ps)) ex cl pos =
      interpolate_loop default_symbols ?r (ex @ [e]) (cl @ [Some s, Some []]) (pos @ [Suc (length cl)])"
      using next_default [OF x(1) _ e(3,4), of ?r] e Cons x
      by (subst interpolate_loop.simps) (simp add: default_symbols_def Let_def drop_written)
    ultimately show ?thesis
      using 3 by simp
  qed
qed (simp add: interpolate_loop.simps [of default_symbols "[]"])

text \<open>
  C40. A text written from pieces, with the braces of its separators escaped, is read back: its expressions are
  the expressions that were written, and joining shows the separators as they were before escaping.\<close>

theorem written_text_reads_back:
  assumes "writable ps" "exprs ps \<noteq> []"
  shows "\<exists>ip. interpolate default_symbols (concat (map written ps)) mustHave False = Inr (Some (Template ip)) \<and>
    ip_expressions ip = exprs ps \<and>
    (\<forall>vs. length vs = length (exprs ps) \<longrightarrow> fst (compute_text False vs ip) = Some (shown_pieces (\<lambda>s. s) ps vs))"
proof -
  let ?ip = "\<lparr>ip_exp = concat (map written ps), ip_expressions = exprs ps, ip_concat = map (initial_texts (\<lambda>s. s)) ps,
    ip_positions = spots 0 ps\<rparr>"
  have loop: "interpolate_loop default_symbols (concat (map written ps)) [] [] [] =
      (exprs ps, map (initial_texts (\<lambda>s. s)) ps, spots 0 ps)"
    using loop_reads_back [OF assms(1), of "[]" "[]" "[]"] by simp
  have "concat (map written ps) \<noteq> [] \<and> index_of (concat (map written ps)) (startSymbol default_symbols) \<noteq> None"
  proof (rule ccontr)
    assume none: "\<not> ?thesis"
    from none have "next_expression default_symbols (concat (map written ps)) = None"
      by (intro next_none) blast
    then have "fst (interpolate_loop default_symbols (concat (map written ps)) [] [] []) = []"
      by (subst interpolate_loop.simps) simp
    with loop assms(2) show False
      by simp
  qed
  then have "interpolate default_symbols (concat (map written ps)) mustHave False = Inr (Some (Template ?ip))"
    using loop assms(2) by (auto simp: interpolate_def)
  then show ?thesis
    using compute_shows [OF cut_initial [of "\<lambda>s. s" ps]] by (intro exI [of _ ?ip]) simp
qed

subsection \<open>A greeting\<close>

lemma interpolation_shows_text_witness:
  "\<exists>ps. J ''Hi {{a}}'' = concat (map (source_of default_symbols) ps) \<and> exprs ps = [J ''a'']"
proof -
  have "(case interpolate default_symbols (J ''Hi {{a}}'') False False of
      Inr (Some (Template ip)) \<Rightarrow> Some (ip_expressions ip) | _ \<Rightarrow> None) = Some [J ''a'']"
    by code_simp
  then obtain ip where ip: "interpolate default_symbols (J ''Hi {{a}}'') False False = Inr (Some (Template ip))"
    "ip_expressions ip = [J ''a'']"
    by (auto split: sum.splits option.splits template.splits)
  from interpolation_shows_text [OF ip(1)] ip(2) show ?thesis
    by metis
qed

lemma written_text_reads_back_witness:
  "\<exists>ip. interpolate default_symbols (concat (map written [Separator (J ''{{'' @ J ''x''), Expression (J ''a'')])) True False =
     Inr (Some (Template ip)) \<and> fst (compute_text False [Some (J ''v'')] ip) = Some (J ''{{xv'')"
proof -
  have "writable [Separator (J ''{{'' @ J ''x''), Expression (J ''a'')]"
    by simp
  from written_text_reads_back [OF this, of True] show ?thesis
    by fastforce
qed

end
