(* ===== verification/Spec2Isabelle.thy ===== *)
theory Spec2Isabelle
  imports FwProps NgProps NgCache NgStable NgNumber NgDate NgLocation NgOrderBy NgModelInv NgRepeatInv NgWatchColl NgModulesInv NgInterpolateInv
begin

text \<open>
  This development models and verifies the repository of an application layer firewall: a packet
  filter in C++ (a netfilter queue handler with rules, a log and a control server), the HTTP proxy in
  Python that stands in front of the control server, and the web console's framework, the file
  \<open>httpProxy/static/angular.js\<close> (AngularJS 1.6.8), which is by far the largest source of the repository.

  \<^bold>\<open>How the parts work together.\<close> The kernel hands each packet to the queue handler
  (\<open>filter/\<close>), which asks the rule manager (\<open>rule/RuleManager\<close>) for a verdict. The manager walks the
  collection (\<open>rule/RuleCollection\<close>) and each rule (\<open>rule/Rule\<close>) compares its fields with what
  \<open>rule/PacketExtractor\<close> reads from the packet. The control server (\<open>server/server.cpp\<close>) answers JSON
  requests on a socket, replaces the rules and switches the filter, concurrently with the verdicts. The
  proxy (\<open>httpProxy/HTTPProxy.py\<close>) checks a token and forwards the console's requests. The console is a
  page of expressions and filters that the framework evaluates on scopes in digest cycles.

  \<^bold>\<open>Shared base.\<close>
  \<^item> \<open>Prelude\<close>: strings as lists of code units, results that may be errors, lists, and the contracts
    \<open>step_invariant\<close> (operations keep an invariant) and \<open>simulation\<close> (operations refine an abstract
    machine), which the stateful components interpret.
  \<^item> \<open>JsNum\<close>: the numbers of JavaScript (IEEE doubles as rationals, with rounding) and their texts.
  \<^item> \<open>JsValue\<close>: values and objects of JavaScript with a heap, prototypes and conversions, as a state and
    error monad.

  \<^bold>\<open>The packet filter.\<close>
  \<^item> \<open>FwJson\<close> (\<open>common/type_def.h\<close>): the typed getters over parsed JSON, and the C library functions they
    call. \<open>FwRule\<close> (\<open>rule/Rule\<close>, \<open>rule/PacketExtractor\<close>): a rule is a record of words, the packet a
    memory; matching, names, parsing and printing. \<open>FwManager\<close>: the collection and the manager.
  \<^item> \<open>FwRace\<close>: the threads of the server and of the queue as a step relation \<open>race_step\<close> over the lock,
    the rule pointer and the allocated collections. \<open>FwServer\<close>: the request handler, the connection
    loop, the log buffer, the queue callback and the proxy.
  \<^item> \<open>FwProps\<close>: the properties. The verdict refines a policy on the set of rules; what a rule matches; the
    verdict depends on the headers only; saving and loading; the filter answers after every session;
    which requests the server survives; the judge never reads freed rules in any interleaving, while the
    query can; the proxy's missing return; the log.

  \<^bold>\<open>Expressions\<close> (angular.js, \<open>$parse\<close>). \<open>NgLexer\<close> is the class \<open>Lexer\<close>, \<open>NgAst\<close> and \<open>NgParser\<close> the class
  \<open>AST\<close> (recursive descent over the token list, with termination), \<open>NgConst\<close> the decoration of the tree
  (\<open>findConstantAndWatchExpressions\<close>, \<open>getInputs\<close>), \<open>NgInterp\<close> the class \<open>ASTInterpreter\<close>, \<open>NgParse\<close> the
  service with its cache and watches, \<open>NgEval\<close> facts on evaluation. \<open>NgProps\<close>: the tokens tile the text;
  parsing is total; constants ignore the environment; watched inputs determine the value; reading never
  fails; assignment creates the path.

  \<^bold>\<open>Promises\<close> (\<open>$q\<close>). \<open>NgQ\<close> has the promise states and every operation of \<open>qFactory\<close>, \<open>NgQInv\<close> the
  invariant of the pending queues; a promise settles once and no callback is forgotten.

  \<^bold>\<open>Scopes.\<close> \<open>Links\<close> proves doubly linked segments once; \<open>NgCache\<close> (\<open>$cacheFactory\<close>) and \<open>NgScopeTree\<close> use it.
  \<open>NgScope\<close> is \<open>$rootScope\<close>: tree, watchers, events, queues, \<open>$digest\<close>, \<open>$apply\<close>, \<open>$destroy\<close>.
  \<open>NgDigest\<close> and \<open>NgStable\<close>: the traversal is depth first, new scopes and destruction keep the tree, a
  returning digest leaves every watcher unchanged; two programs on which the digest breaks or never
  returns. \<open>NgCache\<close>: a bounded cache refines a list in order of last use. \<open>NgWatchColl\<close> is the change
  detector of \<open>$watchCollection\<close>: it reports a check exactly when the value differs shallowly from the last
  one, with the two inputs on which it does not.

  \<^bold>\<open>Formatting and selecting.\<close> \<open>NgNumber\<close> and \<open>NgDate\<close> are the number, currency and date filters.
  \<open>NgTree\<close> has data trees and \<open>angular.equals\<close>, \<open>NgFilter\<close> the filters \<open>filter\<close> and \<open>limitTo\<close>,
  \<open>NgOrderBy\<close> the filter \<open>orderBy\<close>, whose comparator is shown to be an ordering through the contract
  \<open>comparison\<close>.

  \<^bold>\<open>Locations.\<close> \<open>NgUri\<close> has the URI escapings of the framework over \<open>encodeURIComponent\<close> and
  \<open>decodeURIComponent\<close>, with UTF-8 and UTF-16 written out; the contract \<open>uri_escape\<close> is interpreted for each
  set of characters left alone. \<open>NgLocation\<close> has the three location classes and their methods; what they
  compose parses back.

  \<^bold>\<open>Modules and services.\<close> \<open>NgInjector\<close> is \<open>createInjector\<close>: \<open>$provide\<close>, \<open>getService\<close> with its cache, marks and
  path, calls with injected arguments, decorators. \<open>NgInjectorInv\<close> compares it with a definition of services
  that knows no cache and no marks, through locales for whatever gives services (\<open>service_source\<close>,
  \<open>sound_source\<close>, \<open>complete_source\<close>, \<open>agreeing\<close>) interpreted on \<open>getService\<close>; a depth above the number of
  services left to build is enough. \<open>NgModules\<close> has \<open>angular.module\<close> and \<open>loadModules\<close>, \<open>NgModulesInv\<close> the order in
  which modules run, and that the injector they leave is one of those that \<open>NgInjectorInv\<close> speaks of.

  \<^bold>\<open>The page.\<close> \<open>NgInterpolate\<close> is \<open>$interpolate\<close>: cutting a text at the symbols and joining the values;
  \<open>NgInterpolateInv\<close> shows what each call returns and that written texts are read back. \<open>NgForm\<close> has the form
  controllers and \<open>$setValidity\<close> (a tree of controls in a map from addresses), \<open>NgFormInv\<close> that a form is
  valid or pending exactly when the inputs below it make it so. \<open>NgModelCtl\<close> is \<open>NgModelController\<close> on top of it (parsers, synchronous
  and asynchronous validators, debouncing, the model watch), \<open>NgModelInv\<close> its commits and pending runs. \<open>NgRepeat\<close> is the
  action of \<open>ngRepeat\<close>: blocks by tracked id, and the list of nodes; \<open>NgRepeatInv\<close> shows that the nodes
  become those of the items in order, old blocks reused, whatever is still leaving with an animation.

  \<^bold>\<open>Fuel and bounds.\<close> Operations that run code of the page are functions with a fuel argument
  (\<open>NgScope\<close>, \<open>NgInterp\<close>); a run out of fuel is an own outcome, and the statements on a run that returns
  say so or show it for every fuel. The injector and the module loader take the depth of their recursion,
  with the bound that is enough. All other recursion is shown to terminate. The words of the packet
  filter have their width; the numbers of JavaScript are exact doubles, and statements on integers carry
  the range in which they are exact.

  \<^bold>\<open>Parameters.\<close> The JSON library, the socket and queue system calls, the clock, the anchor element that
  resolves URLs, upper and lower case, and the functions of the page, \<open>$sce\<close> and the printing of values, are arguments of the definitions that
  use them. Hypotheses on them are named where they occur (\<open>anchor_splits\<close>).

  \<^bold>\<open>Not modelled.\<close> The configuration file and thin wrappers of the packet filter, which only call
  libraries; in angular.js the compiler and the other directives, which work on DOM nodes, \<open>$http\<close> and
  \<open>$animate\<close>, which drive the browser, \<open>annotate\<close>, which reads the source text of functions, the parsers of the
  input types, the code generator \<open>ASTCompiler\<close> (a second implementation of \<open>ASTInterpreter\<close>), \<open>$watchGroup\<close>,
  the synchronisation of \<open>$location\<close> with the history, \<open>angular.copy\<close>, and the bundled jqLite. The
  manifest lists each with its state.
\<close>

end
